(* ===== verification/Prelude.thy ===== *)
theory Prelude
  imports Main "HOL-Library.Word"
begin

text \<open>
  The shared base of the development: the fixed-width types of \<open>kernel/types.h\<close>, the
  result type of a kernel operation, its sequencing combinator with the two predicates
  (\<open>must\<close>, \<open>may\<close>) every contract is written with, and the generic lemmas
  on words and byte encodings that the components share.

  A kernel operation that can stop is a function into \<open>'a kres\<close>. \<open>Inr x\<close> is a
  normal return. \<open>Inl (Panic msg)\<close> is a call of \<open>panic(msg)\<close>, which never returns.
  \<open>Inl (Sleeps c)\<close> is a thread that has to wait on channel \<open>c\<close> before it can go on.
  \<open>Inl Hangs\<close> is a loop that does not end, and \<open>Inl (Fault msg)\<close> is an access that C
  leaves undefined (an array index out of range, a null pointer).
\<close>

unbundle bit_operations_syntax

section \<open>Types of kernel/types.h\<close>

type_synonym uint64 = "64 word"
type_synonym uint32 = "32 word"
type_synonym uint16 = "16 word"
type_synonym uchar = "8 word"

named_theorems kernel_simps \<open>unfolding rules of the operations of the kernel model\<close>
named_theorems frame \<open>what an operation leaves unchanged\<close>

section \<open>Wait channels and results\<close>

text \<open>
  A wait channel is an address in C; the model has one constructor for each kind of
  object the kernel sleeps on.
\<close>

datatype chan =
    ChProc nat
  | ChLog
  | ChBuf nat
  | ChBufLock nat
  | ChInodeLock nat
  | ChTicks
  | ChPipeRead nat
  | ChPipeWrite nat
  | ChConsR
  | ChTx
  | ChDiskFree

datatype kfail = Panic string | Sleeps chan | Hangs | Fault string

type_synonym 'a kres = "kfail + 'a"

definition kbind :: "'e + 'a \<Rightarrow> ('a \<Rightarrow> 'e + 'b) \<Rightarrow> 'e + 'b" where
  "kbind m f = (case m of Inl e \<Rightarrow> Inl e | Inr x \<Rightarrow> f x)"

text \<open>\<open>must r Q\<close>: the operation returns, with a result in \<open>Q\<close>. \<open>may r Q\<close>: if it returns
  at all, the result is in \<open>Q\<close>.\<close>

definition must :: "'e + 'a \<Rightarrow> ('a \<Rightarrow> bool) \<Rightarrow> bool" where
  "must r Q = (case r of Inl e \<Rightarrow> False | Inr x \<Rightarrow> Q x)"

definition may :: "'e + 'a \<Rightarrow> ('a \<Rightarrow> bool) \<Rightarrow> bool" where
  "may r Q = (case r of Inl e \<Rightarrow> True | Inr x \<Rightarrow> Q x)"

text \<open>Counting a \<open>uint\<close> up and down, with wrap-around.\<close>

definition inc32 :: "nat \<Rightarrow> nat" where
  "inc32 n = (n + 1) mod 2 ^ 32"

definition dec32 :: "nat \<Rightarrow> nat" where
  "dec32 n = (n + (2 ^ 32 - 1)) mod 2 ^ 32"

lemma inc32_small: "n < 2 ^ 32 - 1 \<Longrightarrow> inc32 n = Suc n"
  by (simp add: inc32_def)

lemma dec32_Suc: "n < 2 ^ 32 \<Longrightarrow> dec32 (Suc n) = n"
proof -
  assume n: "n < 2 ^ 32"
  have "Suc n + (2 ^ 32 - 1) = n + 2 ^ 32" by simp
  then show ?thesis using n by (simp only: dec32_def mod_add_self2 mod_less)
qed

lemma kbind_Inr [simp]: "kbind (Inr x) f = f x"
  by (simp add: kbind_def)

lemma kbind_Inl [simp]: "kbind (Inl e) f = Inl e"
  by (simp add: kbind_def)

lemma kbind_cong [fundef_cong]:
  "m = m' \<Longrightarrow> (\<And>x. m' = Inr x \<Longrightarrow> f x = g x) \<Longrightarrow> kbind m f = kbind m' g"
  by (cases m') (auto simp: kbind_def)

lemma kbind_assoc: "kbind (kbind m f) g = kbind m (\<lambda>x. kbind (f x) g)"
  by (cases m) auto

lemma kbind_eq_Inr: "kbind m f = Inr y \<longleftrightarrow> (\<exists>x. m = Inr x \<and> f x = Inr y)"
  by (cases m) auto

lemma kbind_InrE [elim]:
  assumes "kbind m f = Inr y"
  obtains x where "m = Inr x" and "f x = Inr y"
  using assms by (cases m) auto

lemma must_Inr [simp]: "must (Inr x) Q = Q x"
  by (simp add: must_def)

lemma must_Inl [simp]: "\<not> must (Inl e) Q"
  by (simp add: must_def)

lemma must_kbind: "must (kbind m f) Q \<longleftrightarrow> must m (\<lambda>x. must (f x) Q)"
  by (cases m) auto

lemma must_weaken: "must m P \<Longrightarrow> (\<And>x. P x \<Longrightarrow> Q x) \<Longrightarrow> must m Q"
  by (cases m) auto

lemma must_kbindI: "must m P \<Longrightarrow> (\<And>x. P x \<Longrightarrow> must (f x) Q) \<Longrightarrow> must (kbind m f) Q"
  by (cases m) auto

lemma must_iff: "must m Q \<longleftrightarrow> (\<exists>x. m = Inr x \<and> Q x)"
  by (cases m) auto

lemma must_if [simp]: "must (if b then m else m') Q = (if b then must m Q else must m' Q)"
  by simp

lemma may_Inr [simp]: "may (Inr x) Q = Q x"
  by (simp add: may_def)

lemma may_Inl [simp]: "may (Inl e) Q"
  by (simp add: may_def)

lemma may_kbind: "may (kbind m f) Q \<longleftrightarrow> may m (\<lambda>x. may (f x) Q)"
  by (cases m) auto

lemma may_weaken: "may m P \<Longrightarrow> (\<And>x. P x \<Longrightarrow> Q x) \<Longrightarrow> may m Q"
  by (cases m) auto

lemma may_kbindI: "may m P \<Longrightarrow> (\<And>x. P x \<Longrightarrow> may (f x) Q) \<Longrightarrow> may (kbind m f) Q"
  by (cases m) auto

lemma may_iff: "may m Q \<longleftrightarrow> (\<forall>x. m = Inr x \<longrightarrow> Q x)"
  by (cases m) auto

lemma mayD: "may m Q \<Longrightarrow> m = Inr x \<Longrightarrow> Q x"
  by simp

lemma must_imp_may: "must m Q \<Longrightarrow> may m Q"
  by (cases m) auto

end
