(* ===== verification/Memory.thy ===== *)
theory Memory
  imports Prelude
begin

text \<open>
  Byte-addressed memory and the routines of \<open>kernel/string.c\<close>.

  Physical memory is a function from 64-bit addresses to bytes. The string routines are
  also used on character arrays inside structures (a process name, a directory entry), so
  those that only read, or that write to one object and read another, are stated for any
  index type: \<open>64 word\<close> for physical memory, \<open>nat\<close> for an array. The theory also
  has the little-endian loads and stores by which the C code reads integers, pointers and
  structure fields out of bytes.
\<close>

type_synonym addr = "64 word"
type_synonym memory = "addr \<Rightarrow> uchar"
type_synonym bytes = "nat \<Rightarrow> uchar"

section \<open>kernel/string.c\<close>

subsection \<open>memset\<close>

function memset_from :: "memory \<Rightarrow> addr \<Rightarrow> uchar \<Rightarrow> nat \<Rightarrow> nat \<Rightarrow> memory" where
  "memset_from m cdst c i n =
     (if i < n then memset_from (m(cdst + of_nat i := c)) cdst c (Suc i) n else m)"
  by pat_completeness auto
termination
  by (relation "measure (\<lambda>(m, d, c, i, n). n - i)") auto

declare memset_from.simps [simp del]

definition memset :: "memory \<Rightarrow> addr \<Rightarrow> uint32 \<Rightarrow> nat \<Rightarrow> memory" where
  "memset m dst c n = memset_from m dst (ucast c) 0 n"

subsection \<open>memcmp\<close>

fun memcmp :: "('i::{plus,one} \<Rightarrow> uchar) \<Rightarrow> 'i \<Rightarrow> ('j::{plus,one} \<Rightarrow> uchar) \<Rightarrow> 'j \<Rightarrow> nat \<Rightarrow> int"
where
  "memcmp f s1 g s2 0 = 0"
| "memcmp f s1 g s2 (Suc n) =
     (if f s1 \<noteq> g s2 then int (unat (f s1)) - int (unat (g s2))
      else memcmp f (s1 + 1) g (s2 + 1) n)"

subsection \<open>memmove\<close>

text \<open>The two loops of \<open>memmove\<close>: upwards, and downwards from one past the end.\<close>

fun copy_up :: "memory \<Rightarrow> addr \<Rightarrow> addr \<Rightarrow> nat \<Rightarrow> memory" where
  "copy_up m d s 0 = m"
| "copy_up m d s (Suc n) = copy_up (m(d := m s)) (d + 1) (s + 1) n"

fun copy_down :: "memory \<Rightarrow> addr \<Rightarrow> addr \<Rightarrow> nat \<Rightarrow> memory" where
  "copy_down m d s 0 = m"
| "copy_down m d s (Suc n) = copy_down (m(d - 1 := m (s - 1))) (d - 1) (s - 1) n"

definition memmove :: "memory \<Rightarrow> addr \<Rightarrow> addr \<Rightarrow> nat \<Rightarrow> memory" where
  "memmove m dst src n =
     (if n = 0 then m
      else if src < dst \<and> src + of_nat n > dst
      then copy_down m (dst + of_nat n) (src + of_nat n) n
      else copy_up m dst src n)"

definition memcpy :: "memory \<Rightarrow> addr \<Rightarrow> addr \<Rightarrow> nat \<Rightarrow> memory" where
  "memcpy m dst src n = memmove m dst src n"

subsection \<open>strncmp, strncpy, safestrcpy, strlen\<close>

fun strncmp :: "('i::{plus,one} \<Rightarrow> uchar) \<Rightarrow> 'i \<Rightarrow> ('j::{plus,one} \<Rightarrow> uchar) \<Rightarrow> 'j \<Rightarrow> nat \<Rightarrow> int"
where
  "strncmp f p g q 0 = 0"
| "strncmp f p g q (Suc n) =
     (if f p \<noteq> 0 \<and> f p = g q then strncmp f (p + 1) g (q + 1) n
      else int (unat (f p)) - int (unat (g q)))"

fun fill_zero :: "('i::{plus,one} \<Rightarrow> uchar) \<Rightarrow> 'i \<Rightarrow> nat \<Rightarrow> ('i \<Rightarrow> uchar)" where
  "fill_zero f s 0 = f"
| "fill_zero f s (Suc n) = fill_zero (f(s := 0)) (s + 1) n"

fun strncpy :: "('i::{plus,one} \<Rightarrow> uchar) \<Rightarrow> 'i \<Rightarrow> ('j::{plus,one} \<Rightarrow> uchar) \<Rightarrow> 'j \<Rightarrow> nat
  \<Rightarrow> ('i \<Rightarrow> uchar)"
where
  "strncpy f s g t 0 = f"
| "strncpy f s g t (Suc n) =
     (if g t \<noteq> 0 then strncpy (f(s := g t)) (s + 1) g (t + 1) n
      else fill_zero (f(s := g t)) (s + 1) n)"

fun safestrcpy_loop :: "('i::{plus,one} \<Rightarrow> uchar) \<Rightarrow> 'i \<Rightarrow> ('j::{plus,one} \<Rightarrow> uchar) \<Rightarrow> 'j
  \<Rightarrow> nat \<Rightarrow> ('i \<Rightarrow> uchar)"
where
  "safestrcpy_loop f s g t 0 = f(s := 0)"
| "safestrcpy_loop f s g t (Suc n) =
     (if g t \<noteq> 0 then safestrcpy_loop (f(s := g t)) (s + 1) g (t + 1) n
      else (f(s := g t))(s + 1 := 0))"

definition safestrcpy :: "('i::{plus,one} \<Rightarrow> uchar) \<Rightarrow> 'i \<Rightarrow> ('j::{plus,one} \<Rightarrow> uchar) \<Rightarrow> 'j
  \<Rightarrow> int \<Rightarrow> ('i \<Rightarrow> uchar)"
where
  "safestrcpy f s g t n = (if n \<le> 0 then f else safestrcpy_loop f s g t (nat (n - 1)))"

text \<open>\<open>strlen\<close> reads until a NUL and does not return if there is none.\<close>

partial_function (option) strlen_from :: "('i::{plus,one} \<Rightarrow> uchar) \<Rightarrow> 'i \<Rightarrow> nat \<Rightarrow> nat option"
where
  "strlen_from f s n = (if f s = 0 then Some n else strlen_from f (s + 1) (Suc n))"

definition strlen :: "('i::{plus,one} \<Rightarrow> uchar) \<Rightarrow> 'i \<Rightarrow> nat option" where
  "strlen f s = strlen_from f s 0"

section \<open>Little-endian loads and stores\<close>

primrec le_load :: "('i::semiring_1 \<Rightarrow> uchar) \<Rightarrow> 'i \<Rightarrow> nat \<Rightarrow> nat" where
  "le_load f a 0 = 0"
| "le_load f a (Suc n) = unat (f a) + 256 * le_load f (a + 1) n"

primrec le_store :: "('i::semiring_1 \<Rightarrow> uchar) \<Rightarrow> 'i \<Rightarrow> nat \<Rightarrow> nat \<Rightarrow> ('i \<Rightarrow> uchar)" where
  "le_store f a 0 = (\<lambda>v. f)"
| "le_store f a (Suc n) = (\<lambda>v. (le_store f (a + 1) n (v div 256))(a := of_nat v))"

definition load64 :: "memory \<Rightarrow> addr \<Rightarrow> uint64" where
  "load64 m a = of_nat (le_load m a 8)"

definition store64 :: "memory \<Rightarrow> addr \<Rightarrow> uint64 \<Rightarrow> memory" where
  "store64 m a v = le_store m a 8 (unat v)"

section \<open>Lemmas\<close>

subsection \<open>Address ranges\<close>

text \<open>\<open>a\<close> lies in the \<open>n\<close> bytes from \<open>p\<close>: the offset is a word subtraction, so the
  condition needs no case for a range that reaches the top of the address space.\<close>

definition in_range :: "addr \<Rightarrow> addr \<Rightarrow> nat \<Rightarrow> bool" where
  "in_range a p n \<longleftrightarrow> unat (a - p) < n"

lemma unat_lt64 [simp]: "unat (a::64 word) < 18446744073709551616"
  using unsigned_less [of a] by simp

lemma unat_le64 [simp]: "unat (a::64 word) \<le> 18446744073709551615"
  using unat_lt64 [of a] by linarith

lemma unat_minus1_64 [simp]: "unat (- 1 :: 64 word) = 18446744073709551615"
  by (simp add: unsigned_minus_1_eq_mask mask_eq_exp_minus_1)

lemma unat_of_nat64: "n < 2 ^ 64 \<Longrightarrow> unat (of_nat n :: 64 word) = n"
  by (simp add: unat_of_nat)

lemma offset_eq:
  fixes a d :: addr
  assumes "i < 2 ^ 64"
  shows "a = d + of_nat i \<longleftrightarrow> unat (a - d) = i"
proof
  assume "unat (a - d) = i"
  then have "of_nat i = a - d" by (metis word_unat_eq_iff unat_of_nat64 assms)
  then show "a = d + of_nat i" by simp
qed (use assms in \<open>simp add: unat_of_nat64\<close>)

lemma in_range_Suc:
  assumes "n < 2 ^ 64"
  shows "in_range a p (Suc n) \<longleftrightarrow> a = p \<or> in_range a (p + 1) n"
proof (cases "a = p")
  case True
  then show ?thesis by (simp add: in_range_def)
next
  case False
  then have pos: "0 < unat (a - p)" by (simp add: unat_gt_0)
  have "unat (a - (p + 1)) = unat (a - p) - 1"
    using False by (simp add: diff_diff_add [symmetric] unat_minus_one del: diff_diff_add)
  with pos False show ?thesis unfolding in_range_def by auto
qed

lemma in_range_0 [simp]: "\<not> in_range a p 0"
  by (simp add: in_range_def)

lemma not_in_range_below: "n < 2 ^ 64 \<Longrightarrow> \<not> in_range p (p + 1) n"
  by (simp add: in_range_def unsigned_minus_1_eq_mask mask_eq_exp_minus_1)

lemma in_range_offset: "i < n \<Longrightarrow> i < 2 ^ 64 \<Longrightarrow> in_range (p + of_nat i) p n"
  by (simp add: in_range_def unat_of_nat)

lemma in_range_E:
  assumes "in_range a p n"
  obtains i where "i < n" and "i < 2 ^ 64" and "a = p + of_nat i"
proof
  show "unat (a - p) < n" using assms by (simp add: in_range_def)
  show "unat (a - p) < 2 ^ 64" by simp
  show "a = p + of_nat (unat (a - p))" by simp
qed

subsection \<open>memset and memmove\<close>

lemma memset_from_eq:
  assumes "n \<le> 2 ^ 64"
  shows "memset_from m d c i n = (\<lambda>a. if i \<le> unat (a - d) \<and> unat (a - d) < n then c else m a)"
  using assms
proof (induction m d c i n rule: memset_from.induct)
  case (1 m d c i n)
  show ?case
  proof (cases "i < n")
    case True
    then have i: "i < 2 ^ 64" using "1.prems" by simp
    have eq: "a = d + of_nat i \<longleftrightarrow> unat (a - d) = i" for a
      using i by (rule offset_eq)
    have "memset_from m d c i n = memset_from (m(d + of_nat i := c)) d c (Suc i) n"
      using True by (simp add: memset_from.simps [of m d c i n])
    also have "\<dots> = (\<lambda>a. if Suc i \<le> unat (a - d) \<and> unat (a - d) < n then c
        else (m(d + of_nat i := c)) a)"
      using True "1.prems" by (rule "1.IH")
    also have "\<dots> = (\<lambda>a. if i \<le> unat (a - d) \<and> unat (a - d) < n then c else m a)"
      using True by (auto simp: fun_eq_iff eq)
    finally show ?thesis .
  next
    case False
    then show ?thesis by (auto simp: fun_eq_iff memset_from.simps [of m d c i n])
  qed
qed

lemma memset_eq:
  "n \<le> 2 ^ 64 \<Longrightarrow> memset m d c n = (\<lambda>a. if in_range a d n then ucast c else m a)"
  by (simp add: memset_def memset_from_eq in_range_def)

lemma copy_up_eq:
  assumes "n \<le> 2 ^ 64" and "d = s \<or> n \<le> unat (d - s)"
  shows "copy_up m d s n = (\<lambda>a. if in_range a d n then m (s + (a - d)) else m a)"
  using assms
proof (induction n arbitrary: m d s)
  case 0
  then show ?case by simp
next
  case (Suc n)
  have n: "n < 2 ^ 64" using Suc.prems by simp
  have IH: "copy_up (m(d := m s)) (d + 1) (s + 1) n =
      (\<lambda>a. if in_range a (d + 1) n then (m(d := m s)) (s + 1 + (a - (d + 1)))
           else (m(d := m s)) a)"
    using Suc.prems by (intro Suc.IH) auto
  have ne: "s + (a - d) \<noteq> d \<or> d = s" if "in_range a (d + 1) n" for a
  proof (rule ccontr)
    assume "\<not> (s + (a - d) \<noteq> d \<or> d = s)"
    then have eq: "a - d = d - s" and "d \<noteq> s" by (auto simp: algebra_simps)
    then have "Suc n \<le> unat (a - d)" using Suc.prems by auto
    moreover have "in_range a d (Suc n)" using that n by (simp add: in_range_Suc)
    ultimately show False by (simp add: in_range_def)
  qed
  show ?case
  proof (rule ext)
    fix a
    have al: "s + 1 + (a - (d + 1)) = s + (a - d)" by simp
    show "copy_up m d s (Suc n) a = (if in_range a d (Suc n) then m (s + (a - d)) else m a)"
      using ne [of a] not_in_range_below [OF n, of d] n
      by (auto simp: IH al in_range_Suc)
  qed
qed

lemma copy_down_eq:
  assumes "n \<le> 2 ^ 64" and "d = s \<or> n \<le> unat (s - d)"
  shows "copy_down m (d + of_nat n) (s + of_nat n) n =
    (\<lambda>a. if in_range a d n then m (s + (a - d)) else m a)"
  using assms
proof (induction n arbitrary: m)
  case 0
  then show ?case by simp
next
  case (Suc n)
  have n: "n < 2 ^ 64" using Suc.prems by simp
  let ?m = "m(d + of_nat n := m (s + of_nat n))"
  have IH: "copy_down ?m (d + of_nat n) (s + of_nat n) n =
      (\<lambda>a. if in_range a d n then ?m (s + (a - d)) else ?m a)"
    using Suc.prems by (intro Suc.IH) auto
  have last: "a = d + of_nat n \<longleftrightarrow> unat (a - d) = n" for a
    using n by (rule offset_eq)
  have ne: "s + (a - d) \<noteq> d + of_nat n \<or> d = s" if "in_range a d n" for a
  proof (rule ccontr)
    assume "\<not> (s + (a - d) \<noteq> d + of_nat n \<or> d = s)"
    then have eq: "s - d = of_nat n - (a - d)" and "d \<noteq> s" by (auto simp: algebra_simps)
    have lt: "unat (a - d) < n" using that by (simp add: in_range_def)
    then have "unat (of_nat n - (a - d)) = n - unat (a - d)"
      using n by (subst unat_sub) (auto simp: word_le_nat_alt unat_of_nat)
    then have "unat (s - d) \<le> n" by (simp add: eq)
    then show False using Suc.prems \<open>d \<noteq> s\<close> by auto
  qed
  show ?case
  proof (rule ext)
    fix a
    have "copy_down m (d + of_nat (Suc n)) (s + of_nat (Suc n)) (Suc n) a =
        (if in_range a d n then ?m (s + (a - d)) else ?m a)"
      using IH by (simp add: algebra_simps)
    also have "\<dots> = (if in_range a d (Suc n) then m (s + (a - d)) else m a)"
    proof (cases "unat (a - d) = n")
      case True
      then have "a = d + of_nat n" using last [of a] by blast
      then show ?thesis using n by (simp add: in_range_def unat_of_nat)
    next
      case False
      then have "a \<noteq> d + of_nat n" using last [of a] by blast
      then show ?thesis using ne [of a] False by (auto simp: in_range_def less_Suc_eq)
    qed
    finally show "copy_down m (d + of_nat (Suc n)) (s + of_nat (Suc n)) (Suc n) a =
        (if in_range a d (Suc n) then m (s + (a - d)) else m a)" .
  qed
qed

text \<open>The direction test of \<open>memmove\<close> is what makes either loop read each source byte
  before it is overwritten.\<close>

lemma memmove_eq:
  assumes src: "unat src + n < 2 ^ 64" and dst: "unat dst + n \<le> 2 ^ 64"
  shows "memmove m dst src n = (\<lambda>a. if in_range a dst n then m (src + (a - dst)) else m a)"
proof -
  have n: "n \<le> 2 ^ 64" using src by simp
  have sn: "unat (src + of_nat n) = unat src + n"
    using src by (simp add: unat_plus_if' unat_of_nat)
  show ?thesis
  proof (cases "src < dst \<and> src + of_nat n > dst")
    case True
    then have lt: "unat src < unat dst" by (simp add: word_less_nat_alt)
    have "unat (src - dst) = 2 ^ 64 + unat src - unat dst"
      using lt by (simp add: unat_sub_if')
    then have "n \<le> unat (src - dst)" using lt dst by simp
    with True n show ?thesis by (auto simp: memmove_def copy_down_eq)
  next
    case False
    have "dst = src \<or> n \<le> unat (dst - src)"
    proof (cases "src < dst")
      case True
      then have "\<not> src + of_nat n > dst" using False by simp
      then have "unat src + n \<le> unat dst" by (simp add: word_less_nat_alt sn)
      moreover have "unat (dst - src) = unat dst - unat src"
        using True by (simp add: unat_sub_if' word_less_nat_alt)
      ultimately have "n \<le> unat (dst - src)" by linarith
      then show ?thesis ..
    next
      case ge: False
      then have "unat dst \<le> unat src" by (simp add: word_less_nat_alt)
      then show ?thesis
        using src by (cases "dst = src") (auto simp: unat_sub_if' word_unat_eq_iff)
    qed
    with False n show ?thesis by (auto simp: memmove_def copy_up_eq)
  qed
qed

subsection \<open>Loads and stores\<close>

lemma le_load_cong:
  "(\<And>i. i < n \<Longrightarrow> f (a + of_nat i) = g (b + of_nat i)) \<Longrightarrow> le_load f a n = le_load g b n"
proof (induction n arbitrary: a b)
  case 0
  then show ?case by simp
next
  case (Suc n)
  have "le_load f (a + 1) n = le_load g (b + 1) n"
  proof (rule Suc.IH)
    fix i assume "i < n"
    then show "f (a + 1 + of_nat i) = g (b + 1 + of_nat i)"
      using Suc.prems [of "Suc i"] by (simp add: ac_simps)
  qed
  moreover have "f a = g b" using Suc.prems [of 0] by simp
  ultimately show ?case by simp
qed

lemma le_load_digits:
  "(\<And>i. i < n \<Longrightarrow> f (a + of_nat i) = of_nat (v div 256 ^ i)) \<Longrightarrow> le_load f a n = v mod 256 ^ n"
proof (induction n arbitrary: a v)
  case 0
  then show ?case by simp
next
  case (Suc n)
  have "le_load f (a + 1) n = (v div 256) mod 256 ^ n"
  proof (rule Suc.IH)
    fix i assume "i < n"
    then show "f (a + 1 + of_nat i) = of_nat (v div 256 div 256 ^ i)"
      using Suc.prems [of "Suc i"] by (simp add: ac_simps div_mult2_eq)
  qed
  moreover have "unat (f a) = v mod 256"
    using Suc.prems [of 0] by (simp add: unat_of_nat)
  ultimately show ?case by (simp add: mod_mult2_eq)
qed

lemma le_load_less: "le_load f a n < 256 ^ n"
proof (induction n arbitrary: a)
  case 0
  then show ?case by simp
next
  case (Suc n)
  have "unat (f a) < 256" using unsigned_less [of "f a"] by simp
  with Suc.IH [of "a + 1"] show ?case by simp
qed

lemma le_load_zero: "(\<And>i. i < n \<Longrightarrow> f (a + of_nat i) = 0) \<Longrightarrow> le_load f a n = 0"
  using le_load_digits [of n f a 0] by simp

lemma le_store_other:
  "(\<And>i. i < n \<Longrightarrow> b \<noteq> a + of_nat i) \<Longrightarrow> le_store f a n v b = f b"
proof (induction n arbitrary: a v)
  case 0
  then show ?case by simp
next
  case (Suc n)
  have "le_store f (a + 1) n (v div 256) b = f b"
  proof (rule Suc.IH)
    fix i assume "i < n"
    then show "b \<noteq> a + 1 + of_nat i" using Suc.prems [of "Suc i"] by (simp add: ac_simps)
  qed
  moreover have "b \<noteq> a" using Suc.prems [of 0] by simp
  ultimately show ?case by simp
qed

lemma le_store_digit:
  assumes "inj_on (\<lambda>i. a + of_nat i) {..<n}" and "i < n"
  shows "le_store f a n v (a + of_nat i) = of_nat (v div 256 ^ i)"
  using assms
proof (induction n arbitrary: a v i)
  case 0
  then show ?case by simp
next
  case (Suc n)
  show ?case
  proof (cases i)
    case 0
    then show ?thesis by simp
  next
    case (Suc j)
    have inj: "inj_on (\<lambda>i. a + 1 + of_nat i) {..<n}"
    proof (rule inj_onI)
      fix x y assume "x \<in> {..<n}" "y \<in> {..<n}" "a + 1 + of_nat x = a + 1 + of_nat y"
      then show "x = y"
        using Suc.prems(1) [THEN inj_onD, of "Suc x" "Suc y"] by (simp add: ac_simps)
    qed
    have "a + of_nat i \<noteq> a + of_nat 0"
      using Suc.prems Suc inj_onD [OF Suc.prems(1), of i 0] by fastforce
    moreover have "le_store f (a + 1) n (v div 256) (a + 1 + of_nat j) = of_nat (v div 256 div 256 ^ j)"
      using inj Suc Suc.prems(2) by (intro Suc.IH) auto
    ultimately show ?thesis using Suc by (simp add: ac_simps div_mult2_eq)
  qed
qed

lemma le_load_store:
  "inj_on (\<lambda>i. a + of_nat i) {..<n} \<Longrightarrow> le_load (le_store f a n v) a n = v mod 256 ^ n"
  by (rule le_load_digits) (rule le_store_digit)

lemma inj_offsets_nat [simp]: "inj_on (\<lambda>i. (a::nat) + of_nat i) A"
  by (simp add: inj_on_def)

lemma le_load_store_disjoint:
  "a + n \<le> b \<or> b + m \<le> a \<Longrightarrow> le_load (le_store f (a::nat) n v) b m = le_load f b m"
  by (rule le_load_cong, rule le_store_other) auto

lemma inj_offsets_addr: "n \<le> 2 ^ 64 \<Longrightarrow> inj_on (\<lambda>i. (a::addr) + of_nat i) {..<n}"
proof (rule inj_onI)
  fix x y assume n: "n \<le> 2 ^ 64" and "x \<in> {..<n}" "y \<in> {..<n}"
    and "a + of_nat x = a + of_nat y"
  then have "unat (of_nat x :: addr) = unat (of_nat y :: addr)" by simp
  with n \<open>x \<in> {..<n}\<close> \<open>y \<in> {..<n}\<close> show "x = y" by (simp add: unat_of_nat)
qed

lemma load64_store64 [simp]: "load64 (store64 m a v) a = v"
proof -
  have "le_load (le_store m a 8 (unat v)) a 8 = unat v mod 256 ^ 8"
    by (rule le_load_store) (simp add: inj_offsets_addr)
  also have "\<dots> = unat v" by simp
  finally show ?thesis by (simp add: load64_def store64_def)
qed

lemma load64_cong: "(\<And>i. i < 8 \<Longrightarrow> f (a + of_nat i) = g (a + of_nat i)) \<Longrightarrow> load64 f a = load64 g a"
  unfolding load64_def by (metis le_load_cong)

lemma load64_zero: "(\<And>i. i < 8 \<Longrightarrow> f (a + of_nat i) = 0) \<Longrightarrow> load64 f a = 0"
  by (simp add: load64_def le_load_zero)

lemma store64_other: "\<not> in_range b a 8 \<Longrightarrow> store64 m a v b = m b"
  unfolding store64_def
  by (rule le_store_other) (auto simp: in_range_offset)

subsection \<open>C strings in arrays\<close>

text \<open>The characters before the first NUL among the first \<open>n\<close> bytes from \<open>p\<close>.\<close>

primrec cstr_n :: "('i::{plus,one} \<Rightarrow> uchar) \<Rightarrow> 'i \<Rightarrow> nat \<Rightarrow> uchar list" where
  "cstr_n f p 0 = []"
| "cstr_n f p (Suc n) = (if f p = 0 then [] else f p # cstr_n f (p + 1) n)"

lemma length_cstr_n: "length (cstr_n f p n) \<le> n"
  by (induction n arbitrary: p) auto

lemma cstr_n_nonzero: "0 \<notin> set (cstr_n f p n)"
  by (induction n arbitrary: p) auto

lemma cstr_n_cong:
  fixes p :: nat
  shows "(\<And>i. p \<le> i \<Longrightarrow> i < p + n \<Longrightarrow> f i = g i) \<Longrightarrow> cstr_n f p n = cstr_n g p n"
proof (induction n arbitrary: p)
  case (Suc n)
  have "cstr_n f (p + 1) n = cstr_n g (p + 1) n"
    by (rule Suc.IH) (use Suc.prems in auto)
  moreover have "f p = g p" using Suc.prems by simp
  ultimately show ?case by simp
qed simp

lemma strncmp_eq_0: "strncmp f p g q n = 0 \<longleftrightarrow> cstr_n f p n = cstr_n g q n"
  by (induction f p g q n rule: strncmp.induct)
    (auto simp: word_uint_eq_iff [symmetric] uint_0_iff)

lemma memcmp_eq_0:
  fixes f :: "'i::semiring_1 \<Rightarrow> uchar" and g :: "'j::semiring_1 \<Rightarrow> uchar"
  shows "memcmp f p g q n = 0 \<longleftrightarrow> (\<forall>i<n. f (p + of_nat i) = g (q + of_nat i))"
proof (induction n arbitrary: p q)
  case (Suc n)
  have "(\<forall>i<Suc n. f (p + of_nat i) = g (q + of_nat i)) \<longleftrightarrow>
      f p = g q \<and> (\<forall>i<n. f (p + 1 + of_nat i) = g (q + 1 + of_nat i))"
    by (simp add: All_less_Suc2 ac_simps)
  then show ?case using Suc.IH by (auto simp: word_uint_eq_iff [symmetric])
qed simp

lemma fill_zero_eq:
  fixes s :: nat
  shows "fill_zero f s n = (\<lambda>j. if s \<le> j \<and> j < s + n then 0 else f j)"
  by (induction n arbitrary: f s) (auto simp: fun_eq_iff)

lemma strncpy_other:
  fixes s :: nat
  shows "j < s \<or> s + n \<le> j \<Longrightarrow> strncpy f s g t n j = f j"
  by (induction f s g t n rule: strncpy.induct) (auto simp: fill_zero_eq)

lemma strncpy_cstr:
  fixes s :: nat
  shows "cstr_n (strncpy f s g t n) s n = cstr_n g t n"
proof (induction n arbitrary: f s t)
  case (Suc n)
  show ?case
  proof (cases "g t = 0")
    case True
    then show ?thesis by (simp add: fill_zero_eq)
  next
    case False
    then have "strncpy (f(s := g t)) (s + 1) g (t + 1) n s = g t"
      by (simp add: strncpy_other)
    with False Suc.IH [of "f(s := g t)" "s + 1" "t + 1"] show ?thesis
      by (simp add: fun_upd_def)
  qed
qed simp

lemma strncpy_padding:
  fixes s :: nat
  assumes "s + length (cstr_n g t n) \<le> j" and "j < s + n"
  shows "strncpy f s g t n j = 0"
  using assms
proof (induction n arbitrary: f s t)
  case (Suc n)
  then show ?case by (cases "g t = 0") (auto simp: fill_zero_eq)
qed simp

lemma safestrcpy_loop_other:
  fixes s :: nat
  shows "j < s \<or> s + n < j \<Longrightarrow> safestrcpy_loop f s g t n j = f j"
  by (induction f s g t n rule: safestrcpy_loop.induct) auto

lemma safestrcpy_loop_cstr:
  fixes s :: nat
  shows "cstr_n (safestrcpy_loop f s g t n) s (Suc n) = cstr_n g t n
    \<and> (\<exists>j\<ge>s. j \<le> s + n \<and> safestrcpy_loop f s g t n j = 0)"
proof (induction n arbitrary: f s t)
  case (Suc n)
  show ?case
  proof (cases "g t = 0")
    case True
    then show ?thesis by auto
  next
    case False
    have "safestrcpy_loop (f(s := g t)) (s + 1) g (t + 1) n s = g t"
      by (simp add: safestrcpy_loop_other)
    moreover obtain j where "s + 1 \<le> j" "j \<le> s + 1 + n"
      "safestrcpy_loop (f(s := g t)) (s + 1) g (t + 1) n j = 0"
      using Suc.IH by blast
    ultimately show ?thesis
      using False Suc.IH [of "f(s := g t)" "s + 1" "t + 1"]
      by (auto simp: fun_upd_def intro!: exI [of _ j])
  qed
qed auto

lemma strlen_from_eq:
  fixes s :: nat
  assumes "f (s + k) = 0" and "\<And>i. i < k \<Longrightarrow> f (s + i) \<noteq> 0"
  shows "strlen_from f s n = Some (n + k)"
  using assms
proof (induction k arbitrary: s n)
  case 0
  then show ?case by (simp add: strlen_from.simps)
next
  case (Suc k)
  have "f s \<noteq> 0" using Suc.prems(2) [of 0] by simp
  moreover have "strlen_from f (s + 1) (Suc n) = Some (Suc n + k)"
    using Suc.prems(1) Suc.prems(2) [of "Suc i" for i] by (intro Suc.IH) auto
  ultimately show ?case by (simp add: strlen_from.simps [of f s n])
qed

section \<open>Properties of kernel/string.c\<close>

text \<open>C31. \<open>memmove\<close> copies correctly between overlapping regions: afterwards every byte of the
  destination holds what the corresponding source byte held before the call, and every
  byte outside the destination is unchanged, whatever the overlap, as long as neither
  region wraps round the address space.\<close>

theorem memmove_overlap_safe:
  assumes "unat src + n < 2 ^ 64" and "unat dst + n \<le> 2 ^ 64"
  shows "(\<forall>i<n. memmove m dst src n (dst + of_nat i) = m (src + of_nat i)) \<and>
    (\<forall>a. \<not> in_range a dst n \<longrightarrow> memmove m dst src n a = m a)"
proof -
  have "in_range (dst + of_nat i) dst n" if "i < n" for i
    using that assms by (intro in_range_offset) auto
  then show ?thesis by (auto simp: memmove_eq [OF assms])
qed

theorem memmove_overlap_safe_witness:
  "memmove (\<lambda>a. ucast a) 0x1001 0x1000 3 0x1003 = 2 \<and> memmove (\<lambda>a. ucast a) 0x1001 0x1000 3 0x1000 = 0"
proof -
  have "unat (0x1000::addr) + 3 < 2 ^ 64" and "unat (0x1001::addr) + 3 \<le> 2 ^ 64" by simp_all
  note safe = memmove_overlap_safe [OF this, of "\<lambda>a. ucast a"]
  have "\<not> in_range 0x1000 0x1001 3" by (simp add: in_range_def)
  with safe have "memmove (\<lambda>a. ucast a) 0x1001 0x1000 3 0x1000 = ucast (0x1000::addr)" by blast
  moreover have "memmove (\<lambda>a. ucast a) 0x1001 0x1000 3 (0x1001 + of_nat 2) = ucast (0x1000 + of_nat 2 :: addr)"
    using safe [THEN conjunct1, THEN spec [of _ 2]] by simp
  ultimately show ?thesis by simp
qed

text \<open>C35. \<open>safestrcpy\<close> into an array of \<open>n > 0\<close> bytes always leaves a NUL within those \<open>n\<close>
  bytes, writes nothing outside them, and the resulting string is the source truncated
  to \<open>n - 1\<close> characters.\<close>

theorem safestrcpy_terminates:
  fixes f :: bytes
  assumes "0 < n"
  shows "(\<exists>j<n. safestrcpy f s g t (int n) (s + j) = 0) \<and>
    (\<forall>j. j < s \<or> s + n \<le> j \<longrightarrow> safestrcpy f s g t (int n) j = f j) \<and>
    cstr_n (safestrcpy f s g t (int n)) s n = cstr_n g t (n - 1)"
proof -
  from assms obtain k where k: "n = Suc k" by (cases n) auto
  have eq: "safestrcpy f s g t (int n) = safestrcpy_loop f s g t k"
    by (simp add: safestrcpy_def k del: of_nat_Suc) simp
  obtain j where "s \<le> j" "j \<le> s + k" "safestrcpy_loop f s g t k j = 0"
    using safestrcpy_loop_cstr by blast
  then have "\<exists>j<n. safestrcpy f s g t (int n) (s + j) = 0"
    unfolding eq by (intro exI [of _ "j - s"]) (auto simp: k)
  then show ?thesis
    using safestrcpy_loop_cstr [of f s g t k]
    unfolding eq by (auto simp: k safestrcpy_loop_other)
qed

theorem safestrcpy_terminates_witness:
  "(0::nat) < 2 \<and> cstr_n (safestrcpy (\<lambda>_. 7) (0::nat) (\<lambda>i::nat. 65) 0 (int 2)) 0 2 = [65]"
  using safestrcpy_terminates [of 2 "\<lambda>_. 7" 0 "\<lambda>i::nat. 65" 0]
  by simp

end
