(* ===== verification/Riscv.thy ===== *)
theory Riscv
  imports Memory
begin

text \<open>
  The constants and macros of \<open>kernel/riscv.h\<close>, \<open>kernel/memlayout.h\<close>,
  \<open>kernel/param.h\<close> and \<open>kernel/fs.h\<close> that the model uses: page sizes and
  rounding, the Sv39 page-table entry and index macros, the address-space layout, and the
  interrupt-enable bit of \<open>sstatus\<close>.
\<close>

section \<open>kernel/param.h and kernel/fs.h\<close>

abbreviation (input) NPROC :: nat where "NPROC \<equiv> 64"
abbreviation (input) NCPU :: nat where "NCPU \<equiv> 8"
abbreviation (input) NOFILE :: nat where "NOFILE \<equiv> 16"
abbreviation (input) NFILE :: nat where "NFILE \<equiv> 100"
abbreviation (input) NINODE :: nat where "NINODE \<equiv> 50"
abbreviation (input) NDEV :: nat where "NDEV \<equiv> 10"
abbreviation (input) ROOTDEV :: nat where "ROOTDEV \<equiv> 1"
abbreviation (input) ROOTINO :: nat where "ROOTINO \<equiv> 1"
abbreviation (input) MAXARG :: nat where "MAXARG \<equiv> 32"
abbreviation (input) MAXOPBLOCKS :: nat where "MAXOPBLOCKS \<equiv> 10"
abbreviation (input) LOGBLOCKS :: nat where "LOGBLOCKS \<equiv> 30"
abbreviation (input) NBUF :: nat where "NBUF \<equiv> 30"
abbreviation (input) MAXPATH :: nat where "MAXPATH \<equiv> 128"
abbreviation (input) USERSTACK :: nat where "USERSTACK \<equiv> 1"
abbreviation (input) BSIZE :: nat where "BSIZE \<equiv> 1024"
abbreviation (input) FSMAGIC :: nat where "FSMAGIC \<equiv> 0x10203040"
abbreviation (input) NDIRECT :: nat where "NDIRECT \<equiv> 12"
abbreviation (input) NINDIRECT :: nat where "NINDIRECT \<equiv> 256"
abbreviation (input) MAXFILE :: nat where "MAXFILE \<equiv> 268"
abbreviation (input) IPB :: nat where "IPB \<equiv> 16"
abbreviation (input) BPB :: nat where "BPB \<equiv> 8192"
abbreviation (input) DIRSIZ :: nat where "DIRSIZ \<equiv> 14"

section \<open>kernel/riscv.h: pages and page-table entries\<close>

abbreviation (input) PGSIZE :: "'a::numeral" where "PGSIZE \<equiv> 4096"

definition PGROUNDUP :: "uint64 \<Rightarrow> uint64" where
  "PGROUNDUP sz = (sz + PGSIZE - 1) AND NOT (PGSIZE - 1)"

definition PGROUNDDOWN :: "uint64 \<Rightarrow> uint64" where
  "PGROUNDDOWN a = a AND NOT (PGSIZE - 1)"

abbreviation (input) PTE_V :: uint64 where "PTE_V \<equiv> 1"
abbreviation (input) PTE_R :: uint64 where "PTE_R \<equiv> 2"
abbreviation (input) PTE_W :: uint64 where "PTE_W \<equiv> 4"
abbreviation (input) PTE_X :: uint64 where "PTE_X \<equiv> 8"
abbreviation (input) PTE_U :: uint64 where "PTE_U \<equiv> 16"

definition PA2PTE :: "uint64 \<Rightarrow> uint64" where
  "PA2PTE pa = push_bit 10 (drop_bit 12 pa)"

definition PTE2PA :: "uint64 \<Rightarrow> uint64" where
  "PTE2PA pte = push_bit 12 (drop_bit 10 pte)"

definition PTE_FLAGS :: "uint64 \<Rightarrow> uint64" where
  "PTE_FLAGS pte = pte AND 0x3FF"

definition PXSHIFT :: "nat \<Rightarrow> nat" where
  "PXSHIFT level = 12 + 9 * level"

definition PX :: "nat \<Rightarrow> uint64 \<Rightarrow> uint64" where
  "PX level va = drop_bit (PXSHIFT level) va AND 0x1FF"

abbreviation (input) MAXVA :: uint64 where "MAXVA \<equiv> 0x4000000000"

definition MAKE_SATP :: "uint64 \<Rightarrow> uint64" where
  "MAKE_SATP pagetable = push_bit 60 8 OR drop_bit 12 pagetable"

section \<open>kernel/memlayout.h\<close>

abbreviation (input) UART0 :: uint64 where "UART0 \<equiv> 0x10000000"
abbreviation (input) VIRTIO0 :: uint64 where "VIRTIO0 \<equiv> 0x10001000"
abbreviation (input) PLIC :: uint64 where "PLIC \<equiv> 0x0c000000"
abbreviation (input) UART0_IRQ :: nat where "UART0_IRQ \<equiv> 10"
abbreviation (input) VIRTIO0_IRQ :: nat where "VIRTIO0_IRQ \<equiv> 1"
abbreviation (input) KERNBASE :: uint64 where "KERNBASE \<equiv> 0x80000000"
abbreviation (input) PHYSTOP :: uint64 where "PHYSTOP \<equiv> 0x88000000"
abbreviation (input) TRAMPOLINE :: uint64 where "TRAMPOLINE \<equiv> 0x3ffffff000"
abbreviation (input) TRAPFRAME :: uint64 where "TRAPFRAME \<equiv> 0x3fffffe000"

definition KSTACK :: "nat \<Rightarrow> uint64" where
  "KSTACK p = TRAMPOLINE - (of_nat p + 1) * 2 * PGSIZE"

section \<open>kernel/riscv.h: the interrupt-enable bit\<close>

abbreviation (input) SSTATUS_SPP :: uint64 where "SSTATUS_SPP \<equiv> 0x100"
abbreviation (input) SSTATUS_SPIE :: uint64 where "SSTATUS_SPIE \<equiv> 0x20"
abbreviation (input) SSTATUS_SIE :: uint64 where "SSTATUS_SIE \<equiv> 0x2"

definition intr_on :: "uint64 \<Rightarrow> uint64" where
  "intr_on sstatus = sstatus OR SSTATUS_SIE"

definition intr_off :: "uint64 \<Rightarrow> uint64" where
  "intr_off sstatus = sstatus AND NOT SSTATUS_SIE"

definition intr_get :: "uint64 \<Rightarrow> bool" where
  "intr_get sstatus = (sstatus AND SSTATUS_SIE \<noteq> 0)"

section \<open>Lemmas\<close>

lemma constant_layout:
  "TRAMPOLINE = MAXVA - PGSIZE" "TRAPFRAME = TRAMPOLINE - PGSIZE"
  "PHYSTOP = KERNBASE + 128 * 1024 * 1024" "MAXVA = 2 ^ 38"
  by simp_all

subsection \<open>Bit facts\<close>

declare bit_numeral_word_iff [simp del] bit_neg_numeral_word_iff [simp del]

lemma bit_sie: "bit (2::uint64) n \<longleftrightarrow> n = 1"
  by (simp add: bit_2_iff)

lemma bit_not_sie: "bit (- 3 :: uint64) n \<longleftrightarrow> n < 64 \<and> n \<noteq> 1"
proof -
  have "(- 3 :: uint64) = NOT 2" by simp
  then show ?thesis by (simp only: bit_not_iff bit_sie) simp
qed

lemma intr_get_iff: "intr_get x \<longleftrightarrow> bit x 1"
proof -
  have "x AND 2 \<noteq> 0 \<longleftrightarrow> (\<exists>n. bit (x AND 2) n)"
    by (metis bit_eq_iff bit_0_eq bot_apply bot_bool_def)
  also have "\<dots> \<longleftrightarrow> bit x 1" by (auto simp: bit_and_iff bit_sie)
  finally show ?thesis by (simp add: intr_get_def)
qed

lemma intr_get_on [simp]: "intr_get (intr_on x)"
  by (simp add: intr_get_iff intr_on_def bit_or_iff bit_sie)

lemma intr_get_off [simp]: "\<not> intr_get (intr_off x)"
  by (simp add: intr_get_iff intr_off_def bit_and_iff bit_not_sie bit_sie)

lemma intr_on_off: "intr_get x \<Longrightarrow> intr_on (intr_off x) = x"
  by (rule bit_word_eqI)
    (auto simp: intr_get_iff intr_on_def intr_off_def bit_and_iff bit_or_iff bit_not_sie bit_sie)

lemma intr_off_id: "\<not> intr_get x \<Longrightarrow> intr_off x = x"
  by (rule bit_word_eqI)
    (auto simp: intr_get_iff intr_off_def bit_and_iff bit_not_sie bit_sie)

lemma and_not_low: "(a::uint64) AND NOT (mask n) = push_bit n (drop_bit n a)"
  by (rule bit_word_eqI) (auto simp: bit_and_iff bit_not_iff bit_mask_iff bit_push_bit_iff bit_drop_bit_eq)

lemma mask_12: "(4095::uint64) = mask 12"
  by (simp add: mask_eq_exp_minus_1)

lemma mask_9: "(511::uint64) = mask 9"
  by (simp add: mask_eq_exp_minus_1)

lemma mask_10: "(1023::uint64) = mask 10"
  by (simp add: mask_eq_exp_minus_1)

lemma unat_push_drop: "unat (push_bit n (drop_bit n (a::uint64))) = unat a div 2 ^ n * 2 ^ n"
proof -
  have "unat a div 2 ^ n * 2 ^ n < 2 ^ 64"
    using unsigned_less [of a] by (simp add: le_less_trans [OF div_times_less_eq_dividend])
  moreover have "unat (push_bit n (drop_bit n a)) = take_bit 64 (push_bit n (drop_bit n (unat a)))"
    by (simp add: unsigned_push_bit_eq unat_drop_bit_eq)
  ultimately show ?thesis
    by (simp add: push_bit_eq_mult drop_bit_eq_div take_bit_eq_mod)
qed

subsection \<open>Page rounding\<close>

definition page_aligned :: "addr \<Rightarrow> bool" where
  "page_aligned a \<longleftrightarrow> a mod PGSIZE = 0"

lemma page_aligned_iff: "page_aligned a \<longleftrightarrow> unat a mod 4096 = 0"
  by (simp add: page_aligned_def word_unat_eq_iff unat_mod)

lemma PGROUNDDOWN_eq: "PGROUNDDOWN a = push_bit 12 (drop_bit 12 a)"
  by (simp add: PGROUNDDOWN_def mask_12 and_not_low)

lemma unat_PGROUNDDOWN: "unat (PGROUNDDOWN a) = unat a div 4096 * 4096"
  by (simp add: PGROUNDDOWN_eq unat_push_drop)

lemma PGROUNDUP_eq: "PGROUNDUP sz = PGROUNDDOWN (sz + 4095)"
  by (simp add: PGROUNDUP_def PGROUNDDOWN_def add.commute)

lemma unat_PGROUNDUP:
  "unat sz + 4095 < 2 ^ 64 \<Longrightarrow> unat (PGROUNDUP sz) = (unat sz + 4095) div 4096 * 4096"
  by (simp add: PGROUNDUP_eq unat_PGROUNDDOWN unat_plus_if')

lemma page_aligned_PGROUNDDOWN [simp]: "page_aligned (PGROUNDDOWN a)"
  by (simp add: page_aligned_iff unat_PGROUNDDOWN)

lemma page_aligned_PGROUNDUP [simp]: "page_aligned (PGROUNDUP a)"
  by (simp add: PGROUNDUP_eq)

lemma PGROUNDDOWN_aligned: "page_aligned a \<Longrightarrow> PGROUNDDOWN a = a"
  using div_mult_mod_eq [of "unat a" 4096]
  by (simp add: word_unat_eq_iff unat_PGROUNDDOWN page_aligned_iff)

lemma PGROUNDDOWN_le: "PGROUNDDOWN a \<le> a"
  by (simp add: word_le_nat_alt unat_PGROUNDDOWN)

lemma unat_offset_PGROUNDDOWN: "unat (a - PGROUNDDOWN a) = unat a mod 4096"
  by (simp add: unat_sub [OF PGROUNDDOWN_le] unat_PGROUNDDOWN minus_div_mult_eq_mod)

subsection \<open>Page-table entries\<close>

lemma bit_PTE2PA: "bit (PTE2PA x) n \<longleftrightarrow> 12 \<le> n \<and> n < 64 \<and> bit x (n - 2)"
  by (auto simp: PTE2PA_def bit_push_bit_iff bit_drop_bit_eq)

lemma PTE2PA_PA2PTE:
  assumes "page_aligned pa" and "unat fl < 1024"
  shows "PTE2PA (PA2PTE pa OR fl) = pa"
proof (rule bit_word_eqI)
  fix n :: nat
  assume "n < LENGTH(64)"
  have low: "\<not> bit pa k" if "k < 12" for k
  proof -
    have "take_bit 12 (unat pa) = 0"
      using assms(1) by (simp add: page_aligned_iff take_bit_eq_mod)
    then have "\<not> bit (unat pa) k" using that by (metis bit_take_bit_iff bit_0_eq bot_apply bot_bool_def)
    then show ?thesis by (simp add: bit_unsigned_iff)
  qed
  have fl: "\<not> bit fl k" if "10 \<le> k" for k
  proof -
    have "take_bit 10 (unat fl) = unat fl" using assms(2) by (simp add: take_bit_nat_eq_self_iff)
    then have "\<not> bit (unat fl) k" using that by (metis bit_take_bit_iff linorder_not_less)
    then show ?thesis by (simp add: bit_unsigned_iff)
  qed
  show "bit (PTE2PA (PA2PTE pa OR fl)) n = bit pa n"
  proof (cases "12 \<le> n")
    case True
    then have "bit (PTE2PA (PA2PTE pa OR fl)) n = bit (PA2PTE pa OR fl) (n - 2)"
      using \<open>n < LENGTH(64)\<close> by (simp add: bit_PTE2PA)
    also have "\<dots> = bit (PA2PTE pa) (n - 2)" using fl True by (simp add: bit_or_iff)
    also have "\<dots> = bit pa n"
      using True \<open>n < LENGTH(64)\<close> by (auto simp: PA2PTE_def bit_push_bit_iff bit_drop_bit_eq)
    finally show ?thesis .
  next
    case False
    then show ?thesis using low by (simp add: bit_PTE2PA)
  qed
qed

lemma unat_PX: "unat (PX l va) = unat va div 2 ^ PXSHIFT l mod 512"
proof -
  have "unat (PX l va) = take_bit 9 (drop_bit (PXSHIFT l) (unat va))"
    by (simp add: PX_def mask_9 take_bit_eq_mask [symmetric] unsigned_take_bit_eq unat_drop_bit_eq)
  then show ?thesis by (simp add: take_bit_eq_mod drop_bit_eq_div)
qed

lemma unat_PX_less [simp]: "unat (PX l va) < 512"
  by (simp add: unat_PX)

end
