(* ===== verification/Kalloc.thy ===== *)
theory Kalloc
  imports Riscv
begin

text \<open>
  The physical page allocator, \<open>kernel/kalloc.c\<close>.

  The state is physical memory and the head of the free list. The list is threaded
  through the free pages themselves: the first eight bytes of a free page are the
  \<open>next\<close> pointer of its \<open>struct run\<close>. The link-time symbols \<open>end\<close>, \<open>etext\<close>
  and \<open>trampoline\<close>, which \<open>kernel.ld\<close> and the assembler define, are fields of the
  state that no operation writes.

  The critical sections under \<open>kmem.lock\<close> are single steps here; the lock protocol is
  in theory \<open>Spinlock\<close>.
\<close>

record kmem =
  sym_end :: addr
  sym_etext :: addr
  sym_trampoline :: addr
  mem :: memory
  freelist :: addr

section \<open>Operations\<close>

definition kfree :: "addr \<Rightarrow> 'a kmem_scheme \<Rightarrow> 'a kmem_scheme kres" where
  "kfree pa s =
     (if pa mod PGSIZE \<noteq> 0 \<or> pa < sym_end s \<or> pa \<ge> PHYSTOP then Inl (Panic ''kfree'')
      else
        let m = memset (mem s) pa 1 PGSIZE
        in Inr (s\<lparr>mem := store64 m pa (freelist s), freelist := pa\<rparr>))"

definition kalloc :: "'a kmem_scheme \<Rightarrow> addr \<times> 'a kmem_scheme" where
  "kalloc s =
     (let r = freelist s
      in if r \<noteq> 0
         then (r, s\<lparr>freelist := load64 (mem s) r, mem := memset (mem s) r 5 PGSIZE\<rparr>)
         else (r, s))"

lemma kfree_below_PHYSTOP: "kfree pa s = Inr s' \<Longrightarrow> pa < PHYSTOP"
  by (auto simp: kfree_def split: if_splits)

text \<open>The loop of \<open>freerange\<close>; it ends because \<open>kfree\<close> refuses addresses from
  \<open>PHYSTOP\<close> on.\<close>

function freerange_loop :: "addr \<Rightarrow> addr \<Rightarrow> 'a kmem_scheme \<Rightarrow> 'a kmem_scheme kres" where
  "freerange_loop p pa_end s =
     (if p + PGSIZE \<le> pa_end
      then kbind (kfree p s) (\<lambda>s. freerange_loop (p + PGSIZE) pa_end s)
      else Inr s)"
  by pat_completeness auto
termination
proof (relation "measure (\<lambda>(p, pa_end, s). 2 ^ 64 - unat p)", goal_cases)
  case 1
  then show ?case by simp
next
  case (2 p pa_end s s')
  then have "unat p < 0x88000000"
    using kfree_below_PHYSTOP [of p s s'] by (simp add: word_less_nat_alt)
  then show ?case by (simp add: unat_plus_if')
qed

declare freerange_loop.simps [simp del]

definition freerange :: "addr \<Rightarrow> addr \<Rightarrow> 'a kmem_scheme \<Rightarrow> 'a kmem_scheme kres" where
  "freerange pa_start pa_end s = freerange_loop (PGROUNDUP pa_start) pa_end s"

definition kinit :: "'a kmem_scheme \<Rightarrow> 'a kmem_scheme kres" where
  "kinit s = freerange (sym_end s) PHYSTOP s"

section \<open>The free list as a list of pages\<close>

primrec free_path :: "memory \<Rightarrow> addr \<Rightarrow> addr list \<Rightarrow> bool" where
  "free_path m r [] \<longleftrightarrow> r = 0"
| "free_path m r (p # ps) \<longleftrightarrow> r = p \<and> p \<noteq> 0 \<and> free_path m (load64 m p) ps"

definition page_ok :: "'a kmem_scheme \<Rightarrow> addr \<Rightarrow> bool" where
  "page_ok s p \<longleftrightarrow> page_aligned p \<and> sym_end s \<le> p \<and> p < PHYSTOP"

text \<open>The abstraction relation: the free list of \<open>s\<close> is the list \<open>ps\<close> of pages.\<close>

definition kmem_inv :: "'a kmem_scheme \<Rightarrow> addr list \<Rightarrow> bool" where
  "kmem_inv s ps \<longleftrightarrow>
     free_path (mem s) (freelist s) ps \<and> distinct ps \<and> (\<forall>p\<in>set ps. page_ok s p) \<and>
     0 < sym_end s"

lemma page_alignedE:
  assumes "page_aligned p"
  obtains k where "unat p = k * 4096" and "k < 4503599627370496"
proof
  show eq: "unat p = unat p div 4096 * 4096"
    using assms div_mult_mod_eq [of "unat p" 4096] by (simp add: page_aligned_iff)
  show "unat p div 4096 < 4503599627370496"
    using unat_lt64 [of p] by (simp add: div_less_iff_less_mult)
qed

lemma unat_aligned_offset:
  assumes "page_aligned p" and "i < 4096"
  shows "unat (p + of_nat i) = unat p + i"
proof -
  obtain k where k: "unat p = k * 4096" "k < 4503599627370496"
    using assms(1) by (rule page_alignedE)
  then have "unat p + i < 18446744073709551616" using assms(2) by simp
  then show ?thesis using assms(2) by (simp add: unat_plus_if' unat_of_nat)
qed

lemma page_of_in_range:
  assumes "page_aligned p" and "in_range a p 4096"
  shows "PGROUNDDOWN a = p"
proof -
  obtain i where i: "i < 4096" "a = p + of_nat i" using assms(2) by (rule in_range_E)
  obtain k where k: "unat p = k * 4096" using assms(1) by (rule page_alignedE)
  have "(unat p + i) div 4096 * 4096 = unat p" using i(1) by (simp add: k)
  then show ?thesis
    by (simp add: word_unat_eq_iff unat_PGROUNDDOWN i(2) unat_aligned_offset [OF assms(1) i(1)])
qed

lemma pages_disjoint:
  "page_aligned p \<Longrightarrow> page_aligned q \<Longrightarrow> in_range a p 4096 \<Longrightarrow> in_range a q 4096 \<Longrightarrow> p = q"
  by (metis page_of_in_range)

lemma in_range_mono: "in_range a p n \<Longrightarrow> n \<le> k \<Longrightarrow> in_range a p k"
  by (simp add: in_range_def)

lemma load64_page_cong:
  assumes "\<And>a. in_range a p 4096 \<Longrightarrow> m a = m' a"
  shows "load64 m p = load64 m' p"
  by (rule load64_cong) (simp add: assms in_range_offset)

lemma free_path_cong:
  assumes "free_path m r ps" and "\<And>p. p \<in> set ps \<Longrightarrow> load64 m' p = load64 m p"
  shows "free_path m' r ps"
  using assms by (induction ps arbitrary: r) auto

lemma free_path_frame:
  assumes fp: "free_path m r ps" and al: "\<forall>p\<in>set ps. page_aligned p" and q: "page_aligned q"
    and notin: "q \<notin> set ps" and eq: "\<And>a. \<not> in_range a q 4096 \<Longrightarrow> m' a = m a"
  shows "free_path m' r ps"
  using fp
proof (rule free_path_cong)
  fix p assume p: "p \<in> set ps"
  show "load64 m' p = load64 m p"
  proof (rule load64_page_cong)
    fix a assume "in_range a p 4096"
    then have "\<not> in_range a q 4096" using p al q notin pages_disjoint by blast
    then show "m' a = m a" by (rule eq)
  qed
qed

lemma free_path_unique: "free_path m r ps \<Longrightarrow> free_path m r qs \<Longrightarrow> ps = qs"
proof (induction ps arbitrary: r qs)
  case Nil
  then show ?case by (cases qs) auto
next
  case (Cons p ps)
  then show ?case by (cases qs) auto
qed

section \<open>The allocator interface\<close>

text \<open>
  What the users of the allocator rely on: \<open>pool s ps\<close> says that the free pages of
  \<open>s\<close> are exactly the list \<open>ps\<close>, in allocation order. Allocation pops the list,
  freeing pushes onto it, and neither touches a byte outside the page concerned.
\<close>

locale page_allocator =
  fixes alloc :: "'s \<Rightarrow> addr \<times> 's"
    and free :: "addr \<Rightarrow> 's \<Rightarrow> 's kres"
    and pool :: "'s \<Rightarrow> addr list \<Rightarrow> bool"
    and legal :: "'s \<Rightarrow> addr \<Rightarrow> bool"
    and contents :: "'s \<Rightarrow> memory"
  assumes pool_distinct: "pool s ps \<Longrightarrow> distinct ps"
    and pool_legal: "pool s ps \<Longrightarrow> p \<in> set ps \<Longrightarrow> legal s p \<and> p \<noteq> 0"
    and alloc_empty: "pool s [] \<Longrightarrow> alloc s = (0, s)"
    and alloc_pop: "pool s (p # ps) \<Longrightarrow>
      \<exists>s'. alloc s = (p, s') \<and> pool s' ps \<and> legal s' = legal s \<and>
        (\<forall>a. \<not> in_range a p 4096 \<longrightarrow> contents s' a = contents s a)"
    and free_push: "pool s ps \<Longrightarrow> legal s pa \<Longrightarrow> pa \<notin> set ps \<Longrightarrow>
      must (free pa s) (\<lambda>s'. pool s' (pa # ps) \<and> legal s' = legal s \<and>
        (\<forall>a. \<not> in_range a pa 4096 \<longrightarrow> contents s' a = contents s a))"
    and free_illegal: "\<not> legal s pa \<Longrightarrow> free pa s = Inl (Panic ''kfree'')"
begin

text \<open>A page just freed is the next one allocated.\<close>

lemma free_then_alloc:
  assumes "pool s ps" and "legal s pa" and "pa \<notin> set ps"
  shows "must (free pa s) (\<lambda>s'. fst (alloc s') = pa \<and> pool (snd (alloc s')) ps)"
  by (rule must_weaken [OF free_push [OF assms]]) (use alloc_pop in fastforce)

lemma alloc_zero_iff: "pool s ps \<Longrightarrow> fst (alloc s) = 0 \<longleftrightarrow> ps = []"
  using alloc_empty alloc_pop pool_legal by (cases ps) fastforce+

end

lemma kmem_inv_frame:
  assumes "kmem_inv s ps" and "page_aligned q" and "q \<notin> set ps"
    and "\<And>a. \<not> in_range a q 4096 \<Longrightarrow> m' a = mem s a"
  shows "kmem_inv (s\<lparr>mem := m'\<rparr>) ps"
  using assms free_path_frame [of "mem s" "freelist s" ps q m']
  by (auto simp: kmem_inv_def page_ok_def)

lemma kfree_ok:
  assumes inv: "kmem_inv s ps" and ok: "page_ok s pa" and pa: "pa \<notin> set ps"
  shows "\<exists>m. kfree pa s = Inr (s\<lparr>mem := m, freelist := pa\<rparr>) \<and>
    kmem_inv (s\<lparr>mem := m, freelist := pa\<rparr>) (pa # ps) \<and>
    (\<forall>a. \<not> in_range a pa 4096 \<longrightarrow> m a = mem s a)"
proof -
  let ?m = "store64 (memset (mem s) pa 1 4096) pa (freelist s)"
  have al: "page_aligned pa" and rng: "sym_end s \<le> pa" "pa < PHYSTOP"
    using ok by (simp_all add: page_ok_def)
  have eq: "kfree pa s = Inr (s\<lparr>mem := ?m, freelist := pa\<rparr>)"
    using al rng by (auto simp: kfree_def page_aligned_def)
  have fr: "?m a = mem s a" if "\<not> in_range a pa 4096" for a
  proof -
    have "\<not> in_range a pa 8" using that in_range_mono by fastforce
    then show ?thesis using that by (simp add: store64_other memset_eq)
  qed
  have "kmem_inv (s\<lparr>mem := ?m\<rparr>) ps" using inv al pa fr by (rule kmem_inv_frame)
  moreover have "pa \<noteq> 0" using inv rng by (auto simp: kmem_inv_def)
  ultimately have "kmem_inv (s\<lparr>mem := ?m, freelist := pa\<rparr>) (pa # ps)"
    using ok pa by (auto simp: kmem_inv_def page_ok_def)
  with eq fr show ?thesis by blast
qed

lemma kalloc_empty: "kmem_inv s [] \<Longrightarrow> kalloc s = (0, s)"
  by (simp add: kmem_inv_def kalloc_def)

lemma kalloc_ok:
  assumes inv: "kmem_inv s (p # ps)"
  shows "\<exists>m f. kalloc s = (p, s\<lparr>freelist := f, mem := m\<rparr>) \<and>
    kmem_inv (s\<lparr>freelist := f, mem := m\<rparr>) ps \<and>
    (\<forall>a. m a = (if in_range a p 4096 then 5 else mem s a))"
proof -
  let ?m = "memset (mem s) p 5 4096" and ?f = "load64 (mem s) p"
  have p: "freelist s = p" "p \<noteq> 0" "page_aligned p" "p \<notin> set ps"
    using inv by (auto simp: kmem_inv_def page_ok_def)
  have eq: "kalloc s = (p, s\<lparr>freelist := ?f, mem := ?m\<rparr>)"
    using p by (simp add: kalloc_def)
  have m: "?m a = (if in_range a p 4096 then 5 else mem s a)" for a
    by (simp add: memset_eq)
  have "kmem_inv (s\<lparr>freelist := ?f\<rparr>) ps"
    using inv p by (auto simp: kmem_inv_def page_ok_def)
  then have "kmem_inv ((s\<lparr>freelist := ?f\<rparr>)\<lparr>mem := ?m\<rparr>) ps"
    using p(3,4) by (rule kmem_inv_frame) (simp add: m)
  then show ?thesis using eq m by (intro exI [of _ ?m] exI [of _ ?f]) simp
qed

lemma page_ok_update [simp]:
  "page_ok (s\<lparr>mem := m\<rparr>) = page_ok s" "page_ok (s\<lparr>freelist := f\<rparr>) = page_ok s"
  by (simp_all add: page_ok_def fun_eq_iff)

lemma kfree_not_ok:
  assumes "\<not> page_ok s pa"
  shows "kfree pa s = Inl (Panic ''kfree'')"
proof -
  have "pa mod PGSIZE \<noteq> 0 \<or> pa < sym_end s \<or> pa \<ge> PHYSTOP"
    using assms unfolding page_ok_def page_aligned_def by (meson linorder_not_less)
  then show ?thesis unfolding kfree_def by (rule if_P)
qed

interpretation ka: page_allocator kalloc kfree kmem_inv page_ok mem
proof
  fix s :: "'a kmem_scheme" and ps p pa
  show "kmem_inv s ps \<Longrightarrow> distinct ps" by (simp add: kmem_inv_def)
  show "kmem_inv s ps \<Longrightarrow> p \<in> set ps \<Longrightarrow> page_ok s p \<and> p \<noteq> 0"
    by (auto simp: kmem_inv_def page_ok_def)
  show "kmem_inv s [] \<Longrightarrow> kalloc s = (0, s)" by (rule kalloc_empty)
  show "kmem_inv s (p # ps) \<Longrightarrow>
      \<exists>s'. kalloc s = (p, s') \<and> kmem_inv s' ps \<and> page_ok s' = page_ok s \<and>
        (\<forall>a. \<not> in_range a p 4096 \<longrightarrow> mem s' a = mem s a)"
    using kalloc_ok [of s p ps] by fastforce
  show "kmem_inv s ps \<Longrightarrow> page_ok s pa \<Longrightarrow> pa \<notin> set ps \<Longrightarrow>
      must (kfree pa s) (\<lambda>s'. kmem_inv s' (pa # ps) \<and> page_ok s' = page_ok s \<and>
        (\<forall>a. \<not> in_range a pa 4096 \<longrightarrow> mem s' a = mem s a))"
    using kfree_ok [of s ps pa] by fastforce
  show "\<not> page_ok s pa \<Longrightarrow> kfree pa s = Inl (Panic ''kfree'')"
    by (rule kfree_not_ok)
qed

section \<open>Initialisation\<close>

text \<open>The pages that lie wholly between \<open>lo\<close> and \<open>hi\<close>.\<close>

definition pages_between :: "addr \<Rightarrow> addr \<Rightarrow> addr set" where
  "pages_between lo hi = {q. page_aligned q \<and> lo \<le> q \<and> unat q + 4096 \<le> unat hi}"

lemma aligned_next:
  assumes "page_aligned p" and "page_aligned q" and "p < q"
  shows "unat p + 4096 \<le> unat q"
proof -
  obtain k where k: "unat p = k * 4096" using assms(1) by (rule page_alignedE)
  obtain l where l: "unat q = l * 4096" using assms(2) by (rule page_alignedE)
  have "k * 4096 < l * 4096" using assms(3) by (simp add: word_less_nat_alt k l)
  then have "k < l" by simp
  then show ?thesis by (simp add: k l)
qed

lemma page_aligned_add: "page_aligned p \<Longrightarrow> page_aligned (p + 4096)"
  by (rule page_alignedE [of p]) (auto simp: page_aligned_iff unat_plus_if')

lemma pages_between_step:
  assumes "page_aligned p" and "unat p + 4096 < 2 ^ 64" and "unat p + 4096 \<le> unat hi"
  shows "pages_between p hi = insert p (pages_between (p + 4096) hi)"
proof -
  have up: "unat (p + 4096) = unat p + 4096" using assms(2) by (simp add: unat_plus_if')
  have "p \<le> q \<longleftrightarrow> q = p \<or> p + 4096 \<le> q" if "page_aligned q" for q
    using aligned_next [OF assms(1) that]
    unfolding word_le_nat_alt up word_less_nat_alt word_unat_eq_iff by linarith
  then show ?thesis using assms by (auto simp: pages_between_def)
qed

lemma freerange_loop_ok:
  assumes "page_aligned p" and "kmem_inv s ps" and "sym_end s \<le> p" and "p \<le> PHYSTOP"
    and "pa_end \<le> PHYSTOP" and "\<forall>q\<in>set ps. q < p"
  shows "\<exists>m f ps'. freerange_loop p pa_end s = Inr (s\<lparr>mem := m, freelist := f\<rparr>) \<and>
    kmem_inv (s\<lparr>mem := m, freelist := f\<rparr>) ps' \<and> set ps' = set ps \<union> pages_between p pa_end"
  using assms
proof (induction p pa_end s arbitrary: ps rule: freerange_loop.induct)
  case (1 p pa_end s)
  have hi: "unat p \<le> 0x88000000" "unat pa_end \<le> 0x88000000"
    using "1.prems" by (simp_all add: word_le_nat_alt)
  then have up: "unat (p + 4096) = unat p + 4096" by (simp add: unat_plus_if')
  show ?case
  proof (cases "p + 4096 \<le> pa_end")
    case True
    then have le: "unat p + 4096 \<le> unat pa_end" by (simp add: word_le_nat_alt up)
    have ok: "page_ok s p"
      using "1.prems" le hi by (simp add: page_ok_def word_less_nat_alt)
    have "p \<notin> set ps" using "1.prems"(6) by auto
    then obtain m where m: "kfree p s = Inr (s\<lparr>mem := m, freelist := p\<rparr>)"
      "kmem_inv (s\<lparr>mem := m, freelist := p\<rparr>) (p # ps)"
      using kfree_ok [OF "1.prems"(2) ok] by blast
    let ?s = "s\<lparr>mem := m, freelist := p\<rparr>"
    have lt: "q < p + 4096" if "q \<in> set (p # ps)" for q
      using that "1.prems"(6) by (auto simp: word_less_nat_alt up)
    have "\<exists>m' f ps'. freerange_loop (p + 4096) pa_end ?s = Inr (?s\<lparr>mem := m', freelist := f\<rparr>) \<and>
        kmem_inv (?s\<lparr>mem := m', freelist := f\<rparr>) ps' \<and>
        set ps' = set (p # ps) \<union> pages_between (p + 4096) pa_end"
    proof (rule "1.IH" [OF True m(1) _ m(2)])
      show "page_aligned (p + 4096)" using "1.prems"(1) by (rule page_aligned_add)
      show "sym_end ?s \<le> p + 4096"
        using "1.prems"(3) by (simp add: word_le_nat_alt up)
      show "p + 4096 \<le> PHYSTOP" using le hi by (simp add: word_le_nat_alt up)
    qed (use "1.prems" lt in auto)
    then show ?thesis
      using True m(1) pages_between_step [OF "1.prems"(1) _ le] hi
      by (subst freerange_loop.simps) (fastforce simp: kbind_def)
  next
    case False
    then have "pages_between p pa_end = {}"
      by (auto simp: pages_between_def word_le_nat_alt up)
    then show ?thesis
      using False "1.prems"(2) by (subst freerange_loop.simps)
        (auto intro!: exI [of _ "mem s"] exI [of _ "freelist s"])
  qed
qed

lemma PGROUNDUP_bounds:
  assumes "unat a \<le> 0x88000000"
  shows "a \<le> PGROUNDUP a" and "PGROUNDUP a \<le> PHYSTOP"
    and "page_aligned q \<Longrightarrow> a \<le> q \<longleftrightarrow> PGROUNDUP a \<le> q"
proof -
  have up: "unat (PGROUNDUP a) = (unat a + 4095) div 4096 * 4096"
    using assms by (simp add: unat_PGROUNDUP)
  show "a \<le> PGROUNDUP a" unfolding word_le_nat_alt up by linarith
  show "PGROUNDUP a \<le> PHYSTOP" unfolding word_le_nat_alt up using assms by simp
  assume "page_aligned q"
  then obtain k where k: "unat q = k * 4096" by (rule page_alignedE)
  have "unat a \<le> k * 4096 \<longleftrightarrow> (unat a + 4095) div 4096 \<le> k" by linarith
  then show "a \<le> q \<longleftrightarrow> PGROUNDUP a \<le> q" unfolding word_le_nat_alt up k by simp
qed

lemma kinit_ok:
  assumes "freelist s = 0" and "0 < sym_end s" and "sym_end s \<le> PHYSTOP"
  shows "\<exists>m f ps. kinit s = Inr (s\<lparr>mem := m, freelist := f\<rparr>) \<and>
    kmem_inv (s\<lparr>mem := m, freelist := f\<rparr>) ps \<and> set ps = pages_between (sym_end s) PHYSTOP"
proof -
  have e: "unat (sym_end s) \<le> 0x88000000" using assms(3) by (simp add: word_le_nat_alt)
  have "kmem_inv s []" using assms by (simp add: kmem_inv_def)
  then have "\<exists>m f ps. freerange_loop (PGROUNDUP (sym_end s)) PHYSTOP s =
      Inr (s\<lparr>mem := m, freelist := f\<rparr>) \<and> kmem_inv (s\<lparr>mem := m, freelist := f\<rparr>) ps \<and>
      set ps = set [] \<union> pages_between (PGROUNDUP (sym_end s)) PHYSTOP"
    using PGROUNDUP_bounds [OF e] by (intro freerange_loop_ok) auto
  moreover have "pages_between (PGROUNDUP (sym_end s)) PHYSTOP = pages_between (sym_end s) PHYSTOP"
    using PGROUNDUP_bounds(3) [OF e] by (auto simp: pages_between_def)
  ultimately show ?thesis by (simp add: kinit_def freerange_def)
qed

section \<open>The allocator in use\<close>

text \<open>
  Every run of the allocator after \<open>kinit\<close>, together with the set of pages that have
  been handed out and not yet freed. The owner of a page may write anywhere in it.
\<close>

inductive km_run :: "'a kmem_scheme \<Rightarrow> addr set \<Rightarrow> bool" where
  boot: "freelist s = 0 \<Longrightarrow> 0 < sym_end s \<Longrightarrow> sym_end s \<le> PHYSTOP \<Longrightarrow> kinit s = Inr s' \<Longrightarrow>
    km_run s' {}"
| alloc: "km_run s U \<Longrightarrow> kalloc s = (p, s') \<Longrightarrow> p \<noteq> 0 \<Longrightarrow> km_run s' (insert p U)"
| alloc_fails: "km_run s U \<Longrightarrow> kalloc s = (0, s') \<Longrightarrow> km_run s' U"
| free: "km_run s U \<Longrightarrow> p \<in> U \<Longrightarrow> kfree p s = Inr s' \<Longrightarrow> km_run s' (U - {p})"
| use: "km_run s U \<Longrightarrow> p \<in> U \<Longrightarrow> in_range a p 4096 \<Longrightarrow> km_run (s\<lparr>mem := (mem s)(a := v)\<rparr>) U"

lemma km_run_pool:
  "km_run s U \<Longrightarrow> \<exists>ps. kmem_inv s ps \<and> set ps \<inter> U = {} \<and>
    set ps \<union> U = pages_between (sym_end s) PHYSTOP"
proof (induction rule: km_run.induct)
  case (boot s s')
  then show ?case using kinit_ok [of s] by fastforce
next
  case (alloc s U p s')
  then obtain ps where ps: "kmem_inv s ps" "set ps \<inter> U = {}"
    "set ps \<union> U = pages_between (sym_end s) PHYSTOP" by blast
  then obtain qs where "ps = p # qs"
    using alloc kalloc_empty kalloc_ok by (cases ps) fastforce+
  then show ?case
    using alloc ps kalloc_ok [of s p qs] by (fastforce simp: kmem_inv_def)
next
  case (alloc_fails s U s')
  then obtain ps where ps: "kmem_inv s ps" "set ps \<inter> U = {}"
    "set ps \<union> U = pages_between (sym_end s) PHYSTOP" by blast
  then have "ps = []" using alloc_fails ka.alloc_zero_iff [of s ps] by simp
  then show ?case using alloc_fails ps kalloc_empty [of s] by auto
next
  case (free s U p s')
  then obtain ps where ps: "kmem_inv s ps" "set ps \<inter> U = {}"
    "set ps \<union> U = pages_between (sym_end s) PHYSTOP" by blast
  have "page_ok s p" using free(3) kfree_not_ok [of s p] by auto
  moreover have "p \<notin> set ps" using free ps by auto
  ultimately obtain m where m: "kfree p s = Inr (s\<lparr>mem := m, freelist := p\<rparr>)"
    "kmem_inv (s\<lparr>mem := m, freelist := p\<rparr>) (p # ps)"
    using kfree_ok [OF ps(1)] by blast
  then show ?case using free ps by (intro exI [of _ "p # ps"]) auto
next
  case (use s U p a v)
  then obtain ps where ps: "kmem_inv s ps" "set ps \<inter> U = {}"
    "set ps \<union> U = pages_between (sym_end s) PHYSTOP" by blast
  have "page_aligned p" and "p \<notin> set ps"
    using use ps by (auto simp: pages_between_def)
  with ps(1) have "kmem_inv (s\<lparr>mem := (mem s)(a := v)\<rparr>) ps"
    by (rule kmem_inv_frame) (use use in auto)
  then show ?case using ps by auto
qed

section \<open>Properties of kernel/kalloc.c\<close>

text \<open>C29. After \<open>kinit\<close>, in every state the allocator can reach through allocations, frees
  of pages in use and writes into pages in use, a page that \<open>kalloc\<close> hands out was not in use
  before; and no page is lost: the pages in use and the pages on the free list are
  together exactly the pages between \<open>end\<close> and \<open>PHYSTOP\<close>.\<close>

theorem kalloc_no_double_allocation:
  assumes "km_run s U" and "kalloc s = (p, s')" and "p \<noteq> 0"
  shows "p \<notin> U \<and> p \<in> pages_between (sym_end s) PHYSTOP \<and>
    (\<exists>ps. kmem_inv s' ps \<and> set ps \<inter> insert p U = {} \<and>
      set ps \<union> insert p U = pages_between (sym_end s) PHYSTOP)"
proof -
  obtain ps where ps: "kmem_inv s ps" "set ps \<inter> U = {}"
    "set ps \<union> U = pages_between (sym_end s) PHYSTOP" using km_run_pool [OF assms(1)] by blast
  obtain qs where qs: "ps = p # qs"
    using assms ps kalloc_empty kalloc_ok by (cases ps) fastforce+
  then show ?thesis
    using assms ps kalloc_ok [of s p qs] by (fastforce simp: kmem_inv_def)
qed

definition boot_mem :: kmem where
  "boot_mem = \<lparr>sym_end = 0x80020000, sym_etext = 0x80008000, sym_trampoline = 0x80007000,
     mem = (\<lambda>_. 0), freelist = 0\<rparr>"

lemma boot_mem_page: "0x80020000 \<in> pages_between (sym_end boot_mem) PHYSTOP"
  by (simp add: pages_between_def boot_mem_def page_aligned_iff)

lemma boot_mem_run:
  "\<exists>(s::kmem) p s'. km_run s {} \<and> kalloc s = (p, s') \<and> p \<noteq> 0 \<and> sym_end s = sym_end boot_mem"
proof -
  obtain m f ps where s: "kinit boot_mem = Inr (boot_mem\<lparr>mem := m, freelist := f\<rparr>)"
    "kmem_inv (boot_mem\<lparr>mem := m, freelist := f\<rparr>) ps"
    "set ps = pages_between (sym_end boot_mem) PHYSTOP"
    using kinit_ok [of boot_mem] by (auto simp: boot_mem_def)
  let ?s = "boot_mem\<lparr>mem := m, freelist := f\<rparr>"
  have "km_run ?s {}" using s(1) by (intro km_run.boot) (auto simp: boot_mem_def)
  moreover have "ps \<noteq> []" using s(3) boot_mem_page by auto
  then obtain p qs where "ps = p # qs" by (cases ps) auto
  with s(2) obtain s' where "kalloc ?s = (p, s')" and "p \<noteq> 0"
    using kalloc_ok [of ?s p qs] by (auto simp: kmem_inv_def)
  moreover have "sym_end ?s = sym_end boot_mem" by simp
  ultimately show ?thesis by blast
qed

theorem kalloc_no_double_allocation_witness:
  "\<exists>(s::kmem) p s'. km_run s {} \<and> kalloc s = (p, s') \<and> p \<noteq> 0 \<and> p \<notin> {} \<and>
    p \<in> pages_between (sym_end boot_mem) PHYSTOP"
proof -
  obtain s :: kmem and p s' where s: "km_run s {}" "kalloc s = (p, s')" "p \<noteq> 0" "sym_end s = sym_end boot_mem"
    using boot_mem_run by blast
  then have "p \<in> pages_between (sym_end boot_mem) PHYSTOP"
    using kalloc_no_double_allocation [OF s(1-3)] by simp
  with s(1-3) show ?thesis by blast
qed

text \<open>C32. \<open>kfree\<close> and \<open>kalloc\<close> are push and pop on the list of free pages: freeing a legal page
  that is not free succeeds, changes no byte outside the page, and makes it the next page
  \<open>kalloc\<close> returns, with the rest of the list as before.\<close>

theorem kfree_kalloc_lifo:
  assumes "kmem_inv s ps" and "page_ok s pa" and "pa \<notin> set ps"
  shows "must (kfree pa s) (\<lambda>s'. kmem_inv s' (pa # ps) \<and>
      (\<forall>a. \<not> in_range a pa 4096 \<longrightarrow> mem s' a = mem s a) \<and>
      fst (kalloc s') = pa \<and> kmem_inv (snd (kalloc s')) ps)"
  using ka.free_push [OF assms] ka.free_then_alloc [OF assms]
  by (auto simp: must_iff)

theorem kfree_kalloc_lifo_witness:
  "must (kfree 0x80020000 boot_mem) (\<lambda>s'. kmem_inv s' [0x80020000] \<and>
      fst (kalloc s') = 0x80020000 \<and> kmem_inv (snd (kalloc s')) [])"
proof -
  have "kmem_inv boot_mem []" and "page_ok boot_mem 0x80020000"
    by (simp_all add: kmem_inv_def page_ok_def boot_mem_def page_aligned_iff)
  then show ?thesis
    using kfree_kalloc_lifo [of boot_mem "[]" "0x80020000"] by (auto simp: must_iff)
qed


end
