(* ===== verification/Proc_Table.thy ===== *)
theory Proc_Table
  imports Kalloc
begin

text \<open>
  The process table of \<open>kernel/proc.h\<close> and \<open>kernel/proc.c\<close>, and the operations on it
  that need nothing but the table: identification of the running process, process ids,
  sleep and wakeup, kill, and the scheduler's switches.

  The table is indexed by slot number; a \<open>struct proc *\<close> is a slot, a null pointer is
  \<open>None\<close>. \<open>cpu_proc\<close> is the \<open>proc\<close> field of \<open>cpus[]\<close>, and \<open>hart\<close> is the number of
  the CPU that executes the operation, what \<open>r_tp()\<close> returns. The body of a section
  under \<open>p->lock\<close> is one step. Loops over the table whose rounds are independent of each
  other are written slot by slot.
\<close>

section \<open>kernel/proc.h\<close>

datatype procstate = UNUSED | USED | SLEEPING | RUNNABLE | RUNNING | ZOMBIE

record kcontext =
  ctx_ra :: uint64
  ctx_sp :: uint64
  ctx_s :: "nat \<Rightarrow> uint64"

record proc =
  pstate :: procstate
  pchan :: "chan option"
  pkilled :: bool
  pxstate :: int
  ppid :: int
  pparent :: "nat option"
  pkstack :: uint64
  psz :: uint64
  ppagetable :: addr
  ptrapframe :: addr
  pcontext :: kcontext
  pofile :: "nat \<Rightarrow> nat option"
  pcwd :: "nat option"
  pname :: bytes

record kproc = kmem +
  procs :: "nat \<Rightarrow> proc"
  cpu_proc :: "nat \<Rightarrow> nat option"
  hart :: nat
  nextpid :: int
  initproc :: "nat option"
  ticks :: uint32

text \<open>Two's complement wrap-around of a C \<open>int\<close>.\<close>

definition wrap32 :: "int \<Rightarrow> int" where
  "wrap32 x = (x + 2 ^ 31) mod 2 ^ 32 - 2 ^ 31"

section \<open>The running process\<close>

definition cpuid :: "'a kproc_scheme \<Rightarrow> nat" where
  "cpuid s = hart s"

definition myproc :: "'a kproc_scheme \<Rightarrow> nat option" where
  "myproc s = cpu_proc s (cpuid s)"

text \<open>Code that dereferences \<open>myproc()\<close> faults when no process is running.\<close>

definition cur :: "'a kproc_scheme \<Rightarrow> nat kres" where
  "cur s = (case myproc s of None \<Rightarrow> Inl (Fault ''myproc'') | Some p \<Rightarrow> Inr p)"

definition upd_proc :: "nat \<Rightarrow> (proc \<Rightarrow> proc) \<Rightarrow> 'a kproc_scheme \<Rightarrow> 'a kproc_scheme" where
  "upd_proc p f s = s\<lparr>procs := (procs s)(p := f (procs s p))\<rparr>"

definition zero_context :: kcontext where
  "zero_context = \<lparr>ctx_ra = 0, ctx_sp = 0, ctx_s = (\<lambda>_. 0)\<rparr>"

text \<open>An entry of the process table as the linker lays it out, all zero.\<close>

definition zero_proc :: proc where
  "zero_proc = \<lparr>pstate = UNUSED, pchan = None, pkilled = False, pxstate = 0, ppid = 0, pparent = None, pkstack = 0,
     psz = 0, ppagetable = 0, ptrapframe = 0, pcontext = zero_context, pofile = (\<lambda>_. None), pcwd = None, pname = (\<lambda>_. 0)\<rparr>"

definition procinit :: "'a kproc_scheme \<Rightarrow> 'a kproc_scheme" where
  "procinit s = s\<lparr>procs := (\<lambda>p. if p < NPROC
     then (procs s p)\<lparr>pstate := UNUSED, pkstack := KSTACK p\<rparr> else procs s p)\<rparr>"

definition allocpid :: "'a kproc_scheme \<Rightarrow> int \<times> 'a kproc_scheme" where
  "allocpid s = (nextpid s, s\<lparr>nextpid := wrap32 (nextpid s + 1)\<rparr>)"

section \<open>Sleep, wakeup and kill\<close>

text \<open>\<open>sleep\<close> up to the switch to the scheduler, and what it does after being resumed. The
  condition lock is released and re-acquired around the switch.\<close>

definition sleep_enter :: "chan \<Rightarrow> 'a kproc_scheme \<Rightarrow> 'a kproc_scheme kres" where
  "sleep_enter c s =
     kbind (cur s) (\<lambda>p.
     Inr (upd_proc p (\<lambda>q. q\<lparr>pchan := Some c, pstate := SLEEPING\<rparr>) s))"

definition sleep_exit :: "'a kproc_scheme \<Rightarrow> 'a kproc_scheme kres" where
  "sleep_exit s = kbind (cur s) (\<lambda>p. Inr (upd_proc p (\<lambda>q. q\<lparr>pchan := None\<rparr>) s))"

definition wakeup :: "chan \<Rightarrow> 'a kproc_scheme \<Rightarrow> 'a kproc_scheme" where
  "wakeup c s = s\<lparr>procs := (\<lambda>p.
     if p < NPROC \<and> myproc s \<noteq> Some p \<and> pstate (procs s p) = SLEEPING \<and> pchan (procs s p) = Some c
     then (procs s p)\<lparr>pstate := RUNNABLE\<rparr> else procs s p)\<rparr>"

text \<open>The search loop of \<open>kkill\<close>: the first slot, in use or not, whose pid field matches.\<close>

fun find_pid :: "(nat \<Rightarrow> proc) \<Rightarrow> int \<Rightarrow> nat list \<Rightarrow> nat option" where
  "find_pid ps pid [] = None"
| "find_pid ps pid (p # rest) = (if ppid (ps p) = pid then Some p else find_pid ps pid rest)"

definition kkill :: "int \<Rightarrow> 'a kproc_scheme \<Rightarrow> int \<times> 'a kproc_scheme" where
  "kkill pid s =
     (case find_pid (procs s) pid [0..<NPROC] of
        None \<Rightarrow> (-1, s)
      | Some p \<Rightarrow> (0, upd_proc p (\<lambda>q. q\<lparr>pkilled := True,
            pstate := (if pstate q = SLEEPING then RUNNABLE else pstate q)\<rparr>) s))"

definition setkilled :: "nat \<Rightarrow> 'a kproc_scheme \<Rightarrow> 'a kproc_scheme" where
  "setkilled p s = upd_proc p (\<lambda>q. q\<lparr>pkilled := True\<rparr>) s"

definition killed :: "nat \<Rightarrow> 'a kproc_scheme \<Rightarrow> bool" where
  "killed p s = pkilled (procs s p)"

section \<open>Children\<close>

text \<open>\<open>reparent\<close> hands every child of \<open>p\<close> to \<open>initproc\<close> and wakes \<open>initproc\<close> for each.\<close>

fun reparent_loop :: "nat \<Rightarrow> nat list \<Rightarrow> 'a kproc_scheme \<Rightarrow> 'a kproc_scheme" where
  "reparent_loop p [] s = s"
| "reparent_loop p (pp # rest) s =
     (if pparent (procs s pp) = Some p
      then let s = upd_proc pp (\<lambda>q. q\<lparr>pparent := initproc s\<rparr>) s;
               s = (case initproc s of None \<Rightarrow> s | Some i \<Rightarrow> wakeup (ChProc i) s)
           in reparent_loop p rest s
      else reparent_loop p rest s)"

definition reparent :: "nat \<Rightarrow> 'a kproc_scheme \<Rightarrow> 'a kproc_scheme" where
  "reparent p s = reparent_loop p [0..<NPROC] s"

section \<open>Context switches\<close>

text \<open>The scheduler's choice of a process on CPU \<open>c\<close>, up to \<open>swtch\<close>, and what it does when
  the process switches back.\<close>

definition scheduler_pick :: "nat \<Rightarrow> nat \<Rightarrow> 'a kproc_scheme \<Rightarrow> 'a kproc_scheme option" where
  "scheduler_pick c p s =
     (if p < NPROC \<and> pstate (procs s p) = RUNNABLE
      then Some (upd_proc p (\<lambda>q. q\<lparr>pstate := RUNNING\<rparr>) s\<lparr>cpu_proc := (cpu_proc s)(c := Some p)\<rparr>)
      else None)"

definition scheduler_back :: "nat \<Rightarrow> 'a kproc_scheme \<Rightarrow> 'a kproc_scheme" where
  "scheduler_back c s = s\<lparr>cpu_proc := (cpu_proc s)(c := None)\<rparr>"

text \<open>\<open>yield\<close> up to the switch.\<close>

definition yield_enter :: "'a kproc_scheme \<Rightarrow> 'a kproc_scheme kres" where
  "yield_enter s = kbind (cur s) (\<lambda>p. Inr (upd_proc p (\<lambda>q. q\<lparr>pstate := RUNNABLE\<rparr>) s))"

end
