(* ===== verification/Spinlock.thy ===== *)
theory Spinlock
  imports Riscv
begin

text \<open>
  Spin locks and nested interrupt disabling, \<open>kernel/spinlock.c\<close>.

  Part one is the code of each routine on the state of one CPU and one lock. Part two
  interleaves any number of CPUs that acquire and release one lock, with the atomic swap
  of \<open>acquire\<close> and the separate stores of \<open>release\<close> as separate steps.
\<close>

section \<open>State\<close>

text \<open>\<open>lk_cpu\<close> is the \<open>cpu\<close> field: the number of the CPU that holds the lock.\<close>

record spinlock =
  lk_locked :: uint32
  lk_cpu :: "nat option"

record kcpu =
  noff :: int
  intena :: bool
  sstatus :: uint64

section \<open>Routines\<close>

definition initlock :: spinlock where
  "initlock = \<lparr>lk_locked = 0, lk_cpu = None\<rparr>"

definition holding :: "nat \<Rightarrow> spinlock \<Rightarrow> bool" where
  "holding c lk \<longleftrightarrow> lk_locked lk \<noteq> 0 \<and> lk_cpu lk = Some c"

definition push_off :: "kcpu \<Rightarrow> kcpu" where
  "push_off c =
     (let old = intr_get (sstatus c);
          c = c\<lparr>sstatus := intr_off (sstatus c)\<rparr>;
          c = (if noff c = 0 then c\<lparr>intena := old\<rparr> else c)
      in c\<lparr>noff := noff c + 1\<rparr>)"

definition pop_off :: "kcpu \<Rightarrow> kcpu kres" where
  "pop_off c =
     (if intr_get (sstatus c) then Inl (Panic ''pop_off - interruptible'')
      else if noff c < 1 then Inl (Panic ''pop_off'')
      else let c = c\<lparr>noff := noff c - 1\<rparr>
           in Inr (if noff c = 0 \<and> intena c then c\<lparr>sstatus := intr_on (sstatus c)\<rparr> else c))"

text \<open>\<open>__sync_lock_test_and_set(&lk->locked, 1)\<close>: the old value and the new lock.\<close>

definition test_and_set :: "spinlock \<Rightarrow> uint32 \<times> spinlock" where
  "test_and_set lk = (lk_locked lk, lk\<lparr>lk_locked := 1\<rparr>)"

text \<open>The three parts of \<open>acquire\<close>: entry, one round of the spinning loop, and the record of
  the holder; and the three parts of \<open>release\<close>.\<close>

definition acquire_enter :: "nat \<Rightarrow> spinlock \<Rightarrow> kcpu \<Rightarrow> kcpu kres" where
  "acquire_enter c lk cpu =
     (let cpu = push_off cpu in if holding c lk then Inl (Panic ''acquire'') else Inr cpu)"

definition acquire_record :: "nat \<Rightarrow> spinlock \<Rightarrow> spinlock" where
  "acquire_record c lk = lk\<lparr>lk_cpu := Some c\<rparr>"

definition release_enter :: "nat \<Rightarrow> spinlock \<Rightarrow> spinlock kres" where
  "release_enter c lk =
     (if \<not> holding c lk then Inl (Panic ''release'') else Inr (lk\<lparr>lk_cpu := None\<rparr>))"

definition lock_release :: "spinlock \<Rightarrow> spinlock" where
  "lock_release lk = lk\<lparr>lk_locked := 0\<rparr>"

text \<open>Both routines run without interference: \<open>acquire\<close> of a lock that another CPU holds
  does not come back.\<close>

definition acquire :: "nat \<Rightarrow> spinlock \<Rightarrow> kcpu \<Rightarrow> (spinlock \<times> kcpu) kres" where
  "acquire c lk cpu =
     kbind (acquire_enter c lk cpu) (\<lambda>cpu.
     let (old, lk) = test_and_set lk
     in if old \<noteq> 0 then Inl Hangs else Inr (acquire_record c lk, cpu))"

definition release :: "nat \<Rightarrow> spinlock \<Rightarrow> kcpu \<Rightarrow> (spinlock \<times> kcpu) kres" where
  "release c lk cpu =
     kbind (release_enter c lk) (\<lambda>lk.
     kbind (pop_off cpu) (\<lambda>cpu. Inr (lock_release lk, cpu)))"

section \<open>Interleaving\<close>

text \<open>Where a CPU is: outside, in the spinning loop, past the swap but before the holder is
  recorded, in the critical section, and in \<open>release\<close> before and after the lock word is
  cleared.\<close>

datatype lock_pc = Outside | Spinning | Swapped | Critical | Releasing | Released

record lock_sys =
  the_lock :: spinlock
  the_cpus :: "nat \<Rightarrow> kcpu"
  lpc :: "nat \<Rightarrow> lock_pc"

inductive lock_step :: "lock_sys \<Rightarrow> lock_sys \<Rightarrow> bool" where
  enter: "lpc s c = Outside \<Longrightarrow> acquire_enter c (the_lock s) (the_cpus s c) = Inr cpu \<Longrightarrow>
    lock_step s (s\<lparr>the_cpus := (the_cpus s)(c := cpu), lpc := (lpc s)(c := Spinning)\<rparr>)"
| spin: "lpc s c = Spinning \<Longrightarrow> test_and_set (the_lock s) = (old, lk) \<Longrightarrow> old \<noteq> 0 \<Longrightarrow>
    lock_step s (s\<lparr>the_lock := lk\<rparr>)"
| swap: "lpc s c = Spinning \<Longrightarrow> test_and_set (the_lock s) = (old, lk) \<Longrightarrow> old = 0 \<Longrightarrow>
    lock_step s (s\<lparr>the_lock := lk, lpc := (lpc s)(c := Swapped)\<rparr>)"
| record_holder: "lpc s c = Swapped \<Longrightarrow>
    lock_step s (s\<lparr>the_lock := acquire_record c (the_lock s), lpc := (lpc s)(c := Critical)\<rparr>)"
| release_begin: "lpc s c = Critical \<Longrightarrow> release_enter c (the_lock s) = Inr lk \<Longrightarrow>
    lock_step s (s\<lparr>the_lock := lk, lpc := (lpc s)(c := Releasing)\<rparr>)"
| clear: "lpc s c = Releasing \<Longrightarrow>
    lock_step s (s\<lparr>the_lock := lock_release (the_lock s), lpc := (lpc s)(c := Released)\<rparr>)"
| pop: "lpc s c = Released \<Longrightarrow> pop_off (the_cpus s c) = Inr cpu \<Longrightarrow>
    lock_step s (s\<lparr>the_cpus := (the_cpus s)(c := cpu), lpc := (lpc s)(c := Outside)\<rparr>)"
| other_push: "lpc s c = Outside \<or> lpc s c = Critical \<Longrightarrow>
    lock_step s (s\<lparr>the_cpus := (the_cpus s)(c := push_off (the_cpus s c))\<rparr>)"

inductive lock_reach :: "lock_sys \<Rightarrow> bool" where
  start: "the_lock s = initlock \<Longrightarrow> (\<forall>c. lpc s c = Outside \<and> 0 \<le> noff (the_cpus s c)) \<Longrightarrow>
    (\<forall>c. 0 < noff (the_cpus s c) \<longrightarrow> \<not> intr_get (sstatus (the_cpus s c))) \<Longrightarrow> lock_reach s"
| step: "lock_reach s \<Longrightarrow> lock_step s t \<Longrightarrow> lock_reach t"

section \<open>Lemmas\<close>

definition owns :: "lock_pc \<Rightarrow> bool" where
  "owns x \<longleftrightarrow> x = Swapped \<or> x = Critical \<or> x = Releasing"

definition owners :: "(nat \<Rightarrow> lock_pc) \<Rightarrow> nat set" where
  "owners f = {c. owns (f c)}"

lemma owns_simps [simp]:
  "owns Swapped" "owns Critical" "owns Releasing"
  "\<not> owns Outside" "\<not> owns Spinning" "\<not> owns Released"
  by (simp_all add: owns_def)

lemma owners_upd [simp]: "owners (f(c := x)) = (if owns x then insert c (owners f) else owners f - {c})"
  by (auto simp: owners_def)

lemma owners_iff: "c \<in> owners f \<longleftrightarrow> owns (f c)"
  by (simp add: owners_def)

text \<open>The invariant: the lock word is set exactly while some CPU owns it, at most one does,
  the holder field names a CPU exactly while it is in its critical section, and a CPU
  anywhere between \<open>acquire\<close> and the end of \<open>release\<close> has interrupts off.\<close>

definition lock_inv :: "lock_sys \<Rightarrow> bool" where
  "lock_inv s \<longleftrightarrow>
     (lk_locked (the_lock s) = 0 \<longleftrightarrow> owners (lpc s) = {}) \<and>
     (\<forall>c. owns (lpc s c) \<longrightarrow> owners (lpc s) = {c}) \<and>
     (\<forall>c. (lk_cpu (the_lock s) = Some c) = (lpc s c = Critical)) \<and>
     (\<forall>c. 0 \<le> noff (the_cpus s c)) \<and>
     (\<forall>c. 0 < noff (the_cpus s c) \<longrightarrow> \<not> intr_get (sstatus (the_cpus s c))) \<and>
     (\<forall>c. lpc s c \<noteq> Outside \<longrightarrow> 0 < noff (the_cpus s c))"

lemma push_off_noff [simp]: "noff (push_off c) = noff c + 1"
  by (simp add: push_off_def Let_def)

lemma push_off_intr [simp]: "\<not> intr_get (sstatus (push_off c))"
  by (simp add: push_off_def Let_def)

lemma pop_off_eq:
  "\<not> intr_get (sstatus c) \<Longrightarrow> 1 \<le> noff c \<Longrightarrow>
   pop_off c = Inr (c\<lparr>noff := noff c - 1, sstatus := (if noff c = 1 \<and> intena c then intr_on (sstatus c) else sstatus c)\<rparr>)"
  by (simp add: pop_off_def Let_def)

lemma pop_off_Inr:
  "pop_off c = Inr c' \<Longrightarrow> 1 \<le> noff c \<and> noff c' = noff c - 1 \<and> (1 < noff c \<longrightarrow> \<not> intr_get (sstatus c'))"
  by (auto simp: pop_off_def Let_def split: if_splits)

lemma lock_invD:
  assumes "lock_inv s" and "owns (lpc s c)"
  shows "owners (lpc s) = {c}" and "owns (lpc s d) \<longleftrightarrow> d = c" and "lpc s d = Critical \<Longrightarrow> d = c"
proof -
  show *: "owners (lpc s) = {c}" using assms by (simp add: lock_inv_def)
  then show **: "owns (lpc s d) \<longleftrightarrow> d = c" by (metis owners_iff singleton_iff)
  show "d = c" if "lpc s d = Critical" using that ** by simp
qed

lemma lock_inv_step: "lock_step s t \<Longrightarrow> lock_inv s \<Longrightarrow> lock_inv t"
proof (induction rule: lock_step.induct)
  case (enter s c cpu)
  then have "c \<notin> owners (lpc s)" "cpu = push_off (the_cpus s c)"
    by (simp_all add: owners_iff acquire_enter_def Let_def split: if_splits)
  with enter(1,3) show ?case by (simp add: lock_inv_def)
next
  case (spin s c old lk)
  then have "lk = (the_lock s)\<lparr>lk_locked := 1\<rparr>" "lk_locked (the_lock s) \<noteq> 0"
    by (auto simp: test_and_set_def)
  with spin(4) show ?case by (simp add: lock_inv_def)
next
  case (swap s c old lk)
  then have e: "owners (lpc s) = {}" and lk: "lk = (the_lock s)\<lparr>lk_locked := 1\<rparr>"
    by (auto simp: lock_inv_def test_and_set_def)
  from e have "\<not> owns (lpc s d)" for d by (metis empty_iff owners_iff)
  with swap(1,4) e lk show ?case by (simp add: lock_inv_def)
next
  case (record_holder s c)
  then have o: "owns (lpc s c)" by simp
  note i = lock_invD [OF record_holder(2) o]
  have "lpc s d \<noteq> Critical" for d using i(3) [of d] record_holder(1) by auto
  then show ?case using record_holder i(1,2) by (simp add: lock_inv_def acquire_record_def)
next
  case (release_begin s c lk)
  then have o: "owns (lpc s c)" by simp
  note i = lock_invD [OF release_begin(3) o]
  have "lk = (the_lock s)\<lparr>lk_cpu := None\<rparr>"
    using release_begin(2) by (simp add: release_enter_def split: if_splits)
  moreover have "lpc s d \<noteq> Critical" if "d \<noteq> c" for d using i(3) [of d] that by auto
  ultimately show ?case using release_begin(1,3) i(1,2) by (simp add: lock_inv_def)
next
  case (clear s c)
  then have o: "owns (lpc s c)" by simp
  note i = lock_invD [OF clear(2) o]
  have "lpc s d \<noteq> Critical" for d using i(3) [of d] clear(1) by auto
  then show ?case using clear i(1,2) by (simp add: lock_inv_def lock_release_def)
next
  case (pop s c cpu)
  then have "c \<notin> owners (lpc s)" by (simp add: owners_iff)
  with pop(1,3) show ?case
    using pop_off_Inr [OF pop(2)] by (simp add: lock_inv_def)
next
  case (other_push s c)
  then show ?case by (simp add: lock_inv_def)
qed

lemma lock_reach_inv: "lock_reach s \<Longrightarrow> lock_inv s"
proof (induction rule: lock_reach.induct)
  case (start s)
  then show ?case by (auto simp: lock_inv_def initlock_def owners_def)
qed (rule lock_inv_step)

primrec push_off_n :: "nat \<Rightarrow> kcpu \<Rightarrow> kcpu" where
  "push_off_n 0 c = c"
| "push_off_n (Suc n) c = push_off_n n (push_off c)"

primrec pop_off_n :: "nat \<Rightarrow> kcpu \<Rightarrow> kcpu kres" where
  "pop_off_n 0 c = Inr c"
| "pop_off_n (Suc n) c = kbind (pop_off c) (pop_off_n n)"

lemma push_off_n_nested:
  "0 < noff c \<Longrightarrow> \<not> intr_get (sstatus c) \<Longrightarrow>
   push_off_n n c = c\<lparr>noff := noff c + int n\<rparr>"
  by (induction n arbitrary: c) (auto simp: push_off_def Let_def intr_off_id)

lemma pop_off_n_nested:
  "int n \<le> noff c - 1 \<Longrightarrow> \<not> intr_get (sstatus c) \<Longrightarrow>
   pop_off_n n c = Inr (c\<lparr>noff := noff c - int n\<rparr>)"
  by (induction n arbitrary: c) (auto simp: pop_off_eq)

lemma pop_off_n_last: "pop_off_n (Suc k) c = kbind (pop_off_n k c) pop_off"
proof (induction k arbitrary: c)
  case 0
  show ?case by (cases "pop_off c") simp_all
next
  case (Suc k)
  have "pop_off_n (Suc (Suc k)) c = kbind (pop_off c) (\<lambda>d. pop_off_n (Suc k) d)"
    by (rule pop_off_n.simps(2))
  also have "\<dots> = kbind (kbind (pop_off c) (pop_off_n k)) pop_off"
    by (simp only: Suc.IH kbind_assoc)
  finally show ?case by simp
qed

section \<open>Properties\<close>

text \<open>C30. Mutual exclusion of \<open>acquire\<close> and \<open>release\<close>: in every reachable state of any
  number of CPUs, two CPUs in the critical section are the same CPU, that CPU has its
  interrupts disabled and \<open>holding\<close> answers true for it, so its \<open>release\<close> does not panic;
  and \<open>acquire\<close> panics exactly on a CPU that is itself in the critical section.\<close>

theorem spinlock_mutual_exclusion:
  assumes "lock_reach s"
  shows "(lpc s c = Critical \<and> lpc s d = Critical \<longrightarrow> c = d) \<and>
    (lpc s c = Critical \<longrightarrow> \<not> intr_get (sstatus (the_cpus s c)) \<and> holding c (the_lock s) \<and>
       (\<exists>lk. release_enter c (the_lock s) = Inr lk)) \<and>
    (acquire_enter c (the_lock s) cpu = Inl (Panic ''acquire'') \<longleftrightarrow> lpc s c = Critical)"
proof -
  have i: "lock_inv s" using assms by (rule lock_reach_inv)
  have h: "holding c (the_lock s) \<longleftrightarrow> lpc s c = Critical"
    using i lock_invD(1) [OF i, of c] by (cases "lpc s c") (auto simp: holding_def lock_inv_def)
  show ?thesis
    using i h lock_invD(3) [OF i, of c d]
    by (auto simp: lock_inv_def release_enter_def acquire_enter_def Let_def)
qed

definition idle_cpu :: kcpu where
  "idle_cpu = \<lparr>noff = 0, intena = False, sstatus = 2\<rparr>"

definition lock_boot :: lock_sys where
  "lock_boot = \<lparr>the_lock = initlock, the_cpus = (\<lambda>_. idle_cpu), lpc = (\<lambda>_. Outside)\<rparr>"

lemma lock_boot_critical:
  "\<exists>s. lock_reach s \<and> lpc s 1 = Critical"
proof -
  have "lock_reach lock_boot"
    by (rule lock_reach.start) (simp_all add: lock_boot_def idle_cpu_def)
  note r = lock_reach.step [OF this enter [of _ 1 "push_off idle_cpu"]]
  show ?thesis
    by (rule exI, rule conjI,
        rule lock_reach.step [OF lock_reach.step [OF r swap [of _ 1 0]] record_holder [of _ 1]])
      (simp_all add: lock_boot_def acquire_enter_def holding_def initlock_def test_and_set_def)
qed

theorem spinlock_mutual_exclusion_witness:
  "\<exists>s. lock_reach s \<and> lpc s 1 = Critical \<and> holding 1 (the_lock s) \<and> \<not> intr_get (sstatus (the_cpus s 1))"
  using lock_boot_critical spinlock_mutual_exclusion [of _ 1 1 idle_cpu] by blast

text \<open>C34. Nesting: \<open>n\<close> calls of \<open>push_off\<close> from the outermost level leave interrupts
  disabled, and the \<open>n\<close> matching calls of \<open>pop_off\<close> return without a panic, with the
  nesting depth and the interrupt-enable bit that held before the first \<open>push_off\<close>. No
  proper part of the calls turns interrupts back on.\<close>

theorem push_pop_nesting:
  assumes "noff c = 0" and "0 < n" and "m < n"
  shows "\<not> intr_get (sstatus (push_off_n n c)) \<and>
    must (pop_off_n m (push_off_n n c)) (\<lambda>c'. \<not> intr_get (sstatus c')) \<and>
    must (pop_off_n n (push_off_n n c))
      (\<lambda>c'. noff c' = 0 \<and> intr_get (sstatus c') = intr_get (sstatus c))"
proof -
  obtain k where n: "n = Suc k" using assms(2) by (cases n) auto
  let ?c = "push_off_n n c"
  have c: "noff ?c = int n" "\<not> intr_get (sstatus ?c)" "intena ?c = intr_get (sstatus c)"
    using assms(1) n by (auto simp: push_off_n_nested) (simp_all add: push_off_def Let_def)
  have "pop_off_n n ?c = pop_off (?c\<lparr>noff := noff ?c - int k\<rparr>)"
    using c n pop_off_n_last [of k ?c] by (simp add: pop_off_n_nested)
  moreover have "pop_off_n m ?c = Inr (?c\<lparr>noff := noff ?c - int m\<rparr>)"
    using c assms(3) by (intro pop_off_n_nested) auto
  ultimately show ?thesis using c n by (simp add: pop_off_eq)
qed

theorem push_pop_nesting_witness:
  "must (pop_off_n 3 (push_off_n 3 idle_cpu)) (\<lambda>c. noff c = 0 \<and> intr_get (sstatus c))"
proof -
  have "intr_get (sstatus idle_cpu)" by (simp add: idle_cpu_def intr_get_def)
  then show ?thesis using push_pop_nesting [of idle_cpu 3 1] by (simp add: idle_cpu_def)
qed

end
