(* ===== verification/Sleeplock.thy ===== *)
theory Sleeplock
  imports Proc_Table
begin

text \<open>
  Sleeping locks, \<open>kernel/sleeplock.c\<close>. A lock is a record of its own, and the channel it
  sleeps on is an argument. \<open>acquiresleep\<close> of a lock that is held is the value
  \<open>Inl (Sleeps c)\<close>: the caller cannot go on before the holder calls \<open>releasesleep\<close>.
\<close>

record sleeplock =
  sl_locked :: bool
  sl_pid :: int

definition initsleeplock :: sleeplock where
  "initsleeplock = \<lparr>sl_locked = False, sl_pid = 0\<rparr>"

definition acquiresleep :: "chan \<Rightarrow> sleeplock \<Rightarrow> 'a kproc_scheme \<Rightarrow> sleeplock kres" where
  "acquiresleep c lk s =
     (if sl_locked lk then Inl (Sleeps c)
      else kbind (cur s) (\<lambda>p. Inr \<lparr>sl_locked = True, sl_pid = ppid (procs s p)\<rparr>))"

definition releasesleep :: "chan \<Rightarrow> sleeplock \<Rightarrow> 'a kproc_scheme \<Rightarrow> sleeplock \<times> 'a kproc_scheme" where
  "releasesleep c lk s = (\<lparr>sl_locked = False, sl_pid = 0\<rparr>, wakeup c s)"

definition holdingsleep :: "sleeplock \<Rightarrow> 'a kproc_scheme \<Rightarrow> bool kres" where
  "holdingsleep lk s =
     (if \<not> sl_locked lk then Inr False
      else kbind (cur s) (\<lambda>p. Inr (sl_pid lk = ppid (procs s p))))"

section \<open>Lemmas\<close>

text \<open>The pid of the running process, what the debugging field of a held lock records.\<close>

definition curpid :: "'a kproc_scheme \<Rightarrow> int option" where
  "curpid s = map_option (\<lambda>p. ppid (procs s p)) (myproc s)"

lemma curpid_Some: "curpid s = Some i \<longleftrightarrow> (\<exists>p. cur s = Inr p \<and> ppid (procs s p) = i)"
  by (auto simp: curpid_def cur_def split: option.splits)

lemma acquiresleep_eq:
  "curpid s = Some i \<Longrightarrow>
   acquiresleep c lk s = (if sl_locked lk then Inl (Sleeps c) else Inr \<lparr>sl_locked = True, sl_pid = i\<rparr>)"
  by (auto simp: acquiresleep_def curpid_Some)

lemma holdingsleep_eq:
  "curpid s = Some i \<Longrightarrow> holdingsleep lk s = Inr (sl_locked lk \<and> sl_pid lk = i)"
  by (auto simp: holdingsleep_def curpid_Some)

lemma curpid_wakeup [simp]: "curpid (wakeup c s) = curpid s"
  by (cases "cpu_proc s (hart s)") (simp_all add: curpid_def myproc_def cpuid_def wakeup_def)

lemma curpid_cong:
  "procs t = procs s \<Longrightarrow> cpu_proc t = cpu_proc s \<Longrightarrow> hart t = hart s \<Longrightarrow> curpid t = curpid s"
  by (simp add: curpid_def myproc_def cpuid_def)

end
