(* ===== verification/Bio.thy ===== *)
theory Bio
  imports Sleeplock
begin

text \<open>
  The buffer cache, \<open>kernel/bio.c\<close> and \<open>kernel/buf.h\<close>.

  The cache is an array of buffers; a \<open>struct buf *\<close> is an index, and index \<open>NBUF\<close> is the
  list head \<open>bcache.head\<close>. The list through \<open>prev\<close> and \<open>next\<close> is kept as the code keeps
  it, with the indices as pointers. A buffer's \<open>data\<close> is an array of exactly \<open>BSIZE\<close> bytes,
  so that moving \<open>BSIZE\<close> bytes from one to another is copying the array.

  The disk is seen here as \<open>virtio_disk_rw\<close> shows it: one block of data for each block
  number, whatever the device number (the driver ignores \<open>b->dev\<close>). \<open>dtrace\<close> is a
  ghost field that records every block write in order; the crash theorems cut it.
\<close>

section \<open>State\<close>

record buf =
  b_valid :: bool
  b_disk :: bool
  b_dev :: nat
  b_blockno :: nat
  b_lock :: sleeplock
  b_refcnt :: nat
  b_prev :: nat
  b_next :: nat
  b_data :: bytes

record kbio = kproc +
  bufs :: "nat \<Rightarrow> buf"
  disk :: "nat \<Rightarrow> bytes"
  dtrace :: "(nat \<times> bytes) list"

abbreviation (input) bhead :: nat where "bhead \<equiv> NBUF"

definition upd_buf :: "nat \<Rightarrow> (buf \<Rightarrow> buf) \<Rightarrow> 'a kbio_scheme \<Rightarrow> 'a kbio_scheme" where
  "upd_buf b f s = s\<lparr>bufs := (bufs s)(b := f (bufs s b))\<rparr>"

text \<open>One completed request to the disk: a write stores the buffer's data in its block, a read
  fills the buffer from its block.\<close>

definition disk_transfer :: "nat \<Rightarrow> bool \<Rightarrow> 'a kbio_scheme \<Rightarrow> 'a kbio_scheme" where
  "disk_transfer b write s =
     (let n = b_blockno (bufs s b); d = b_data (bufs s b)
      in if write then s\<lparr>disk := (disk s)(n := d), dtrace := dtrace s @ [(n, d)]\<rparr>
         else upd_buf b (\<lambda>x. x\<lparr>b_data := disk s n\<rparr>) s)"

section \<open>Operations\<close>

text \<open>Taking a buffer out of the list, and putting it at the front.\<close>

definition list_unlink :: "nat \<Rightarrow> (nat \<Rightarrow> buf) \<Rightarrow> nat \<Rightarrow> buf" where
  "list_unlink b B =
     (let B = B(b_next (B b) := (B (b_next (B b)))\<lparr>b_prev := b_prev (B b)\<rparr>)
      in B(b_prev (B b) := (B (b_prev (B b)))\<lparr>b_next := b_next (B b)\<rparr>))"

definition list_push :: "nat \<Rightarrow> (nat \<Rightarrow> buf) \<Rightarrow> nat \<Rightarrow> buf" where
  "list_push b B =
     (let B = B(b := (B b)\<lparr>b_next := b_next (B bhead), b_prev := bhead\<rparr>);
          B = B(b_next (B bhead) := (B (b_next (B bhead)))\<lparr>b_prev := b\<rparr>)
      in B(bhead := (B bhead)\<lparr>b_next := b\<rparr>))"

primrec binit_loop :: "nat \<Rightarrow> (nat \<Rightarrow> buf) \<Rightarrow> nat \<Rightarrow> buf" where
  "binit_loop 0 B = B"
| "binit_loop (Suc k) B =
     (let B = binit_loop k B in list_push k (B(k := (B k)\<lparr>b_lock := initsleeplock\<rparr>)))"

definition binit :: "'a kbio_scheme \<Rightarrow> 'a kbio_scheme" where
  "binit s = s\<lparr>bufs := binit_loop NBUF
     ((bufs s)(bhead := (bufs s bhead)\<lparr>b_prev := bhead, b_next := bhead\<rparr>))\<rparr>"

text \<open>The two search loops of \<open>bget\<close>: forward for the block, backward for an unused buffer.
  The list has \<open>NBUF\<close> elements, so \<open>NBUF + 1\<close> tests are enough (\<open>bget_find_eq\<close> and
  \<open>bget_lru_eq\<close> below); a corrupted list gives \<open>Hangs\<close>.\<close>

fun bget_find :: "nat \<Rightarrow> (nat \<Rightarrow> buf) \<Rightarrow> nat \<Rightarrow> nat \<Rightarrow> nat \<Rightarrow> nat option kres" where
  "bget_find 0 B dev blockno b = Inl Hangs"
| "bget_find (Suc k) B dev blockno b =
     (if b = bhead then Inr None
      else if b_dev (B b) = dev \<and> b_blockno (B b) = blockno then Inr (Some b)
      else bget_find k B dev blockno (b_next (B b)))"

fun bget_lru :: "nat \<Rightarrow> (nat \<Rightarrow> buf) \<Rightarrow> nat \<Rightarrow> nat option kres" where
  "bget_lru 0 B b = Inl Hangs"
| "bget_lru (Suc k) B b =
     (if b = bhead then Inr None
      else if b_refcnt (B b) = 0 then Inr (Some b)
      else bget_lru k B (b_prev (B b)))"

definition buf_acquire :: "nat \<Rightarrow> 'a kbio_scheme \<Rightarrow> 'a kbio_scheme kres" where
  "buf_acquire b s =
     kbind (acquiresleep (ChBufLock b) (b_lock (bufs s b)) s) (\<lambda>lk.
     Inr (upd_buf b (\<lambda>x. x\<lparr>b_lock := lk\<rparr>) s))"

definition bget :: "nat \<Rightarrow> nat \<Rightarrow> 'a kbio_scheme \<Rightarrow> (nat \<times> 'a kbio_scheme) kres" where
  "bget dev blockno s =
     kbind (bget_find (Suc NBUF) (bufs s) dev blockno (b_next (bufs s bhead))) (\<lambda>r.
     case r of
       Some b \<Rightarrow>
         (let s = upd_buf b (\<lambda>x. x\<lparr>b_refcnt := inc32 (b_refcnt x)\<rparr>) s
          in kbind (buf_acquire b s) (\<lambda>s. Inr (b, s)))
     | None \<Rightarrow>
         kbind (bget_lru (Suc NBUF) (bufs s) (b_prev (bufs s bhead))) (\<lambda>r.
         case r of
           Some b \<Rightarrow>
             (let s = upd_buf b (\<lambda>x. x\<lparr>b_dev := dev, b_blockno := blockno, b_valid := False,
                        b_refcnt := 1\<rparr>) s
              in kbind (buf_acquire b s) (\<lambda>s. Inr (b, s)))
         | None \<Rightarrow> Inl (Panic ''bget: no buffers'')))"

definition bread :: "nat \<Rightarrow> nat \<Rightarrow> 'a kbio_scheme \<Rightarrow> (nat \<times> 'a kbio_scheme) kres" where
  "bread dev blockno s =
     kbind (bget dev blockno s) (\<lambda>(b, s).
     Inr (b, if \<not> b_valid (bufs s b)
             then upd_buf b (\<lambda>x. x\<lparr>b_valid := True\<rparr>) (disk_transfer b False s)
             else s))"

definition bwrite :: "nat \<Rightarrow> 'a kbio_scheme \<Rightarrow> 'a kbio_scheme kres" where
  "bwrite b s =
     kbind (holdingsleep (b_lock (bufs s b)) s) (\<lambda>h.
     if \<not> h then Inl (Panic ''bwrite'') else Inr (disk_transfer b True s))"

definition brelse :: "nat \<Rightarrow> 'a kbio_scheme \<Rightarrow> 'a kbio_scheme kres" where
  "brelse b s =
     kbind (holdingsleep (b_lock (bufs s b)) s) (\<lambda>h.
     if \<not> h then Inl (Panic ''brelse'')
     else let (lk, s) = releasesleep (ChBufLock b) (b_lock (bufs s b)) s;
              s = upd_buf b (\<lambda>x. x\<lparr>b_lock := lk\<rparr>) s;
              s = upd_buf b (\<lambda>x. x\<lparr>b_refcnt := dec32 (b_refcnt x)\<rparr>) s
          in Inr (if b_refcnt (bufs s b) = 0
                  then s\<lparr>bufs := list_push b (list_unlink b (bufs s))\<rparr> else s))"

definition bpin :: "nat \<Rightarrow> 'a kbio_scheme \<Rightarrow> 'a kbio_scheme" where
  "bpin b s = upd_buf b (\<lambda>x. x\<lparr>b_refcnt := inc32 (b_refcnt x)\<rparr>) s"

definition bunpin :: "nat \<Rightarrow> 'a kbio_scheme \<Rightarrow> 'a kbio_scheme" where
  "bunpin b s = upd_buf b (\<lambda>x. x\<lparr>b_refcnt := dec32 (b_refcnt x)\<rparr>) s"

section \<open>The list\<close>

text \<open>\<open>dpath B a xs z\<close>: from \<open>a\<close> the \<open>next\<close> pointers run through \<open>xs\<close> to \<open>z\<close>, and the
  \<open>prev\<close> pointers run back.\<close>

primrec dpath :: "(nat \<Rightarrow> buf) \<Rightarrow> nat \<Rightarrow> nat list \<Rightarrow> nat \<Rightarrow> bool" where
  "dpath B a [] z \<longleftrightarrow> b_next (B a) = z \<and> b_prev (B z) = a"
| "dpath B a (x # xs) z \<longleftrightarrow> b_next (B a) = x \<and> b_prev (B x) = a \<and> dpath B x xs z"

lemma dpath_append: "dpath B a (xs @ b # ys) z \<longleftrightarrow> dpath B a xs b \<and> dpath B b ys z"
  by (induction xs arbitrary: a) auto

lemma dpath_snoc:
  "dpath B a (xs @ [b]) z \<longleftrightarrow> dpath B a xs b \<and> b_next (B b) = z \<and> b_prev (B z) = b"
  by (simp add: dpath_append)

lemma dpath_cong:
  "(\<And>x. x \<in> insert a (set xs) \<Longrightarrow> b_next (B' x) = b_next (B x)) \<Longrightarrow>
   (\<And>x. x \<in> insert z (set xs) \<Longrightarrow> b_prev (B' x) = b_prev (B x)) \<Longrightarrow>
   dpath B' a xs z = dpath B a xs z"
  by (induction xs arbitrary: a) auto

lemma dpath_last: "dpath B a xs z \<Longrightarrow> b_prev (B z) = last (a # xs)"
  by (induction xs arbitrary: a) auto

lemma dpath_hd: "dpath B a xs z \<Longrightarrow> b_next (B a) = hd (xs @ [z])"
  by (cases xs) auto

definition dlist :: "(nat \<Rightarrow> buf) \<Rightarrow> nat list \<Rightarrow> bool" where
  "dlist B xs \<longleftrightarrow> dpath B bhead xs bhead \<and> distinct xs \<and> bhead \<notin> set xs"

lemma push_next:
  "b \<noteq> bhead \<Longrightarrow> b_next (list_push b B x) =
     (if x = bhead then b else if x = b then b_next (B bhead) else b_next (B x))"
  by (simp add: list_push_def Let_def)

lemma push_prev:
  "b \<noteq> bhead \<Longrightarrow> b_next (B bhead) \<noteq> b \<Longrightarrow> b_prev (list_push b B x) =
     (if x = b_next (B bhead) then b else if x = b then bhead else b_prev (B x))"
  by (simp add: list_push_def Let_def)

lemma unlink_next:
  "b_next (B b) \<noteq> b \<Longrightarrow> b_next (list_unlink b B x) =
     (if x = b_prev (B b) then b_next (B b) else b_next (B x))"
  by (simp add: list_unlink_def Let_def)

lemma unlink_prev:
  "b_next (B b) \<noteq> b \<Longrightarrow> b_prev (list_unlink b B x) =
     (if x = b_next (B b) then b_prev (B b) else b_prev (B x))"
  by (simp add: list_unlink_def Let_def)

lemma dlist_push:
  assumes "dlist B xs" and b: "b \<noteq> bhead" "b \<notin> set xs"
  shows "dlist (list_push b B) (b # xs)"
proof -
  have d: "dpath B bhead xs bhead" "distinct xs" "bhead \<notin> set xs" using assms by (auto simp: dlist_def)
  have h: "b_next (B bhead) = hd (xs @ [bhead])" using d(1) by (rule dpath_hd)
  then have hb: "b_next (B bhead) \<noteq> b" using b by (cases xs) auto
  have "dpath (list_push b B) b xs bhead"
  proof (cases xs)
    case Nil
    then show ?thesis using h hb b by (simp add: push_next push_prev)
  next
    case (Cons x ys)
    have "dpath (list_push b B) x ys bhead = dpath B x ys bhead"
    proof (rule dpath_cong)
      show "b_next (list_push b B y) = b_next (B y)" if "y \<in> insert x (set ys)" for y
        using that Cons d(3) b by (auto simp: push_next)
      show "b_prev (list_push b B y) = b_prev (B y)" if "y \<in> insert bhead (set ys)" for y
        using that Cons d(2,3) b h hb by (auto simp: push_prev)
    qed
    then show ?thesis using Cons d(1) h hb b by (simp add: push_next push_prev)
  qed
  moreover have "b_next (list_push b B bhead) = b" "b_prev (list_push b B b) = bhead"
    using b hb by (simp_all add: push_next push_prev)
  ultimately show ?thesis using d b by (simp add: dlist_def)
qed

lemma dpath_join:
  assumes "dpath B a xs b" and "dpath B b ys z" and "distinct (a # xs)" and "b \<notin> insert a (set xs)"
    and "b \<notin> set ys" and "distinct ys" and "set ys \<inter> insert a (set xs) = {}"
    and "z \<notin> set xs" and "z \<notin> set ys" and "z \<noteq> b"
  shows "dpath (list_unlink b B) a (xs @ ys) z"
  using assms
proof (induction xs arbitrary: a)
  case Nil
  then have n: "b_next (B b) = hd (ys @ [z])" "b_prev (B b) = a" by (auto dest: dpath_hd)
  then have nb: "b_next (B b) \<noteq> b" using Nil by (cases ys) auto
  show ?case
  proof (cases ys)
    case Nil
    then show ?thesis using n nb by (simp add: unlink_next unlink_prev)
  next
    case (Cons y zs)
    have "dpath (list_unlink b B) y zs z = dpath B y zs z"
    proof (rule dpath_cong)
      show "b_next (list_unlink b B x) = b_next (B x)" if "x \<in> insert y (set zs)" for x
        using that Cons Nil.prems n nb by (auto simp: unlink_next)
      show "b_prev (list_unlink b B x) = b_prev (B x)" if "x \<in> insert z (set zs)" for x
        using that Cons Nil.prems n nb by (auto simp: unlink_prev)
    qed
    then show ?thesis using Cons Nil.prems n nb by (simp add: unlink_next unlink_prev)
  qed
next
  case (Cons x xs)
  have n: "b_next (B b) = hd (ys @ [z])" using Cons.prems(2) by (rule dpath_hd)
  have p: "b_prev (B b) = last (x # xs)" using Cons.prems(1) by (auto dest: dpath_last)
  have nb: "b_next (B b) \<noteq> b" "b_next (B b) \<noteq> x" "b_prev (B b) \<noteq> a"
    using Cons.prems n p by (cases ys; auto)+
  have "dpath (list_unlink b B) x (xs @ ys) z" using Cons.prems by (intro Cons.IH) auto
  then show ?case using Cons.prems nb by (simp add: unlink_next unlink_prev)
qed

lemma dlist_unlink:
  assumes "dlist B (xs @ b # ys)"
  shows "dlist (list_unlink b B) (xs @ ys)"
proof -
  have "dpath B bhead xs b" "dpath B b ys bhead" using assms by (auto simp: dlist_def dpath_append)
  then show ?thesis using assms by (auto simp: dlist_def intro!: dpath_join)
qed

lemma dlist_move_front:
  assumes "dlist B xs" and "b \<in> set xs"
  shows "dlist (list_push b (list_unlink b B)) (b # remove1 b xs)"
proof -
  obtain ys zs where xs: "xs = ys @ b # zs" "b \<notin> set ys" using assms(2) by (metis split_list_first)
  then have "dlist (list_unlink b B) (ys @ zs)" using assms(1) by (auto intro: dlist_unlink)
  moreover have "b \<noteq> bhead" "b \<notin> set (ys @ zs)" using assms(1) xs by (auto simp: dlist_def)
  ultimately show ?thesis using xs by (auto simp: remove1_append dest: dlist_push)
qed

lemma dlist_cong:
  "(\<And>x. b_next (B' x) = b_next (B x)) \<Longrightarrow> (\<And>x. b_prev (B' x) = b_prev (B x)) \<Longrightarrow> dlist B' xs = dlist B xs"
  unfolding dlist_def by (rule arg_cong2 [where f = conj], rule dpath_cong) simp_all

lemma move_front_fields [simp]:
  "b_valid (list_push b B x) = b_valid (B x)" "b_valid (list_unlink b B x) = b_valid (B x)"
  "b_dev (list_push b B x) = b_dev (B x)" "b_dev (list_unlink b B x) = b_dev (B x)"
  "b_blockno (list_push b B x) = b_blockno (B x)" "b_blockno (list_unlink b B x) = b_blockno (B x)"
  "b_lock (list_push b B x) = b_lock (B x)" "b_lock (list_unlink b B x) = b_lock (B x)"
  "b_refcnt (list_push b B x) = b_refcnt (B x)" "b_refcnt (list_unlink b B x) = b_refcnt (B x)"
  "b_data (list_push b B x) = b_data (B x)" "b_data (list_unlink b B x) = b_data (B x)"
  by (simp_all add: list_push_def list_unlink_def Let_def)

text \<open>The search loops are \<open>find\<close> on the list, forward and backward.\<close>

lemma bget_find_eq:
  "dpath B a xs bhead \<Longrightarrow> bhead \<notin> set xs \<Longrightarrow> length xs \<le> k \<Longrightarrow>
   bget_find (Suc k) B dev n (b_next (B a)) = Inr (find (\<lambda>b. b_dev (B b) = dev \<and> b_blockno (B b) = n) xs)"
proof (induction xs arbitrary: a k)
  case (Cons x xs)
  then obtain j where k: "k = Suc j" by (cases k) auto
  then have "bget_find (Suc j) B dev n (b_next (B x)) =
      Inr (find (\<lambda>b. b_dev (B b) = dev \<and> b_blockno (B b) = n) xs)"
    using Cons by (intro Cons.IH) auto
  then show ?case using Cons.prems k by auto
qed simp

lemma bget_lru_eq:
  "dpath B bhead xs z \<Longrightarrow> bhead \<notin> set xs \<Longrightarrow> length xs \<le> k \<Longrightarrow>
   bget_lru (Suc k) B (b_prev (B z)) = Inr (find (\<lambda>b. b_refcnt (B b) = 0) (rev xs))"
proof (induction xs arbitrary: z k rule: rev_induct)
  case (snoc x xs)
  then obtain j where k: "k = Suc j" by (cases k) auto
  then have "bget_lru (Suc j) B (b_prev (B x)) = Inr (find (\<lambda>b. b_refcnt (B b) = 0) (rev xs))"
    using snoc by (intro snoc.IH) (auto simp: dpath_snoc)
  then show ?case using snoc.prems k by (auto simp: dpath_snoc)
qed simp

end
