(* ===== verification/Bcache.thy ===== *)
theory Bcache
  imports Bio
begin

text \<open>
  The contract of the buffer cache of \<open>Bio\<close>: what a block contains as seen through the
  cache, the invariant that ties the buffers to the disk, and what each operation promises
  under that invariant.
\<close>

section \<open>Contents\<close>

text \<open>The contents of block \<open>n\<close> as the file system sees them: the cached copy if there is a
  valid one, the disk's otherwise.\<close>

definition cached :: "'a kbio_scheme \<Rightarrow> nat \<Rightarrow> nat option" where
  "cached s n = find (\<lambda>b. b_dev (bufs s b) = ROOTDEV \<and> b_blockno (bufs s b) = n \<and> b_valid (bufs s b)) [0..<NBUF]"

definition view :: "'a kbio_scheme \<Rightarrow> nat \<Rightarrow> bytes" where
  "view s n = (case cached s n of Some b \<Rightarrow> b_data (bufs s b) | None \<Rightarrow> disk s n)"

text \<open>The invariant of the cache. \<open>H\<close> is the set of buffers that are locked, all by the running
  process, and \<open>P\<close> the set of buffers pinned by \<open>bpin\<close>. A buffer that is neither
  holds what the disk holds, so that reusing it loses nothing.\<close>

definition buf_unique :: "'a kbio_scheme \<Rightarrow> bool" where
  "buf_unique s \<longleftrightarrow> (\<forall>b<NBUF. \<forall>c<NBUF. b_dev (bufs s b) = ROOTDEV \<and> b_dev (bufs s c) = ROOTDEV \<and>
     b_blockno (bufs s b) = b_blockno (bufs s c) \<longrightarrow> b = c)"

definition buf_wf :: "'a kbio_scheme \<Rightarrow> nat set \<Rightarrow> nat set \<Rightarrow> nat \<Rightarrow> bool" where
  "buf_wf s H P b \<longleftrightarrow> (let x = bufs s b in
     b_refcnt x = of_bool (b \<in> H) + of_bool (b \<in> P) \<and>
     sl_locked (b_lock x) = (b \<in> H) \<and>
     (b \<in> H \<longrightarrow> curpid s = Some (sl_pid (b_lock x))) \<and>
     (b_dev x = 0 \<or> b_dev x = ROOTDEV) \<and>
     (b_dev x = 0 \<longrightarrow> \<not> b_valid x) \<and>
     (b \<in> H \<union> P \<longrightarrow> b_valid x) \<and>
     (b_valid x \<and> b \<notin> H \<union> P \<longrightarrow> b_data x = disk s (b_blockno x)))"

definition bcache_inv :: "'a kbio_scheme \<Rightarrow> nat set \<Rightarrow> nat set \<Rightarrow> bool" where
  "bcache_inv s H P \<longleftrightarrow>
     (\<exists>xs. dlist (bufs s) xs \<and> set xs = {..<NBUF}) \<and> H \<union> P \<subseteq> {..<NBUF} \<and>
     buf_unique s \<and> (\<forall>b<NBUF. buf_wf s H P b)"

text \<open>The blocks a set of buffers holds, and the room \<open>bread\<close> needs: a buffer that is neither held
  nor pinned, unless the block is already in a pinned one.\<close>

definition blocks_of :: "'a kbio_scheme \<Rightarrow> nat set \<Rightarrow> nat set" where
  "blocks_of s X = (\<lambda>b. b_blockno (bufs s b)) ` X"

definition room :: "'a kbio_scheme \<Rightarrow> nat set \<Rightarrow> nat set \<Rightarrow> nat \<Rightarrow> bool" where
  "room s H P n \<longleftrightarrow> card (H \<union> P) < NBUF \<or> n \<in> blocks_of s P"

text \<open>What the cache's operations leave alone: everything but the buffers, the disk with its
  trace, and the run states of processes that were waiting.\<close>

definition io_frame :: "'a kbio_scheme \<Rightarrow> 'a kbio_scheme \<Rightarrow> bool" where
  "io_frame s s' \<longleftrightarrow>
     s' = s\<lparr>bufs := bufs s', disk := disk s', dtrace := dtrace s', procs := procs s'\<rparr> \<and>
     (\<forall>p. \<exists>st. procs s' p = (procs s p)\<lparr>pstate := st\<rparr>)"


lemma find_SomeD: "find P xs = Some x \<Longrightarrow> x \<in> set xs \<and> P x"
  by (auto simp: find_Some_iff)

lemma io_frame_refl [simp]: "io_frame s s"
proof -
  have "\<exists>st. procs s p = (procs s p)\<lparr>pstate := st\<rparr>" for p
    by (rule exI [of _ "pstate (procs s p)"]) simp
  then show ?thesis by (simp add: io_frame_def)
qed

lemma io_frame_trans [trans]:
  assumes "io_frame s t" and "io_frame t u"
  shows "io_frame s u"
proof -
  have t: "t = s\<lparr>bufs := bufs t, disk := disk t, dtrace := dtrace t, procs := procs t\<rparr>"
    and u: "u = t\<lparr>bufs := bufs u, disk := disk u, dtrace := dtrace u, procs := procs u\<rparr>"
    using assms by (simp_all add: io_frame_def)
  have "u = s\<lparr>bufs := bufs u, disk := disk u, dtrace := dtrace u, procs := procs u\<rparr>"
    by (subst u, subst t) simp
  moreover have "\<exists>st. procs u p = (procs s p)\<lparr>pstate := st\<rparr>" for p
  proof -
    obtain a b where "procs t p = (procs s p)\<lparr>pstate := a\<rparr>" "procs u p = (procs t p)\<lparr>pstate := b\<rparr>"
      using assms unfolding io_frame_def by blast
    then show ?thesis by auto
  qed
  ultimately show ?thesis by (simp add: io_frame_def)
qed

lemma io_frame_curpid: "io_frame s t \<Longrightarrow> curpid t = curpid s"
proof -
  assume a: "io_frame s t"
  then have "t = s\<lparr>bufs := bufs t, disk := disk t, dtrace := dtrace t, procs := procs t\<rparr>"
    by (simp add: io_frame_def)
  then have "cpu_proc t = cpu_proc s" "hart t = hart s"
    by (auto dest: arg_cong [of _ _ cpu_proc] arg_cong [of _ _ hart])
  then have "myproc t = myproc s" by (simp add: myproc_def cpuid_def)
  moreover have "ppid (procs t p) = ppid (procs s p)" for p
  proof -
    obtain st where "procs t p = (procs s p)\<lparr>pstate := st\<rparr>" using a unfolding io_frame_def by blast
    then show ?thesis by simp
  qed
  ultimately show ?thesis by (simp add: curpid_def)
qed

lemma wakeup_io_frame: "io_frame s (wakeup c s)"
proof -
  have "\<exists>st. procs (wakeup c s) p = (procs s p)\<lparr>pstate := st\<rparr>" for p
    by (rule exI [of _ "pstate (procs (wakeup c s) p)"]) (simp add: wakeup_def)
  moreover have "wakeup c s = (wakeup c s)\<lparr>procs := procs (wakeup c s)\<rparr>" by simp
  ultimately show ?thesis by (simp add: io_frame_def wakeup_def)
qed

lemma view_cached:
  assumes "buf_unique s" and "b < NBUF" and "b_dev (bufs s b) = ROOTDEV" and "b_blockno (bufs s b) = n"
    and "b_valid (bufs s b)"
  shows "view s n = b_data (bufs s b)"
proof -
  have "cached s n \<noteq> None" using assms(2-5) by (auto simp: cached_def find_None_iff)
  then obtain c where c: "cached s n = Some c" by blast
  then have "c < NBUF \<and> b_dev (bufs s c) = ROOTDEV \<and> b_blockno (bufs s c) = n"
    by (auto simp: cached_def find_Some_iff)
  then have "c = b" using assms unfolding buf_unique_def by blast
  then show ?thesis by (simp add: view_def c)
qed

lemma view_uncached:
  assumes "\<And>b. b < NBUF \<Longrightarrow> b_dev (bufs s b) = ROOTDEV \<Longrightarrow> b_blockno (bufs s b) = n \<Longrightarrow> b_valid (bufs s b) \<Longrightarrow>
    b_data (bufs s b) = disk s n"
  shows "view s n = disk s n"
proof (cases "cached s n")
  case (Some b)
  then have "b < NBUF \<and> b_dev (bufs s b) = ROOTDEV \<and> b_blockno (bufs s b) = n \<and> b_valid (bufs s b)"
    by (auto simp: cached_def find_Some_iff)
  then show ?thesis using assms Some by (simp add: view_def)
qed (simp add: view_def)

text \<open>A buffer that holds what the disk holds is invisible: changing it to another such buffer
  leaves every view alone.\<close>

definition buf_clean :: "'a kbio_scheme \<Rightarrow> nat \<Rightarrow> bool" where
  "buf_clean s b \<longleftrightarrow> (b_valid (bufs s b) \<and> b_dev (bufs s b) = ROOTDEV \<longrightarrow>
     b_data (bufs s b) = disk s (b_blockno (bufs s b)))"

definition buf_same :: "buf \<Rightarrow> buf \<Rightarrow> bool" where
  "buf_same x y \<longleftrightarrow> b_valid x = b_valid y \<and> b_dev x = b_dev y \<and> b_blockno x = b_blockno y \<and> b_data x = b_data y"

lemma view_change_clean:
  assumes u: "buf_unique s" "buf_unique t" and d: "disk t = disk s"
    and o: "\<And>c. c < NBUF \<Longrightarrow> c \<noteq> b \<Longrightarrow> buf_same (bufs t c) (bufs s c)"
    and b: "buf_clean s b" "buf_clean t b"
  shows "view t m = view s m"
proof (cases "\<exists>c<NBUF. c \<noteq> b \<and> b_valid (bufs s c) \<and> b_dev (bufs s c) = ROOTDEV \<and> b_blockno (bufs s c) = m")
  case True
  then obtain c where c: "c < NBUF" "c \<noteq> b" "b_valid (bufs s c)" "b_dev (bufs s c) = ROOTDEV" "b_blockno (bufs s c) = m"
    by blast
  have "buf_same (bufs t c) (bufs s c)" using o c by blast
  then show ?thesis
    using view_cached [OF u(1), of c m] view_cached [OF u(2), of c m] c by (simp add: buf_same_def)
next
  case False
  have "view s m = disk s m"
    using False b(1) by (intro view_uncached) (auto simp: buf_clean_def)
  moreover have "view t m = disk t m"
  proof (rule view_uncached)
    fix c assume c: "c < NBUF" "b_dev (bufs t c) = ROOTDEV" "b_blockno (bufs t c) = m" "b_valid (bufs t c)"
    show "b_data (bufs t c) = disk t m"
    proof (cases "c = b")
      case neq: False
      then have "buf_same (bufs t c) (bufs s c)" using o c(1) by blast
      then show ?thesis using c neq False by (auto simp: buf_same_def)
    qed (use b(2) c in \<open>simp add: buf_clean_def\<close>)
  qed
  ultimately show ?thesis using d by simp
qed

lemma view_cong:
  assumes "disk t = disk s" and "\<And>c. c < NBUF \<Longrightarrow> buf_same (bufs t c) (bufs s c)"
  shows "view t m = view s m"
proof -
  have "cached t m = cached s m"
    unfolding cached_def using assms(2) by (intro find_cong) (auto simp: buf_same_def)
  moreover have "b_data (bufs t b) = b_data (bufs s b)" if "cached s m = Some b" for b
    using that assms(2) by (auto simp: cached_def find_Some_iff buf_same_def)
  ultimately show ?thesis using assms(1) by (simp add: view_def split: option.split)
qed

section \<open>Contracts of the operations\<close>

lemma bcache_invD:
  assumes "bcache_inv s H P" and "b < NBUF"
  shows "b_refcnt (bufs s b) = of_bool (b \<in> H) + of_bool (b \<in> P)"
    and "sl_locked (b_lock (bufs s b)) = (b \<in> H)"
    and "b \<in> H \<Longrightarrow> curpid s = Some (sl_pid (b_lock (bufs s b)))"
    and "b_dev (bufs s b) = 0 \<or> b_dev (bufs s b) = ROOTDEV"
    and "b_dev (bufs s b) = 0 \<Longrightarrow> \<not> b_valid (bufs s b)"
    and "b \<in> H \<union> P \<Longrightarrow> b_valid (bufs s b)"
    and "b_valid (bufs s b) \<Longrightarrow> b \<notin> H \<union> P \<Longrightarrow> b_data (bufs s b) = disk s (b_blockno (bufs s b))"
  using assms by (auto simp: bcache_inv_def buf_wf_def Let_def)

lemma bcache_inv_unique: "bcache_inv s H P \<Longrightarrow> buf_unique s"
  by (simp add: bcache_inv_def)

lemma bcache_inv_range: "bcache_inv s H P \<Longrightarrow> b \<in> H \<union> P \<Longrightarrow> b < NBUF"
  unfolding bcache_inv_def by blast

lemma bcache_inv_dev: "bcache_inv s H P \<Longrightarrow> b \<in> H \<union> P \<Longrightarrow> b_dev (bufs s b) = ROOTDEV"
  using bcache_invD(4-6) bcache_inv_range by metis

lemma bcache_free_exists:
  assumes "bcache_inv s H P" and "card (H \<union> P) < NBUF"
  shows "\<exists>b<NBUF. b \<notin> H \<union> P"
proof (rule ccontr)
  assume "\<not> ?thesis"
  then have "{..<NBUF} \<subseteq> H \<union> P" by blast
  moreover have "finite (H \<union> P)"
    using assms(1) by (auto simp: bcache_inv_def intro: finite_subset [of _ "{..<30}"])
  ultimately have "card {..<NBUF} \<le> card (H \<union> P)" by (rule card_mono [rotated])
  then show False using assms(2) by simp
qed

text \<open>The state after \<open>bread\<close>: buffer \<open>b\<close> is held and holds block \<open>n\<close>.\<close>

definition loaded :: "nat \<Rightarrow> nat \<Rightarrow> nat set \<Rightarrow> int \<Rightarrow> 'a kbio_scheme \<Rightarrow> 'a kbio_scheme" where
  "loaded b n P i s = upd_buf b (\<lambda>x. x\<lparr>b_dev := ROOTDEV, b_blockno := n, b_valid := True,
     b_refcnt := of_bool (b \<in> P) + 1, b_lock := \<lparr>sl_locked = True, sl_pid = i\<rparr>, b_data := view s n\<rparr>) s"

definition loadable :: "nat \<Rightarrow> nat \<Rightarrow> nat set \<Rightarrow> 'a kbio_scheme \<Rightarrow> bool" where
  "loadable b n P s \<longleftrightarrow> (b_dev (bufs s b) = ROOTDEV \<and> b_blockno (bufs s b) = n) \<or>
     (b \<notin> P \<and> (\<forall>c<NBUF. \<not> (b_dev (bufs s c) = ROOTDEV \<and> b_blockno (bufs s c) = n)))"

lemma bread_hit:
  assumes i: "bcache_inv s H P" "curpid s = Some i"
    and b: "b < NBUF" "b \<notin> H" "b_dev (bufs s b) = ROOTDEV" "b_blockno (bufs s b) = n"
    and f: "bget_find (Suc NBUF) (bufs s) ROOTDEV n (b_next (bufs s bhead)) = Inr (Some b)"
  shows "bread ROOTDEV n s = Inr (b, loaded b n P i s)"
proof -
  note w = bcache_invD [OF i(1) b(1)]
  have c: "curpid (s\<lparr>bufs := B\<rparr>) = Some i" for B using i(2) by (simp add: curpid_def myproc_def cpuid_def)
  have r: "b_refcnt (bufs s b) = of_bool (b \<in> P)" and l: "\<not> sl_locked (b_lock (bufs s b))"
    using w(1,2) b(2) by simp_all
  have r': "inc32 (b_refcnt (bufs s b)) = of_bool (b \<in> P) + 1" using r by (simp add: inc32_def)
  show ?thesis
  proof (cases "b_valid (bufs s b)")
    case True
    then have "view s n = b_data (bufs s b)" using b bcache_inv_unique [OF i(1)] by (intro view_cached) auto
    then show ?thesis using f c l r' True b(3,4)
      by (cases "bufs s b") (simp add: bread_def bget_def buf_acquire_def acquiresleep_eq upd_buf_def loaded_def Let_def)
  next
    case False
    have "view s n = disk s n"
    proof (rule view_uncached)
      fix c assume "c < NBUF" "b_dev (bufs s c) = ROOTDEV" "b_blockno (bufs s c) = n" "b_valid (bufs s c)"
      then have "c = b" using b bcache_inv_unique [OF i(1)] by (auto simp: buf_unique_def)
      then show "b_data (bufs s c) = disk s n" using False \<open>b_valid (bufs s c)\<close> by simp
    qed
    then show ?thesis using f c l r' False b(3,4)
      by (cases "bufs s b") (simp add: bread_def bget_def buf_acquire_def acquiresleep_eq upd_buf_def loaded_def Let_def disk_transfer_def)
  qed
qed

lemma bread_miss:
  assumes i: "bcache_inv s H P" "curpid s = Some i"
    and b: "b < NBUF" "b_refcnt (bufs s b) = 0"
    and n: "\<And>c. c < NBUF \<Longrightarrow> \<not> (b_dev (bufs s c) = ROOTDEV \<and> b_blockno (bufs s c) = n)"
    and f: "bget_find (Suc NBUF) (bufs s) ROOTDEV n (b_next (bufs s bhead)) = Inr None"
    and l: "bget_lru (Suc NBUF) (bufs s) (b_prev (bufs s bhead)) = Inr (Some b)"
  shows "bread ROOTDEV n s = Inr (b, loaded b n P i s)"
proof -
  note w = bcache_invD [OF i(1) b(1)]
  have c: "curpid (s\<lparr>bufs := B\<rparr>) = Some i" for B using i(2) by (simp add: curpid_def myproc_def cpuid_def)
  have "b \<notin> H" "b \<notin> P" using w(1) b(2) by auto
  moreover have "view s n = disk s n" using n by (intro view_uncached) blast
  ultimately show ?thesis using f l c w(2)
    by (cases "bufs s b") (simp add: bread_def bget_def buf_acquire_def acquiresleep_eq upd_buf_def loaded_def Let_def disk_transfer_def)
qed

lemma bread_loaded:
  assumes i: "bcache_inv s H P" "curpid s = Some i"
    and h: "n \<notin> blocks_of s H" and c: "room s H P n"
  obtains b where "bread ROOTDEV n s = Inr (b, loaded b n P i s)" "b < NBUF" "b \<notin> H" "loadable b n P s"
proof -
  obtain xs where xs: "dlist (bufs s) xs" "set xs = {..<NBUF}" using i(1) by (auto simp: bcache_inv_def)
  have len: "length xs \<le> NBUF"
    using xs by (metis card_lessThan distinct_card dlist_def order_refl)
  let ?f = "find (\<lambda>b. b_dev (bufs s b) = ROOTDEV \<and> b_blockno (bufs s b) = n) xs"
  have f: "bget_find (Suc NBUF) (bufs s) ROOTDEV n (b_next (bufs s bhead)) = Inr ?f"
    using xs(1) len by (intro bget_find_eq) (auto simp: dlist_def)
  show ?thesis
  proof (cases ?f)
    case (Some b)
    then have b: "b < NBUF" "b_dev (bufs s b) = ROOTDEV" "b_blockno (bufs s b) = n"
      using xs(2) by (auto dest: find_SomeD)
    then have "b \<notin> H" using h by (auto simp: blocks_of_def)
    show ?thesis
    proof (rule that)
      show "bread ROOTDEV n s = Inr (b, loaded b n P i s)"
        using i b \<open>b \<notin> H\<close> f Some by (intro bread_hit) auto
    qed (use b \<open>b \<notin> H\<close> in \<open>simp_all add: loadable_def\<close>)
  next
    case None
    then have none: "\<not> (b_dev (bufs s c) = ROOTDEV \<and> b_blockno (bufs s c) = n)" if "c < NBUF" for c
      using that xs(2) by (auto simp: find_None_iff)
    let ?l = "find (\<lambda>b. b_refcnt (bufs s b) = 0) (rev xs)"
    have l: "bget_lru (Suc NBUF) (bufs s) (b_prev (bufs s bhead)) = Inr ?l"
      using xs(1) len by (intro bget_lru_eq) (auto simp: dlist_def)
    have "n \<notin> blocks_of s P"
      using none bcache_inv_range [OF i(1)] bcache_inv_dev [OF i(1)] by (auto simp: blocks_of_def)
    then have "card (H \<union> P) < NBUF" using c by (simp add: room_def)
    then obtain d where d: "d < NBUF" "d \<notin> H \<union> P" using bcache_free_exists [OF i(1)] by blast
    then have "b_refcnt (bufs s d) = 0" using bcache_invD(1) [OF i(1) d(1)] by simp
    then have "?l \<noteq> None" using d(1) xs(2) by (auto simp: find_None_iff)
    then obtain b where lb: "?l = Some b" by blast
    then have b: "b_refcnt (bufs s b) = 0" "b \<in> set (rev xs)" by (auto dest: find_SomeD)
    then have bn: "b < NBUF" using xs(2) by simp
    have "b \<notin> H" "b \<notin> P" using bcache_invD(1) [OF i(1) bn] b(1) by auto
    show ?thesis
    proof (rule that)
      show "bread ROOTDEV n s = Inr (b, loaded b n P i s)"
        using i bn b(1) none f None l lb by (intro bread_miss) auto
    qed (use bn \<open>b \<notin> H\<close> \<open>b \<notin> P\<close> none in \<open>simp_all add: loadable_def\<close>)
  qed
qed

text \<open>Changing one buffer, with its place in the list.\<close>

lemma bcache_inv_upd:
  assumes "bcache_inv s H P" and "b < NBUF"
    and "bufs t = (bufs s)(b := y)" and "disk t = disk s" and "curpid t = curpid s"
    and "b_next y = b_next (bufs s b)" and "b_prev y = b_prev (bufs s b)"
    and "\<And>c. c \<noteq> b \<Longrightarrow> (c \<in> H') = (c \<in> H) \<and> (c \<in> P') = (c \<in> P)"
    and "buf_unique t" and "buf_wf t H' P' b"
  shows "bcache_inv t H' P'"
proof -
  obtain xs where xs: "dlist (bufs s) xs" "set xs = {..<NBUF}" using assms(1) by (auto simp: bcache_inv_def)
  have "dlist (bufs t) xs = dlist (bufs s) xs" using assms(3,6,7) by (intro dlist_cong) auto
  moreover have "buf_wf t H' P' c" if "c < NBUF" for c
  proof (cases "c = b")
    case False
    then have "buf_wf s H P c" "bufs t c = bufs s c" using that assms(1,3) by (auto simp: bcache_inv_def)
    then show ?thesis using assms(4,5) assms(8) [OF False] by (simp add: buf_wf_def)
  qed (use assms(10) in simp)
  moreover have "H' \<union> P' \<subseteq> {..<NBUF}"
  proof
    fix c assume "c \<in> H' \<union> P'"
    then show "c \<in> {..<NBUF}" using assms(2) assms(8) [of c] bcache_inv_range [OF assms(1), of c] by (cases "c = b") auto
  qed
  ultimately show ?thesis using xs assms(9) by (auto simp: bcache_inv_def)
qed

lemma buf_unique_upd:
  assumes "buf_unique s" and "bufs t = (bufs s)(b := y)"
    and "b_dev y = b_dev (bufs s b) \<and> b_blockno y = b_blockno (bufs s b) \<or>
      (\<forall>c<NBUF. b_dev (bufs s c) = ROOTDEV \<longrightarrow> b_blockno (bufs s c) \<noteq> b_blockno y)"
  shows "buf_unique t"
  unfolding buf_unique_def
proof (intro allI impI, elim conjE)
  fix c d assume cd: "c < NBUF" "d < NBUF" "b_dev (bufs t c) = ROOTDEV" "b_dev (bufs t d) = ROOTDEV"
    "b_blockno (bufs t c) = b_blockno (bufs t d)"
  have u: "b_dev (bufs s c) = ROOTDEV \<Longrightarrow> b_dev (bufs s d) = ROOTDEV \<Longrightarrow>
      b_blockno (bufs s c) = b_blockno (bufs s d) \<Longrightarrow> c = d"
    using assms(1) cd(1,2) unfolding buf_unique_def by blast
  show "c = d"
  proof (rule ccontr)
    assume "c \<noteq> d"
    then consider "c = b" "d \<noteq> b" | "d = b" "c \<noteq> b" | "c \<noteq> b" "d \<noteq> b" by blast
    then show False
    proof cases
      case 1
      then show False using assms(2,3) cd u \<open>c \<noteq> d\<close> by auto
    next
      case 2
      then show False using assms(2,3) cd u \<open>c \<noteq> d\<close> by auto
    next
      case 3
      then show False using assms(2) cd u \<open>c \<noteq> d\<close> by simp
    qed
  qed
qed

lemma loaded_bufs:
  "bufs (loaded b n P i s) = (bufs s)(b := (bufs s b)\<lparr>b_dev := ROOTDEV, b_blockno := n, b_valid := True,
     b_refcnt := of_bool (b \<in> P) + 1, b_lock := \<lparr>sl_locked = True, sl_pid = i\<rparr>, b_data := view s n\<rparr>)"
  by (simp add: loaded_def upd_buf_def)

lemma loaded_eq: "loaded b n P i s = s\<lparr>bufs := bufs (loaded b n P i s)\<rparr>"
  by (simp add: loaded_def upd_buf_def)

lemma loaded_frame:
  "disk (loaded b n P i s) = disk s" "dtrace (loaded b n P i s) = dtrace s"
  "curpid (loaded b n P i s) = curpid s" "io_frame s (loaded b n P i s)"
proof -
  show "disk (loaded b n P i s) = disk s" "dtrace (loaded b n P i s) = dtrace s"
    "curpid (loaded b n P i s) = curpid s"
    by (simp_all add: loaded_def upd_buf_def curpid_def myproc_def cpuid_def)
  have "procs (loaded b n P i s) p = (procs s p)\<lparr>pstate := pstate (procs s p)\<rparr>" for p
    by (simp add: loaded_def upd_buf_def)
  then have "\<forall>p. \<exists>st. procs (loaded b n P i s) p = (procs s p)\<lparr>pstate := st\<rparr>" by blast
  then show "io_frame s (loaded b n P i s)"
    unfolding io_frame_def by (simp add: loaded_def upd_buf_def)
qed

lemma loaded_unique:
  assumes "buf_unique s" and "loadable b n P s"
  shows "buf_unique (loaded b n P i s)"
  using assms(2) unfolding loadable_def
  by (intro buf_unique_upd [OF assms(1) loaded_bufs]) auto

lemma loaded_inv:
  assumes "bcache_inv s H P" and "curpid s = Some i" and "b < NBUF" and "b \<notin> H" and "loadable b n P s"
  shows "bcache_inv (loaded b n P i s) (insert b H) P"
proof (rule bcache_inv_upd [OF assms(1,3) loaded_bufs])
  show "buf_unique (loaded b n P i s)" using assms by (intro loaded_unique) (simp_all add: bcache_inv_unique)
  show "buf_wf (loaded b n P i s) (insert b H) P b"
    using assms(2) by (simp add: buf_wf_def loaded_bufs loaded_frame)
qed (simp_all add: loaded_frame)

lemma loaded_view:
  assumes i: "bcache_inv s H P" and b: "b < NBUF" "b \<notin> H" and l: "loadable b n P s"
  shows "view (loaded b n P i s) m = view s m"
proof (cases "b_valid (bufs s b) \<and> b_dev (bufs s b) = ROOTDEV \<and> b_blockno (bufs s b) = n")
  case True
  then have "view s n = b_data (bufs s b)"
    using b(1) by (intro view_cached bcache_inv_unique [OF i]) auto
  then show ?thesis using True
    by (intro view_cong) (auto simp: loaded_bufs loaded_frame buf_same_def)
next
  case False
  have nb: "\<not> (b_valid (bufs s c) \<and> b_dev (bufs s c) = ROOTDEV \<and> b_blockno (bufs s c) = n)" if "c < NBUF" for c
    using that False l bcache_inv_unique [OF i] b(1) by (auto simp: loadable_def buf_unique_def)
  then have v: "view s n = disk s n" by (intro view_uncached) blast
  have "b \<in> P \<Longrightarrow> b_valid (bufs s b) \<and> b_dev (bufs s b) = ROOTDEV"
    using bcache_invD(6) [OF i b(1)] bcache_inv_dev [OF i] by blast
  then have "b \<notin> P" using False l by (auto simp: loadable_def)
  then have cl: "buf_clean s b" using bcache_invD(7) [OF i b(1)] b(2) by (auto simp: buf_clean_def)
  show ?thesis
  proof (rule view_change_clean [OF bcache_inv_unique [OF i] loaded_unique [OF bcache_inv_unique [OF i] l]])
    show "buf_clean (loaded b n P i s) b" using v by (simp add: buf_clean_def loaded_bufs loaded_frame)
  qed (use cl in \<open>auto simp: loaded_bufs loaded_frame buf_same_def\<close>)
qed

text \<open>Reading a block: with one buffer to spare and no held buffer for the block, \<open>bread\<close>
  returns a locked buffer with the block's contents, and changes no block.\<close>

lemma bread_ok:
  assumes "bcache_inv s H P" and "curpid s = Some i"
    and "n \<notin> blocks_of s H" and "room s H P n"
  shows "must (bread ROOTDEV n s) (\<lambda>(b, t). b < NBUF \<and> b \<notin> H \<and> bcache_inv t (insert b H) P \<and>
    b_blockno (bufs t b) = n \<and> b_data (bufs t b) = view s n \<and> (\<forall>m. view t m = view s m) \<and>
    t = s\<lparr>bufs := bufs t\<rparr> \<and> (\<forall>c. c \<noteq> b \<longrightarrow> bufs t c = bufs s c) \<and> (b \<in> P \<longrightarrow> b_blockno (bufs s b) = n))"
proof -
  obtain b where b: "bread ROOTDEV n s = Inr (b, loaded b n P i s)" "b < NBUF" "b \<notin> H" "loadable b n P s"
    using bread_loaded [OF assms] by blast
  define t where "t = loaded b n P i s"
  have t: "bcache_inv t (insert b H) P" "view t m = view s m" "t = s\<lparr>bufs := bufs t\<rparr>" for m
    unfolding t_def using loaded_inv [OF assms(1,2) b(2-4)] loaded_view [OF assms(1) b(2-4)] loaded_eq by blast+
  have u: "b_blockno (bufs t b) = n" "b_data (bufs t b) = view s n" "c \<noteq> b \<Longrightarrow> bufs t c = bufs s c" for c
    by (simp_all add: t_def loaded_bufs)
  have "b \<in> P \<Longrightarrow> b_blockno (bufs s b) = n" using b(4) by (auto simp: loadable_def)
  then show ?thesis using b(1-3) t u unfolding t_def [symmetric] by auto
qed

lemma curpid_bufs [simp]: "curpid (s\<lparr>bufs := B\<rparr>) = curpid s"
  "curpid (s\<lparr>disk := D\<rparr>) = curpid s" "curpid (s\<lparr>dtrace := T\<rparr>) = curpid s"
  by (simp_all add: curpid_def myproc_def cpuid_def)

lemma move_front_inv:
  assumes "bcache_inv s H P" and "b < NBUF"
  shows "bcache_inv (s\<lparr>bufs := list_push b (list_unlink b (bufs s))\<rparr>) H P"
proof -
  obtain xs where xs: "dlist (bufs s) xs" "set xs = {..<NBUF}" using assms(1) by (auto simp: bcache_inv_def)
  then have "dlist (list_push b (list_unlink b (bufs s))) (b # remove1 b xs)"
    using assms(2) by (intro dlist_move_front) auto
  moreover have "set (b # remove1 b xs) = {..<NBUF}"
    using xs assms(2) by (auto simp: dlist_def)
  ultimately have "\<exists>ys. dlist (list_push b (list_unlink b (bufs s))) ys \<and> set ys = {..<NBUF}" by blast
  moreover have "buf_unique (s\<lparr>bufs := list_push b (list_unlink b (bufs s))\<rparr>) = buf_unique s"
    by (simp add: buf_unique_def)
  moreover have "buf_wf (s\<lparr>bufs := list_push b (list_unlink b (bufs s))\<rparr>) H P c = buf_wf s H P c" for c
    by (simp add: buf_wf_def Let_def)
  ultimately show ?thesis using assms(1) by (simp add: bcache_inv_def)
qed

text \<open>Overwriting the data of a held buffer.\<close>

definition set_data :: "nat \<Rightarrow> bytes \<Rightarrow> 'a kbio_scheme \<Rightarrow> 'a kbio_scheme" where
  "set_data b d s = upd_buf b (\<lambda>x. x\<lparr>b_data := d\<rparr>) s"

lemma set_data_bufs: "bufs (set_data b d s) = (bufs s)(b := (bufs s b)\<lparr>b_data := d\<rparr>)"
  and set_data_eq: "set_data b d s = s\<lparr>bufs := (bufs s)(b := (bufs s b)\<lparr>b_data := d\<rparr>)\<rparr>"
  and set_data_frame [simp]: "disk (set_data b d s) = disk s" "dtrace (set_data b d s) = dtrace s"
    "curpid (set_data b d s) = curpid s"
  by (simp_all add: set_data_def upd_buf_def)

lemma set_data_inv:
  assumes "bcache_inv s H P" and "b \<in> H"
  shows "bcache_inv (set_data b d s) H P"
proof -
  have b: "b < NBUF" using assms bcache_inv_range by blast
  show ?thesis
  proof (rule bcache_inv_upd [OF assms(1) b set_data_bufs])
    show "buf_unique (set_data b d s)"
      by (rule buf_unique_upd [OF bcache_inv_unique [OF assms(1)] set_data_bufs]) simp
    show "buf_wf (set_data b d s) H P b"
      using bcache_invD [OF assms(1) b] assms(2) by (auto simp: buf_wf_def set_data_bufs)
  qed simp_all
qed

lemma view_held:
  assumes "bcache_inv s H P" and "b \<in> H \<union> P"
  shows "view s (b_blockno (bufs s b)) = b_data (bufs s b)"
  using assms bcache_inv_range bcache_inv_dev bcache_invD(6) bcache_inv_unique
  by (intro view_cached) blast+

lemma view_set_data:
  assumes "bcache_inv s H P" and "b \<in> H"
  shows "view (set_data b d s) m = (if m = b_blockno (bufs s b) then d else view s m)"
proof (cases "m = b_blockno (bufs s b)")
  case True
  then show ?thesis using view_held [OF set_data_inv [OF assms], of b d] assms(2) by (simp add: set_data_bufs)
next
  case False
  then have "cached (set_data b d s) m = cached s m"
    unfolding cached_def by (intro find_cong) (auto simp: set_data_bufs)
  moreover have "cached s m = Some c \<Longrightarrow> c \<noteq> b" for c
    using False unfolding cached_def by (auto dest: find_SomeD)
  ultimately show ?thesis using False
    by (auto simp: view_def set_data_bufs split: option.split)
qed

lemma bwrite_ok:
  assumes "bcache_inv s H P" and "b \<in> H"
  defines "n \<equiv> b_blockno (bufs s b)" and "d \<equiv> b_data (bufs s b)"
  shows "bwrite b s = Inr (s\<lparr>disk := (disk s)(n := d), dtrace := dtrace s @ [(n, d)]\<rparr>)"
    and "bcache_inv (s\<lparr>disk := (disk s)(n := d), dtrace := dtrace s @ [(n, d)]\<rparr>) H P"
    and "view (s\<lparr>disk := (disk s)(n := d), dtrace := dtrace s @ [(n, d)]\<rparr>) m = view s m"
proof -
  let ?t = "s\<lparr>disk := (disk s)(n := d), dtrace := dtrace s @ [(n, d)]\<rparr>"
  have b: "b < NBUF" using assms(1,2) bcache_inv_range by blast
  note w = bcache_invD [OF assms(1) b]
  obtain i where "curpid s = Some i" "sl_pid (b_lock (bufs s b)) = i" using w(3) assms(2) by blast
  then show "bwrite b s = Inr ?t"
    using w(2) assms(2) by (simp add: bwrite_def holdingsleep_eq disk_transfer_def n_def d_def Let_def)
  have bd: "b_dev (bufs s b) = ROOTDEV" using assms(1,2) bcache_inv_dev by blast
  have wf: "buf_wf ?t H P c" if c: "c < NBUF" for c
  proof -
    note v = bcache_invD [OF assms(1) c]
    have "b_data (bufs s c) = (if b_blockno (bufs s c) = n then d else disk s (b_blockno (bufs s c)))"
      if "b_valid (bufs s c)" "c \<notin> H \<union> P"
    proof -
      have "c \<noteq> b" using that assms(2) by blast
      moreover have "b_dev (bufs s c) = ROOTDEV" using v(4,5) that(1) by blast
      ultimately have "b_blockno (bufs s c) \<noteq> n"
        using bcache_inv_unique [OF assms(1)] bd b c unfolding buf_unique_def n_def by blast
      then show ?thesis using v(7) that by simp
    qed
    then show ?thesis using v by (simp add: buf_wf_def)
  qed
  then show "bcache_inv ?t H P" using assms(1) by (simp add: bcache_inv_def buf_unique_def)
  show "view ?t m = view s m"
  proof (cases "m = n")
    case True
    have "view s n = d" using view_held [OF assms(1)] assms(2) by (simp add: n_def d_def)
    moreover have "view ?t n = d" using view_held [OF \<open>bcache_inv ?t H P\<close>, of b] assms(2) by (simp add: n_def d_def)
    ultimately show ?thesis using True by simp
  qed (simp add: view_def cached_def split: option.split)
qed

text \<open>The core of \<open>brelse\<close>: unlock and drop one reference.\<close>

lemma brelse_core:
  fixes s :: "'a kbio_scheme"
  assumes i: "bcache_inv s H P" and b: "b \<in> H"
    and c: "b \<in> P \<or> b_data (bufs s b) = disk s (b_blockno (bufs s b))"
  defines "y \<equiv> (bufs s b)\<lparr>b_lock := \<lparr>sl_locked = False, sl_pid = 0\<rparr>, b_refcnt := of_bool (b \<in> P)\<rparr>"
  defines "t \<equiv> (wakeup (ChBufLock b) s)\<lparr>bufs := (bufs s)(b := y)\<rparr>"
  shows "brelse b s = Inr (if b \<in> P then t else t\<lparr>bufs := list_push b (list_unlink b (bufs t))\<rparr>)"
    and "bcache_inv t (H - {b}) P"
proof -
  have bn: "b < NBUF" using i b bcache_inv_range by blast
  note w = bcache_invD [OF i bn]
  obtain j where j: "curpid s = Some j" "sl_pid (b_lock (bufs s b)) = j" using w(3) b by blast
  have r: "dec32 (b_refcnt (bufs s b)) = of_bool (b \<in> P)" using w(1) b by (auto simp: dec32_Suc)
  have wb: "bufs (wakeup (ChBufLock b) s) = bufs s" by (simp add: wakeup_def)
  show "brelse b s = Inr (if b \<in> P then t else t\<lparr>bufs := list_push b (list_unlink b (bufs t))\<rparr>)"
    using w(2) b j r
    by (simp add: brelse_def holdingsleep_eq releasesleep_def upd_buf_def Let_def t_def y_def wb)
  have u: "bufs t = (bufs s)(b := y)" by (simp add: t_def)
  show "bcache_inv t (H - {b}) P"
  proof (rule bcache_inv_upd [OF i bn u])
    show "buf_unique t" by (rule buf_unique_upd [OF bcache_inv_unique [OF i] u]) (simp add: y_def)
    show "buf_wf t (H - {b}) P b"
      using w b c by (auto simp: buf_wf_def t_def y_def Let_def wakeup_def)
    show "disk t = disk s" by (simp add: t_def wakeup_def)
  qed (simp_all add: t_def y_def)
qed

lemma brelse_ok:
  assumes i: "bcache_inv s H P" and b: "b \<in> H"
    and c: "b \<in> P \<or> b_data (bufs s b) = disk s (b_blockno (bufs s b))"
  shows "must (brelse b s) (\<lambda>t. bcache_inv t (H - {b}) P \<and> (\<forall>m. view t m = view s m) \<and>
    io_frame s t \<and> disk t = disk s \<and> dtrace t = dtrace s \<and> (\<forall>c. buf_same (bufs t c) (bufs s c)))"
proof -
  have bn: "b < NBUF" using i b bcache_inv_range by blast
  define y where "y = (bufs s b)\<lparr>b_lock := \<lparr>sl_locked = False, sl_pid = 0\<rparr>, b_refcnt := of_bool (b \<in> P)\<rparr>"
  define t where "t = (wakeup (ChBufLock b) s)\<lparr>bufs := (bufs s)(b := y)\<rparr>"
  define u where "u = (if b \<in> P then t else t\<lparr>bufs := list_push b (list_unlink b (bufs t))\<rparr>)"
  have r: "brelse b s = Inr u" and t: "bcache_inv t (H - {b}) P"
    using brelse_core [OF assms] by (simp_all add: u_def t_def y_def)
  have "bcache_inv u (H - {b}) P" using t bn by (simp add: u_def move_front_inv)
  moreover have same: "buf_same (bufs u c) (bufs s c)" for c
    by (simp add: u_def t_def y_def buf_same_def)
  moreover have d: "disk u = disk s" "dtrace u = dtrace s" by (simp_all add: u_def t_def wakeup_def)
  moreover have "view u m = view s m" for m
    using d(1) same by (intro view_cong) auto
  moreover have "io_frame s u"
  proof -
    have "u = s\<lparr>bufs := bufs u, disk := disk u, dtrace := dtrace u, procs := procs u\<rparr>"
      by (simp add: u_def t_def wakeup_def)
    moreover have "procs u = procs (wakeup (ChBufLock b) s)" by (simp add: u_def t_def)
    ultimately show ?thesis using wakeup_io_frame [of s "ChBufLock b"] by (simp add: io_frame_def)
  qed
  ultimately show ?thesis by (simp add: r)
qed

lemma bpin_ok:
  assumes i: "bcache_inv s H P" and b: "b \<in> H" "b \<notin> P"
  shows "bcache_inv (bpin b s) H (insert b P)"
proof -
  have bn: "b < NBUF" using i b bcache_inv_range by blast
  have u: "bufs (bpin b s) = (bufs s)(b := (bufs s b)\<lparr>b_refcnt := Suc (Suc 0)\<rparr>)"
    using bcache_invD(1) [OF i bn] b by (simp add: bpin_def upd_buf_def inc32_def)
  show ?thesis
  proof (rule bcache_inv_upd [OF i bn u])
    show "buf_unique (bpin b s)" by (rule buf_unique_upd [OF bcache_inv_unique [OF i] u]) simp
    show "buf_wf (bpin b s) H (insert b P) b"
      using bcache_invD [OF i bn] b unfolding buf_wf_def u by (auto simp: bpin_def upd_buf_def)
  qed (simp_all add: bpin_def upd_buf_def)
qed

lemma bunpin_ok:
  assumes i: "bcache_inv s H P" and b: "b \<in> H" "b \<in> P"
  shows "bcache_inv (bunpin b s) H (P - {b})"
proof -
  have bn: "b < NBUF" using i b bcache_inv_range by blast
  have u: "bufs (bunpin b s) = (bufs s)(b := (bufs s b)\<lparr>b_refcnt := 1\<rparr>)"
    using bcache_invD(1) [OF i bn] b by (simp add: bunpin_def upd_buf_def dec32_def)
  show ?thesis
  proof (rule bcache_inv_upd [OF i bn u])
    show "buf_unique (bunpin b s)" by (rule buf_unique_upd [OF bcache_inv_unique [OF i] u]) simp
    show "buf_wf (bunpin b s) H (P - {b}) b"
      using bcache_invD [OF i bn] b unfolding buf_wf_def u by (auto simp: bunpin_def upd_buf_def)
  qed (simp_all add: bunpin_def upd_buf_def)
qed

lemma bpin_view [simp]: "view (bpin b s) m = view s m" "view (bunpin b s) m = view s m"
  by (rule view_cong; simp add: bpin_def bunpin_def upd_buf_def buf_same_def)+

text \<open>A block that no held or pinned buffer holds is what the disk holds.\<close>

lemma view_disk:
  assumes "bcache_inv s H P" and "n \<notin> blocks_of s (H \<union> P)"
  shows "view s n = disk s n"
proof (rule view_uncached)
  fix b assume b: "b < NBUF" "b_dev (bufs s b) = ROOTDEV" "b_blockno (bufs s b) = n" "b_valid (bufs s b)"
  then have "b \<notin> H \<union> P" using assms(2) by (auto simp: blocks_of_def)
  then show "b_data (bufs s b) = disk s n" using bcache_invD(7) [OF assms(1) b(1)] b(3,4) by simp
qed

lemma blocks_of_same: "(\<And>b. b \<in> X \<Longrightarrow> b_blockno (bufs t b) = b_blockno (bufs s b)) \<Longrightarrow> blocks_of t X = blocks_of s X"
  by (simp add: blocks_of_def)

lemma blocks_of_simps [simp]:
  "blocks_of s {} = {}" "blocks_of s (insert b X) = insert (b_blockno (bufs s b)) (blocks_of s X)"
  "blocks_of s (X \<union> Y) = blocks_of s X \<union> blocks_of s Y"
  by (auto simp: blocks_of_def)

lemma bcache_inv_blockno_inj:
  assumes "bcache_inv s H P" and "b \<in> H \<union> P" and "c \<in> H \<union> P" and "b_blockno (bufs s b) = b_blockno (bufs s c)"
  shows "b = c"
  using bcache_inv_unique [OF assms(1)] bcache_inv_range [OF assms(1)] bcache_inv_dev [OF assms(1)] assms(2-4)
  unfolding buf_unique_def by blast

section \<open>Frames that need no invariant\<close>

lemma io_frame_upd_buf: "io_frame s (upd_buf b f s)"
proof -
  have "\<exists>st. procs s p = (procs s p)\<lparr>pstate := st\<rparr>" for p
    by (rule exI [of _ "pstate (procs s p)"]) simp
  then show ?thesis by (simp add: io_frame_def upd_buf_def)
qed

lemma io_frame_transfer: "io_frame s (disk_transfer b w s)"
proof -
  have "\<exists>st. procs s p = (procs s p)\<lparr>pstate := st\<rparr>" for p
    by (rule exI [of _ "pstate (procs s p)"]) simp
  then show ?thesis by (simp add: disk_transfer_def Let_def io_frame_upd_buf) (simp add: io_frame_def)
qed

lemma bread_io_frame: "bread dev n s = Inr (b, t) \<Longrightarrow> io_frame s t"
  by (auto simp: bread_def bget_def buf_acquire_def Let_def kbind_eq_Inr
      intro!: io_frame_upd_buf io_frame_trans [OF _ io_frame_upd_buf] io_frame_trans [OF _ io_frame_transfer]
      split: option.splits if_splits)

lemma bwrite_io_frame: "bwrite b s = Inr t \<Longrightarrow> io_frame s t"
  by (auto simp: bwrite_def kbind_eq_Inr io_frame_transfer split: if_splits)

lemma io_frame_list: "io_frame s t \<Longrightarrow> io_frame s (t\<lparr>bufs := B\<rparr>)"
proof -
  assume a: "io_frame s t"
  have "\<exists>st. procs t p = (procs t p)\<lparr>pstate := st\<rparr>" for p
    by (rule exI [of _ "pstate (procs t p)"]) simp
  then have "io_frame t (t\<lparr>bufs := B\<rparr>)" by (simp add: io_frame_def)
  with a show ?thesis by (rule io_frame_trans)
qed

lemma brelse_io_frame: "brelse b s = Inr t \<Longrightarrow> io_frame s t"
  using io_frame_trans [OF wakeup_io_frame [of s "ChBufLock b"] io_frame_trans [OF io_frame_upd_buf io_frame_upd_buf]]
  by (auto simp: brelse_def releasesleep_def kbind_eq_Inr Let_def io_frame_list split: if_splits)

section \<open>Initial state and exhaustion\<close>

definition bufs_zero :: "'a kbio_scheme \<Rightarrow> bool" where
  "bufs_zero s \<longleftrightarrow> (\<forall>b<NBUF. b_refcnt (bufs s b) = 0 \<and> b_dev (bufs s b) = 0 \<and> \<not> b_valid (bufs s b))"

lemma binit_loop_dlist:
  "dpath B bhead [] bhead \<Longrightarrow> k \<le> NBUF \<Longrightarrow> dlist (binit_loop k B) (rev [0..<k])"
proof (induction k)
  case (Suc k)
  have "dlist (binit_loop k B) (rev [0..<k])" using Suc by simp
  then have "dlist ((binit_loop k B)(k := (binit_loop k B k)\<lparr>b_lock := initsleeplock\<rparr>)) (rev [0..<k])"
    by (subst dlist_cong) auto
  then show ?case using Suc.prems dlist_push [of _ "rev [0..<k]" k] by (simp add: Let_def)
qed (simp add: dlist_def)

lemma binit_loop_fields:
  "b_refcnt (binit_loop k B x) = b_refcnt (B x)" "b_dev (binit_loop k B x) = b_dev (B x)"
  "b_valid (binit_loop k B x) = b_valid (B x)" "b_blockno (binit_loop k B x) = b_blockno (B x)"
  "b_lock (binit_loop k B x) = (if x < k then initsleeplock else b_lock (B x))"
  by (induction k) (auto simp: Let_def)

lemma binit_inv:
  assumes "bufs_zero s"
  shows "bcache_inv (binit s) {} {}"
proof -
  have "dlist (bufs (binit s)) (rev [0..<NBUF])"
    unfolding binit_def by (simp del: upt_Suc) (rule binit_loop_dlist, simp_all)
  moreover have "set (rev [0..<NBUF]) = {..<NBUF}" by auto
  ultimately have "\<exists>xs. dlist (bufs (binit s)) xs \<and> set xs = {..<NBUF}" by blast
  moreover have "buf_wf (binit s) {} {} b" if "b < NBUF" for b
    using assms that by (auto simp: buf_wf_def binit_def binit_loop_fields bufs_zero_def initsleeplock_def)
  moreover have "buf_unique (binit s)"
    using assms by (auto simp: buf_unique_def binit_def binit_loop_fields bufs_zero_def)
  ultimately show ?thesis by (auto simp: bcache_inv_def)
qed

lemma bread_no_buffers:
  assumes i: "bcache_inv s H P" and full: "H \<union> P = {..<NBUF}" and n: "n \<notin> blocks_of s (H \<union> P)"
  shows "bread ROOTDEV n s = Inl (Panic ''bget: no buffers'')"
proof -
  obtain xs where xs: "dlist (bufs s) xs" "set xs = {..<NBUF}" using i by (auto simp: bcache_inv_def)
  have len: "length xs \<le> NBUF" using xs by (metis card_lessThan distinct_card dlist_def order_refl)
  have "find (\<lambda>b. b_dev (bufs s b) = ROOTDEV \<and> b_blockno (bufs s b) = n) xs = None"
    using n xs(2) unfolding full by (auto simp: find_None_iff blocks_of_def)
  then have f: "bget_find (Suc NBUF) (bufs s) ROOTDEV n (b_next (bufs s bhead)) = Inr None"
    using bget_find_eq [of "bufs s" bhead xs NBUF ROOTDEV n] xs(1) len by (simp add: dlist_def)
  have "b_refcnt (bufs s b) \<noteq> 0" if "b < NBUF" for b
    using bcache_invD(1) [OF i that] full that by auto
  then have "find (\<lambda>b. b_refcnt (bufs s b) = 0) (rev xs) = None"
    using xs(2) by (auto simp: find_None_iff)
  then have "bget_lru (Suc NBUF) (bufs s) (b_prev (bufs s bhead)) = Inr None"
    using bget_lru_eq [of "bufs s" xs bhead NBUF] xs(1) len by (simp add: dlist_def)
  then show ?thesis using f by (simp add: bread_def bget_def)
qed

end
