(* ===== verification/Log.thy ===== *)
theory Log
  imports Bcache
begin

text \<open>
  The write-ahead log, \<open>kernel/log.c\<close>: the in-memory and on-disk header, absorption and
  pinning in \<open>log_write\<close>, admission in \<open>begin_op\<close>, the commit protocol and recovery.

  The header block is read and written at the byte offsets of \<open>struct logheader\<close>: \<open>n\<close> at 0
  and \<open>block[i]\<close> at \<open>4 + 4 * i\<close>. An access past \<open>log.lh.block[LOGBLOCKS - 1]\<close> is a fault.
  Waiting in \<open>begin_op\<close> is the result \<open>Inl (Sleeps ChLog)\<close>. A block write is taken to reach the
  disk whole or not at all; the header's fields lie in the first sector of its block.
\<close>

section \<open>State\<close>

record klog = kbio +
  log_start :: nat
  log_dev :: nat
  log_outstanding :: int
  log_committing :: bool
  lh_n :: int
  lh_block :: "nat \<Rightarrow> nat"

text \<open>The fields of a header block.\<close>

definition hdr_n :: "bytes \<Rightarrow> int" where
  "hdr_n d = wrap32 (int (le_load d 0 4))"

definition hdr_block :: "bytes \<Rightarrow> nat \<Rightarrow> nat" where
  "hdr_block d i = le_load d (4 + 4 * i) 4"

definition hdr_set_n :: "bytes \<Rightarrow> int \<Rightarrow> bytes" where
  "hdr_set_n d n = le_store d 0 4 (nat (n mod 2 ^ 32))"

definition hdr_set_block :: "bytes \<Rightarrow> nat \<Rightarrow> nat \<Rightarrow> bytes" where
  "hdr_set_block d i v = le_store d (4 + 4 * i) 4 v"

definition lh_get :: "'a klog_scheme \<Rightarrow> nat \<Rightarrow> nat kres" where
  "lh_get s i = (if i < LOGBLOCKS then Inr (lh_block s i) else Inl (Fault ''log.lh.block''))"

section \<open>Installing, reading and writing the header\<close>

text \<open>The loops count the rounds left: \<open>tail\<close> comes first, then the number of
  rounds up to \<open>log.lh.n\<close>. \<open>install_copy\<close> and \<open>write_log_copy\<close> are the loop bodies.\<close>

definition install_copy :: "bool \<Rightarrow> nat \<Rightarrow> 'a klog_scheme \<Rightarrow> 'a klog_scheme kres" where
  "install_copy recovering tail s =
     kbind (bread (log_dev s) (log_start s + tail + 1) s) (\<lambda>(lbuf, s).
     kbind (lh_get s tail) (\<lambda>dst.
     kbind (bread (log_dev s) dst s) (\<lambda>(dbuf, s).
     kbind (bwrite dbuf (set_data dbuf (b_data (bufs s lbuf)) s)) (\<lambda>s.
     kbind (brelse lbuf (if \<not> recovering then bunpin dbuf s else s)) (\<lambda>s.
     brelse dbuf s)))))"

fun install_loop :: "bool \<Rightarrow> nat \<Rightarrow> nat \<Rightarrow> 'a klog_scheme \<Rightarrow> 'a klog_scheme kres" where
  "install_loop recovering tail 0 s = Inr s"
| "install_loop recovering tail (Suc k) s =
     kbind (install_copy recovering tail s) (install_loop recovering (Suc tail) k)"

definition install_trans :: "bool \<Rightarrow> 'a klog_scheme \<Rightarrow> 'a klog_scheme kres" where
  "install_trans recovering s = install_loop recovering 0 (nat (lh_n s)) s"

fun read_head_loop :: "bytes \<Rightarrow> nat \<Rightarrow> nat \<Rightarrow> 'a klog_scheme \<Rightarrow> 'a klog_scheme kres" where
  "read_head_loop d i 0 s = Inr s"
| "read_head_loop d i (Suc k) s =
     (if i < LOGBLOCKS
      then read_head_loop d (Suc i) k (s\<lparr>lh_block := (lh_block s)(i := hdr_block d i)\<rparr>)
      else Inl (Fault ''log.lh.block''))"

definition read_head :: "'a klog_scheme \<Rightarrow> 'a klog_scheme kres" where
  "read_head s =
     kbind (bread (log_dev s) (log_start s) s) (\<lambda>(b, s).
     let d = b_data (bufs s b); s = s\<lparr>lh_n := hdr_n d\<rparr>
     in kbind (read_head_loop d 0 (nat (lh_n s)) s) (\<lambda>s. brelse b s))"

fun write_head_loop :: "nat \<Rightarrow> nat \<Rightarrow> (nat \<Rightarrow> nat) \<Rightarrow> bytes \<Rightarrow> bytes kres" where
  "write_head_loop i 0 f d = Inr d"
| "write_head_loop i (Suc k) f d =
     (if i < LOGBLOCKS then write_head_loop (Suc i) k f (hdr_set_block d i (f i))
      else Inl (Fault ''log.lh.block''))"

definition write_head :: "'a klog_scheme \<Rightarrow> 'a klog_scheme kres" where
  "write_head s =
     kbind (bread (log_dev s) (log_start s) s) (\<lambda>(b, s).
     kbind (write_head_loop 0 (nat (lh_n s)) (lh_block s) (hdr_set_n (b_data (bufs s b)) (lh_n s))) (\<lambda>d.
     kbind (bwrite b (set_data b d s)) (\<lambda>s. brelse b s)))"

definition recover_from_log :: "'a klog_scheme \<Rightarrow> 'a klog_scheme kres" where
  "recover_from_log s =
     kbind (read_head s) (\<lambda>s.
     kbind (install_trans True s) (\<lambda>s.
     write_head (s\<lparr>lh_n := 0\<rparr>)))"

definition initlog :: "nat \<Rightarrow> nat \<Rightarrow> 'a klog_scheme \<Rightarrow> 'a klog_scheme kres" where
  "initlog dev logstart s =
     (if 4 + 4 * LOGBLOCKS \<ge> BSIZE then Inl (Panic ''initlog: too big logheader'')
      else recover_from_log (s\<lparr>log_start := logstart, log_dev := dev\<rparr>))"

section \<open>Operations\<close>

definition begin_op :: "'a klog_scheme \<Rightarrow> 'a klog_scheme kres" where
  "begin_op s =
     (if log_committing s then Inl (Sleeps ChLog)
      else if lh_n s + (log_outstanding s + 1) * int MAXOPBLOCKS > int LOGBLOCKS then Inl (Sleeps ChLog)
      else Inr (s\<lparr>log_outstanding := log_outstanding s + 1\<rparr>))"

definition write_log_copy :: "nat \<Rightarrow> 'a klog_scheme \<Rightarrow> 'a klog_scheme kres" where
  "write_log_copy tail s =
     kbind (bread (log_dev s) (log_start s + tail + 1) s) (\<lambda>(to, s).
     kbind (lh_get s tail) (\<lambda>src.
     kbind (bread (log_dev s) src s) (\<lambda>(from, s).
     kbind (bwrite to (set_data to (b_data (bufs s from)) s)) (\<lambda>s.
     kbind (brelse from s) (\<lambda>s.
     brelse to s)))))"

fun write_log_loop :: "nat \<Rightarrow> nat \<Rightarrow> 'a klog_scheme \<Rightarrow> 'a klog_scheme kres" where
  "write_log_loop tail 0 s = Inr s"
| "write_log_loop tail (Suc k) s = kbind (write_log_copy tail s) (write_log_loop (Suc tail) k)"

definition write_log :: "'a klog_scheme \<Rightarrow> 'a klog_scheme kres" where
  "write_log s = write_log_loop 0 (nat (lh_n s)) s"

definition commit :: "'a klog_scheme \<Rightarrow> 'a klog_scheme kres" where
  "commit s =
     (if lh_n s > 0
      then kbind (write_log s) (\<lambda>s.
           kbind (write_head s) (\<lambda>s.
           kbind (install_trans False s) (\<lambda>s.
           write_head (s\<lparr>lh_n := 0\<rparr>))))
      else Inr s)"

definition end_op :: "'a klog_scheme \<Rightarrow> 'a klog_scheme kres" where
  "end_op s =
     (let s = s\<lparr>log_outstanding := log_outstanding s - 1\<rparr>
      in if log_committing s then Inl (Panic ''log.committing'')
         else if log_outstanding s = 0
         then kbind (commit (s\<lparr>log_committing := True\<rparr>)) (\<lambda>s.
              Inr (wakeup ChLog (s\<lparr>log_committing := False\<rparr>)))
         else Inr (wakeup ChLog s))"

text \<open>The search of \<open>log_write\<close> for an entry to absorb the write: the index of the first match,
  or \<open>log.lh.n\<close>.\<close>

fun absorb_index :: "nat \<Rightarrow> nat \<Rightarrow> (nat \<Rightarrow> nat) \<Rightarrow> nat \<Rightarrow> nat" where
  "absorb_index i 0 f n = i"
| "absorb_index i (Suc k) f n = (if f i = n then i else absorb_index (Suc i) k f n)"

definition log_write :: "nat \<Rightarrow> 'a klog_scheme \<Rightarrow> 'a klog_scheme kres" where
  "log_write b s =
     (if lh_n s \<ge> int LOGBLOCKS then Inl (Panic ''too big a transaction'')
      else if log_outstanding s < 1 then Inl (Panic ''log_write outside of trans'')
      else let i = absorb_index 0 (nat (lh_n s)) (lh_block s) (b_blockno (bufs s b));
               s = s\<lparr>lh_block := (lh_block s)(i := b_blockno (bufs s b))\<rparr>
           in Inr (if int i = lh_n s then (bpin b s)\<lparr>lh_n := lh_n s + 1\<rparr> else s))"

section \<open>Elimination forms of the cache contracts\<close>

lemma pstate_same [simp]: "\<exists>st. q = q\<lparr>pstate := st\<rparr>"
  by (rule exI [of _ "pstate q"]) simp

lemma io_frame_bufs: "t = s\<lparr>bufs := bufs t\<rparr> \<Longrightarrow> io_frame s t"
proof -
  assume t: "t = s\<lparr>bufs := bufs t\<rparr>"
  have "io_frame s (s\<lparr>bufs := B\<rparr>)" for B
    by (simp add: io_frame_def)
  then show ?thesis by (subst t)
qed

lemma io_frame_disk: "io_frame s (s\<lparr>disk := D, dtrace := T\<rparr>)"
  by (simp add: io_frame_def)

lemma io_frame_set_data: "io_frame s (set_data b d s)"
  by (simp add: io_frame_def set_data_eq)

lemma io_frame_pin: "io_frame s (bpin b s)" "io_frame s (bunpin b s)"
  by (simp_all add: io_frame_def bpin_def bunpin_def upd_buf_def)

lemma io_frame_log:
  fixes s t :: "'a klog_scheme"
  assumes "io_frame s t"
  shows "log_start t = log_start s" "log_dev t = log_dev s" "log_outstanding t = log_outstanding s"
    "log_committing t = log_committing s" "lh_n t = lh_n s" "lh_block t = lh_block s"
proof -
  have t: "t = s\<lparr>bufs := bufs t, disk := disk t, dtrace := dtrace t, procs := procs t\<rparr>"
    using assms by (simp add: io_frame_def)
  show "log_start t = log_start s" "log_dev t = log_dev s" "log_outstanding t = log_outstanding s"
    "log_committing t = log_committing s" "lh_n t = lh_n s" "lh_block t = lh_block s"
    by (subst t, simp)+
qed

lemma breadE:
  assumes "bcache_inv s H P" and "curpid s = Some i" and "n \<notin> blocks_of s H" and "room s H P n"
  obtains b t where "bread ROOTDEV n s = Inr (b, t)" "b < NBUF" "b \<notin> H" "bcache_inv t (insert b H) P"
    "b_blockno (bufs t b) = n" "b_data (bufs t b) = view s n" "view t = view s" "t = s\<lparr>bufs := bufs t\<rparr>"
    "\<forall>c. c \<noteq> b \<longrightarrow> bufs t c = bufs s c" "blocks_of t P = blocks_of s P" "io_frame s t" "curpid t = Some i"
    "disk t = disk s" "dtrace t = dtrace s"
proof -
  obtain b t where b: "bread ROOTDEV n s = Inr (b, t)" "b < NBUF" "b \<notin> H" "bcache_inv t (insert b H) P"
    "b_blockno (bufs t b) = n" "b_data (bufs t b) = view s n" "\<forall>m. view t m = view s m" "t = s\<lparr>bufs := bufs t\<rparr>"
    "\<forall>c. c \<noteq> b \<longrightarrow> bufs t c = bufs s c" "b \<in> P \<longrightarrow> b_blockno (bufs s b) = n"
    using bread_ok [OF assms] by (auto simp: must_iff)
  have "disk t = disk s" "dtrace t = dtrace s" by (subst b(8), simp)+
  moreover have "b_blockno (bufs t c) = b_blockno (bufs s c)" if "c \<in> P" for c
    using b(5,9,10) that by (cases "c = b") auto
  then have "blocks_of t P = blocks_of s P" by (rule blocks_of_same)
  moreover have "io_frame s t" by (rule io_frame_bufs [OF b(8)])
  ultimately show ?thesis
    using that [OF b(1-6) ext b(8)] b(7,9) assms(2) io_frame_curpid by metis
qed

lemma brelseE:
  assumes "bcache_inv s H P" and "b \<in> H" and "b \<in> P \<or> b_data (bufs s b) = disk s (b_blockno (bufs s b))"
  obtains t where "brelse b s = Inr t" "bcache_inv t (H - {b}) P" "view t = view s" "io_frame s t"
    "disk t = disk s" "dtrace t = dtrace s" "\<forall>c. b_blockno (bufs t c) = b_blockno (bufs s c)"
    "\<forall>c. b_data (bufs t c) = b_data (bufs s c)"
proof -
  obtain t where t: "brelse b s = Inr t" "bcache_inv t (H - {b}) P" "\<forall>m. view t m = view s m" "io_frame s t"
    "disk t = disk s" "dtrace t = dtrace s" "\<forall>c. buf_same (bufs t c) (bufs s c)"
    using brelse_ok [OF assms] by (auto simp: must_iff)
  show ?thesis by (rule that [OF t(1,2) ext]) (use t in \<open>auto simp: buf_same_def\<close>)
qed

section \<open>One block of the log\<close>

lemma write_log_copy_ok:
  fixes s :: "'a klog_scheme"
  assumes i: "bcache_inv s {} P" "curpid s = Some i" and dev: "log_dev s = ROOTDEV"
    and tail: "tail < LOGBLOCKS" and cap: "card P < NBUF"
    and lg: "log_start s + tail + 1 \<notin> blocks_of s P" and dst: "lh_block s tail \<in> blocks_of s P"
  defines "lg \<equiv> log_start s + tail + 1" and "d \<equiv> view s (lh_block s tail)"
  obtains t where "write_log_copy tail s = Inr t" "bcache_inv t {} P" "io_frame s t"
    "disk t = (disk s)(lg := d)" "dtrace t = dtrace s @ [(lg, d)]" "view t = (view s)(lg := d)"
    "blocks_of t P = blocks_of s P"
proof -
  have r: "lg \<notin> blocks_of s {}" "room s {} P lg" using cap by (simp_all add: room_def)
  obtain b1 s1 where b1: "bread ROOTDEV lg s = Inr (b1, s1)" "b1 < NBUF" "b1 \<notin> {}" "bcache_inv s1 {b1} P"
    "b_blockno (bufs s1 b1) = lg" "b_data (bufs s1 b1) = view s lg" "view s1 = view s" "s1 = s\<lparr>bufs := bufs s1\<rparr>"
    "\<forall>c. c \<noteq> b1 \<longrightarrow> bufs s1 c = bufs s c" "blocks_of s1 P = blocks_of s P" "io_frame s s1" "curpid s1 = Some i"
    "disk s1 = disk s" "dtrace s1 = dtrace s"
    by (rule breadE [OF i r])
  note l1 = io_frame_log [OF b1(11)]
  have r2: "lh_block s tail \<notin> blocks_of s1 {b1}" "room s1 {b1} P (lh_block s tail)"
    using lg dst b1(5,10) by (auto simp: lg_def room_def)
  obtain b2 s2 where b2: "bread ROOTDEV (lh_block s tail) s1 = Inr (b2, s2)" "b2 < NBUF" "b2 \<notin> {b1}"
    "bcache_inv s2 {b2, b1} P" "b_blockno (bufs s2 b2) = lh_block s tail" "b_data (bufs s2 b2) = view s1 (lh_block s tail)"
    "view s2 = view s1" "s2 = s1\<lparr>bufs := bufs s2\<rparr>" "\<forall>c. c \<noteq> b2 \<longrightarrow> bufs s2 c = bufs s1 c"
    "blocks_of s2 P = blocks_of s1 P" "io_frame s1 s2" "curpid s2 = Some i" "disk s2 = disk s1" "dtrace s2 = dtrace s1"
    by (rule breadE [OF b1(4,12) r2])
  have d2: "b_data (bufs s2 b2) = d" using b2(6) b1(7) by (simp add: d_def)
  have "b2 \<in> P"
  proof -
    have "lh_block s tail \<in> blocks_of s2 P" using dst b2(10) b1(10) by simp
    then obtain c where "c \<in> P" "b_blockno (bufs s2 c) = lh_block s tail"
      unfolding blocks_of_def by force
    then show ?thesis using bcache_inv_blockno_inj [OF b2(4), of c b2] b2(5) by auto
  qed
  have k: "b_blockno (bufs s2 b1) = lg" using b2(3,9) b1(5) by auto
  define s3 where "s3 = set_data b1 d s2"
  have i3: "bcache_inv s3 {b2, b1} P" unfolding s3_def by (rule set_data_inv [OF b2(4)]) simp
  have n3: "b_blockno (bufs s3 b1) = lg" "b_data (bufs s3 b1) = d" "b_blockno (bufs s3 c) = b_blockno (bufs s2 c)" for c
    using k by (simp_all add: s3_def set_data_bufs)
  have v3: "view s3 = (view s)(lg := d)"
    by (rule ext) (simp add: s3_def view_set_data [OF b2(4)] k b2(7) b1(7))
  define s4 where "s4 = s3\<lparr>disk := (disk s3)(lg := d), dtrace := dtrace s3 @ [(lg, d)]\<rparr>"
  have w: "bwrite b1 s3 = Inr s4" "bcache_inv s4 {b2, b1} P" "view s4 m = view s3 m" for m
    using bwrite_ok [OF i3, of b1] n3(1,2) by (simp_all add: s4_def)
  obtain s5 where s5: "brelse b2 s4 = Inr s5" "bcache_inv s5 ({b2, b1} - {b2}) P" "view s5 = view s4" "io_frame s4 s5"
    "disk s5 = disk s4" "dtrace s5 = dtrace s4" "\<forall>c. b_blockno (bufs s5 c) = b_blockno (bufs s4 c)"
    "\<forall>c. b_data (bufs s5 c) = b_data (bufs s4 c)"
    by (rule brelseE [OF w(2), of b2]) (use \<open>b2 \<in> P\<close> in simp_all)
  have c5: "b1 \<in> P \<or> b_data (bufs s5 b1) = disk s5 (b_blockno (bufs s5 b1))" "b1 \<in> {b2, b1} - {b2}"
    using s5 n3 b2(3) by (simp_all add: s4_def)
  obtain t where t: "brelse b1 s5 = Inr t" "bcache_inv t ({b2, b1} - {b2} - {b1}) P" "view t = view s5" "io_frame s5 t"
    "disk t = disk s5" "dtrace t = dtrace s5" "\<forall>c. b_blockno (bufs t c) = b_blockno (bufs s5 c)"
    "\<forall>c. b_data (bufs t c) = b_data (bufs s5 c)"
    by (rule brelseE [OF s5(2) c5(2,1)])
  have "write_log_copy tail s = Inr t"
    using b1(1) b2(1) w(1) s5(1) t(1) l1 dev tail d2
    by (simp add: write_log_copy_def lg_def lh_get_def s3_def)
  moreover have "bcache_inv t {} P" using t(2) by (rule back_subst [of "\<lambda>H. bcache_inv t H P"]) auto
  moreover have "io_frame s t"
  proof -
    have "io_frame s2 s3" "io_frame s3 s4" unfolding s3_def s4_def by (rule io_frame_set_data io_frame_disk)+
    then show ?thesis using b1(11) b2(11) s5(4) t(4) by (meson io_frame_trans)
  qed
  moreover have "blocks_of t P = blocks_of s P"
    using b2(10) b1(10) t(7) s5(7) n3(3) by (simp add: blocks_of_def s4_def)
  moreover have "view t = (view s)(lg := d)" using t(3) s5(3) w(3) v3 by auto
  ultimately show ?thesis
    using that t(5,6) s5(5,6) b2(13,14) b1(13,14) by (simp add: s4_def s3_def)
qed

lemma install_copy_ok:
  fixes s :: "'a klog_scheme"
  assumes i: "bcache_inv s {} P" "curpid s = Some i" and dev: "log_dev s = ROOTDEV"
    and tail: "tail < LOGBLOCKS" and cap: "card P < NBUF" "recovering \<longrightarrow> card P + 1 < NBUF"
    and lg: "log_start s + tail + 1 \<notin> insert (lh_block s tail) (blocks_of s P)"
    and dst: "recovering \<longleftrightarrow> lh_block s tail \<notin> blocks_of s P"
  defines "lg \<equiv> log_start s + tail + 1" and "n \<equiv> lh_block s tail"
  obtains t Q where "install_copy recovering tail s = Inr t" "bcache_inv t {} Q" "io_frame s t"
    "disk t = (disk s)(n := view s lg)" "dtrace t = dtrace s @ [(n, view s lg)]"
    "view t = (view s)(n := view s lg)" "blocks_of t Q = blocks_of s P - {n}" "card Q \<le> card P"
proof -
  define d where "d = view s lg"
  have fin: "finite P" using i(1) by (auto simp: bcache_inv_def intro: finite_subset [of _ "{..<30}"])
  have r: "lg \<notin> blocks_of s {}" "room s {} P lg" using cap by (simp_all add: room_def)
  obtain b1 s1 where b1: "bread ROOTDEV lg s = Inr (b1, s1)" "b1 < NBUF" "b1 \<notin> {}" "bcache_inv s1 {b1} P"
    "b_blockno (bufs s1 b1) = lg" "b_data (bufs s1 b1) = view s lg" "view s1 = view s" "s1 = s\<lparr>bufs := bufs s1\<rparr>"
    "\<forall>c. c \<noteq> b1 \<longrightarrow> bufs s1 c = bufs s c" "blocks_of s1 P = blocks_of s P" "io_frame s s1" "curpid s1 = Some i"
    "disk s1 = disk s" "dtrace s1 = dtrace s"
    by (rule breadE [OF i r])
  have b1P: "b1 \<notin> P"
  proof
    assume "b1 \<in> P"
    then have "lg \<in> blocks_of s1 P" unfolding blocks_of_def using b1(5) by force
    then show False using lg b1(10) by (simp add: lg_def)
  qed
  note l1 = io_frame_log [OF b1(11)]
  have "card ({b1} \<union> P) < NBUF" if "recovering"
    using that cap(2) fin b1P by simp
  then have r2: "n \<notin> blocks_of s1 {b1}" "room s1 {b1} P n"
    using lg dst b1(5,10) by (auto simp: lg_def n_def room_def)
  obtain b2 s2 where b2: "bread ROOTDEV n s1 = Inr (b2, s2)" "b2 < NBUF" "b2 \<notin> {b1}"
    "bcache_inv s2 {b2, b1} P" "b_blockno (bufs s2 b2) = n" "b_data (bufs s2 b2) = view s1 n"
    "view s2 = view s1" "s2 = s1\<lparr>bufs := bufs s2\<rparr>" "\<forall>c. c \<noteq> b2 \<longrightarrow> bufs s2 c = bufs s1 c"
    "blocks_of s2 P = blocks_of s1 P" "io_frame s1 s2" "curpid s2 = Some i" "disk s2 = disk s1" "dtrace s2 = dtrace s1"
    by (rule breadE [OF b1(4,12) r2])
  have bP: "b2 \<in> P \<longleftrightarrow> \<not> recovering"
  proof
    assume "b2 \<in> P"
    then have "n \<in> blocks_of s2 P" unfolding blocks_of_def using b2(5) by force
    then show "\<not> recovering" using dst b2(10) b1(10) by (simp add: n_def)
  next
    assume "\<not> recovering"
    then have "n \<in> blocks_of s2 P" using dst b2(10) b1(10) by (simp add: n_def)
    then obtain c where "c \<in> P" "b_blockno (bufs s2 c) = n" unfolding blocks_of_def by force
    then show "b2 \<in> P" using bcache_inv_blockno_inj [OF b2(4), of c b2] b2(5) by auto
  qed
  have k: "b_blockno (bufs s2 b1) = lg" "b_data (bufs s2 b1) = d" using b2(3,9) b1(5,6) by (auto simp: d_def)
  have dlg: "disk s2 lg = d"
    using view_disk [OF i(1), of lg] lg b1(13) b2(13) by (simp add: d_def lg_def)
  define s3 where "s3 = set_data b2 d s2"
  have i3: "bcache_inv s3 {b2, b1} P" unfolding s3_def by (rule set_data_inv [OF b2(4)]) simp
  have n3: "b_blockno (bufs s3 b2) = n" "b_data (bufs s3 b2) = d" "bufs s3 b1 = bufs s2 b1"
    "b_blockno (bufs s3 c) = b_blockno (bufs s2 c)" for c
    using b2(3,5) by (simp_all add: s3_def set_data_bufs)
  have v3: "view s3 = (view s)(n := d)"
    by (rule ext) (simp add: s3_def view_set_data [OF b2(4)] b2(5,7) b1(7))
  define s4 where "s4 = s3\<lparr>disk := (disk s3)(n := d), dtrace := dtrace s3 @ [(n, d)]\<rparr>"
  have w: "bwrite b2 s3 = Inr s4" "bcache_inv s4 {b2, b1} P" "view s4 m = view s3 m" for m
    using bwrite_ok [OF i3, of b2] n3(1,2) by (simp_all add: s4_def)
  define Q where "Q = (if recovering then P else P - {b2})"
  define s5 where "s5 = (if \<not> recovering then bunpin b2 s4 else s4)"
  have i5: "bcache_inv s5 {b2, b1} Q" using w(2) bP by (simp add: s5_def Q_def bunpin_ok)
  have n5: "b_blockno (bufs s5 c) = b_blockno (bufs s2 c)" "b_data (bufs s5 c) = b_data (bufs s3 c)"
    "disk s5 = (disk s)(n := d)" "dtrace s5 = dtrace s @ [(n, d)]" "view s5 = view s3" "io_frame s s5" for c
  proof -
    have "io_frame s2 s3" "io_frame s3 s4" "io_frame s4 s5" unfolding s3_def s4_def s5_def
      by (simp_all add: io_frame_set_data io_frame_disk io_frame_pin)
    then show "io_frame s s5" using b1(11) b2(11) by (meson io_frame_trans)
    show "view s5 = view s3" by (rule ext) (simp add: s5_def w(3))
  qed (use b1(13,14) b2(13,14) n3(4) in \<open>auto simp: s5_def s4_def s3_def bunpin_def upd_buf_def\<close>)
  have c5: "b1 \<in> {b2, b1}" "b1 \<in> Q \<or> b_data (bufs s5 b1) = disk s5 (b_blockno (bufs s5 b1))"
    using n5(1-3) n3(3) k dlg lg b2(13) b1(13) by (simp_all add: lg_def n_def)
  obtain s6 where s6: "brelse b1 s5 = Inr s6" "bcache_inv s6 ({b2, b1} - {b1}) Q" "view s6 = view s5" "io_frame s5 s6"
    "disk s6 = disk s5" "dtrace s6 = dtrace s5" "\<forall>c. b_blockno (bufs s6 c) = b_blockno (bufs s5 c)"
    "\<forall>c. b_data (bufs s6 c) = b_data (bufs s5 c)"
    by (rule brelseE [OF i5 c5])
  have c6: "b2 \<in> {b2, b1} - {b1}" "b2 \<in> Q \<or> b_data (bufs s6 b2) = disk s6 (b_blockno (bufs s6 b2))"
    using b2(3,5) s6(5,7,8) n5(1-3) n3(2) by simp_all
  obtain t where t: "brelse b2 s6 = Inr t" "bcache_inv t ({b2, b1} - {b1} - {b2}) Q" "view t = view s6" "io_frame s6 t"
    "disk t = disk s6" "dtrace t = dtrace s6" "\<forall>c. b_blockno (bufs t c) = b_blockno (bufs s6 c)"
    "\<forall>c. b_data (bufs t c) = b_data (bufs s6 c)"
    by (rule brelseE [OF s6(2) c6])
  have "install_copy recovering tail s = Inr t"
    using b1(1) b2(1) w(1) s6(1) t(1) l1 dev tail k(2)
    by (simp add: install_copy_def lg_def lh_get_def n_def s3_def s5_def)
  moreover have "bcache_inv t {} Q" using t(2) by (rule back_subst [of "\<lambda>H. bcache_inv t H Q"]) auto
  moreover have "io_frame s t" using n5(6) s6(4) t(4) by (meson io_frame_trans)
  moreover have "blocks_of t Q = blocks_of s P - {n}"
  proof -
    have "blocks_of t Q = blocks_of s2 Q" using t(7) s6(7) n5(1) by (simp add: blocks_of_def)
    also have "\<dots> = blocks_of s2 P - {n}"
    proof -
      have "b_blockno (bufs s2 c) \<noteq> n" if "c \<in> Q" for c
      proof
        assume "b_blockno (bufs s2 c) = n"
        moreover have "c \<in> P" using that by (auto simp: Q_def split: if_splits)
        ultimately have "c = b2" using bcache_inv_blockno_inj [OF b2(4), of c b2] b2(5) by simp
        then show False using that bP by (auto simp: Q_def split: if_splits)
      qed
      moreover have "c \<in> Q" if "c \<in> P" "b_blockno (bufs s2 c) \<noteq> n" for c
        using that b2(5) by (auto simp: Q_def)
      moreover have "Q \<subseteq> P" by (auto simp: Q_def)
      ultimately show ?thesis by (auto simp: blocks_of_def)
    qed
    finally show ?thesis using b2(10) b1(10) by simp
  qed
  moreover have "card Q \<le> card P" using fin by (auto simp: Q_def intro: card_mono)
  ultimately show ?thesis
    using that t(3,5,6) s6(3,5,6) n5(3,4,5) v3 unfolding d_def by metis
qed

end
