(* ===== verification/Log_Commit.thy ===== *)
theory Log_Commit
  imports Log
begin

text \<open>
  Correctness of the commit protocol and of recovery: the sequence of disk writes each
  performs, and what recovery makes of any prefix of such a sequence.
\<close>

section \<open>The header block\<close>

lemma wrap32_id: "- (2 ^ 31) \<le> n \<Longrightarrow> n < 2 ^ 31 \<Longrightarrow> wrap32 n = n"
  by (simp add: wrap32_def)

lemma hdr_n_set_n: "0 \<le> n \<Longrightarrow> n < 2 ^ 31 \<Longrightarrow> hdr_n (hdr_set_n d n) = n"
  by (simp add: hdr_n_def hdr_set_n_def le_load_store wrap32_id)

lemma hdr_n_set_block [simp]: "hdr_n (hdr_set_block d i v) = hdr_n d"
  by (simp add: hdr_n_def hdr_set_block_def le_load_store_disjoint)

lemma hdr_block_set_block:
  "v < 2 ^ 32 \<Longrightarrow> hdr_block (hdr_set_block d i v) j = (if i = j then v else hdr_block d j)"
proof (cases "i = j")
  case False
  then have "4 + 4 * i + 4 \<le> 4 + 4 * j \<or> 4 + 4 * j + 4 \<le> 4 + 4 * i" by linarith
  then show ?thesis using False unfolding hdr_block_def hdr_set_block_def by (simp add: le_load_store_disjoint)
qed (simp add: hdr_block_def hdr_set_block_def le_load_store)

lemma view_same: "bufs t = bufs s \<Longrightarrow> disk t = disk s \<Longrightarrow> view t = view s"
  by (rule ext) (simp add: view_def cached_def split: option.split)

lemma write_head_loop_ok:
  "i + k \<le> LOGBLOCKS \<Longrightarrow> (\<And>j. i \<le> j \<Longrightarrow> j < i + k \<Longrightarrow> f j < 2 ^ 32) \<Longrightarrow>
   must (write_head_loop i k f d) (\<lambda>h. hdr_n h = hdr_n d \<and>
     (\<forall>j. hdr_block h j = (if i \<le> j \<and> j < i + k then f j else hdr_block d j)))"
proof (induction k arbitrary: i d)
  case (Suc k)
  have "must (write_head_loop (Suc i) k f (hdr_set_block d i (f i))) (\<lambda>h. hdr_n h = hdr_n (hdr_set_block d i (f i)) \<and>
      (\<forall>j. hdr_block h j = (if Suc i \<le> j \<and> j < Suc i + k then f j else hdr_block (hdr_set_block d i (f i)) j)))"
    using Suc.prems by (intro Suc.IH) auto
  moreover have "f i < 2 ^ 32" using Suc.prems(2) [of i] by simp
  ultimately show ?case using Suc.prems(1) by (auto simp: must_iff hdr_block_set_block)
qed auto

lemma read_head_loop_ok:
  "i + k \<le> LOGBLOCKS \<Longrightarrow>
   read_head_loop d i k s =
     Inr (s\<lparr>lh_block := (\<lambda>j. if i \<le> j \<and> j < i + k then hdr_block d j else lh_block s j)\<rparr>)"
proof (induction k arbitrary: i s)
  case 0
  have "(\<lambda>j. if i \<le> j \<and> j < i + 0 then hdr_block d j else lh_block s j) = lh_block s" by auto
  then show ?case by (simp only: read_head_loop.simps) simp
next
  case (Suc k)
  let ?s = "s\<lparr>lh_block := (lh_block s)(i := hdr_block d i)\<rparr>"
  have e: "(\<lambda>j. if Suc i \<le> j \<and> j < Suc i + k then hdr_block d j else lh_block ?s j) =
      (\<lambda>j. if i \<le> j \<and> j < i + Suc k then hdr_block d j else lh_block s j)"
    by (auto simp: fun_eq_iff)
  have "read_head_loop d (Suc i) k ?s =
      Inr (?s\<lparr>lh_block := (\<lambda>j. if Suc i \<le> j \<and> j < Suc i + k then hdr_block d j else lh_block ?s j)\<rparr>)"
    using Suc.prems by (intro Suc.IH) simp
  then show ?case using Suc.prems unfolding e by simp
qed

lemma write_head_ok:
  fixes s :: "'a klog_scheme"
  assumes i: "bcache_inv s {} P" "curpid s = Some i" and dev: "log_dev s = ROOTDEV" and cap: "card P < NBUF"
    and st: "log_start s \<notin> blocks_of s P" and n: "0 \<le> lh_n s" "lh_n s \<le> int LOGBLOCKS"
    and b: "\<And>j. j < nat (lh_n s) \<Longrightarrow> lh_block s j < 2 ^ 32"
  obtains t h where "write_head s = Inr t" "bcache_inv t {} P" "io_frame s t"
    "hdr_n h = lh_n s" "\<forall>j<nat (lh_n s). hdr_block h j = lh_block s j"
    "disk t = (disk s)(log_start s := h)" "dtrace t = dtrace s @ [(log_start s, h)]"
    "view t = (view s)(log_start s := h)" "blocks_of t P = blocks_of s P"
proof -
  have r: "log_start s \<notin> blocks_of s {}" "room s {} P (log_start s)" using cap by (simp_all add: room_def)
  obtain b1 s1 where b1: "bread ROOTDEV (log_start s) s = Inr (b1, s1)" "b1 < NBUF" "b1 \<notin> {}" "bcache_inv s1 {b1} P"
    "b_blockno (bufs s1 b1) = log_start s" "b_data (bufs s1 b1) = view s (log_start s)" "view s1 = view s" "s1 = s\<lparr>bufs := bufs s1\<rparr>"
    "\<forall>c. c \<noteq> b1 \<longrightarrow> bufs s1 c = bufs s c" "blocks_of s1 P = blocks_of s P" "io_frame s s1" "curpid s1 = Some i"
    "disk s1 = disk s" "dtrace s1 = dtrace s"
    by (rule breadE [OF i r])
  note l1 = io_frame_log [OF b1(11)]
  have n': "nat (lh_n s) \<le> LOGBLOCKS" using n by simp
  obtain h where h: "write_head_loop 0 (nat (lh_n s)) (lh_block s) (hdr_set_n (b_data (bufs s1 b1)) (lh_n s)) = Inr h"
    "hdr_n h = lh_n s" "\<forall>j<nat (lh_n s). hdr_block h j = lh_block s j"
    using write_head_loop_ok [of 0 "nat (lh_n s)" "lh_block s" "hdr_set_n (b_data (bufs s1 b1)) (lh_n s)"] n b n'
    by (auto simp: must_iff hdr_n_set_n)
  define s3 where "s3 = set_data b1 h s1"
  have i3: "bcache_inv s3 {b1} P" unfolding s3_def by (rule set_data_inv [OF b1(4)]) simp
  have n3: "b_blockno (bufs s3 b1) = log_start s" "b_data (bufs s3 b1) = h" "b_blockno (bufs s3 c) = b_blockno (bufs s1 c)" for c
    using b1(5) by (simp_all add: s3_def set_data_bufs)
  have v3: "view s3 = (view s)(log_start s := h)"
    by (rule ext) (simp add: s3_def view_set_data [OF b1(4)] b1(5,7))
  define s4 where "s4 = s3\<lparr>disk := (disk s3)(log_start s := h), dtrace := dtrace s3 @ [(log_start s, h)]\<rparr>"
  have w: "bwrite b1 s3 = Inr s4" "bcache_inv s4 {b1} P" "view s4 m = view s3 m" for m
    using bwrite_ok [OF i3, of b1] n3(1,2) by (simp_all add: s4_def)
  have c5: "b1 \<in> {b1}" "b1 \<in> P \<or> b_data (bufs s4 b1) = disk s4 (b_blockno (bufs s4 b1))"
    using n3 by (simp_all add: s4_def)
  obtain t where t: "brelse b1 s4 = Inr t" "bcache_inv t ({b1} - {b1}) P" "view t = view s4" "io_frame s4 t"
    "disk t = disk s4" "dtrace t = dtrace s4" "\<forall>c. b_blockno (bufs t c) = b_blockno (bufs s4 c)"
    "\<forall>c. b_data (bufs t c) = b_data (bufs s4 c)"
    by (rule brelseE [OF w(2) c5])
  have "write_head s = Inr t" using b1(1) h(1) w(1) t(1) l1 dev by (simp add: write_head_def s3_def)
  moreover have "io_frame s t"
  proof -
    have "io_frame s1 s3" "io_frame s3 s4" unfolding s3_def s4_def by (rule io_frame_set_data io_frame_disk)+
    then show ?thesis using b1(11) t(4) by (meson io_frame_trans)
  qed
  moreover have "blocks_of t P = blocks_of s P" using b1(10) t(7) n3(3) by (simp add: blocks_of_def s4_def)
  moreover have "view t = (view s)(log_start s := h)" using t(3) w(3) v3 by auto
  ultimately show ?thesis using that h(2,3) t(2,5,6) b1(13,14) by (simp add: s4_def s3_def)
qed

lemma read_head_ok:
  fixes s :: "'a klog_scheme"
  assumes i: "bcache_inv s {} P" "curpid s = Some i" and dev: "log_dev s = ROOTDEV" and cap: "card P < NBUF"
    and st: "log_start s \<notin> blocks_of s P" and n: "hdr_n (disk s (log_start s)) \<le> int LOGBLOCKS"
  defines "h \<equiv> disk s (log_start s)"
  obtains t where "read_head s = Inr t" "bcache_inv t {} P" "view t = view s" "blocks_of t P = blocks_of s P"
    "io_frame (s\<lparr>lh_n := hdr_n h, lh_block := (\<lambda>j. if j < nat (hdr_n h) then hdr_block h j else lh_block s j)\<rparr>) t"
    "disk t = disk s" "dtrace t = dtrace s"
proof -
  have r: "log_start s \<notin> blocks_of s {}" "room s {} P (log_start s)" using cap by (simp_all add: room_def)
  obtain b1 s1 where b1: "bread ROOTDEV (log_start s) s = Inr (b1, s1)" "b1 < NBUF" "b1 \<notin> {}" "bcache_inv s1 {b1} P"
    "b_blockno (bufs s1 b1) = log_start s" "b_data (bufs s1 b1) = view s (log_start s)" "view s1 = view s" "s1 = s\<lparr>bufs := bufs s1\<rparr>"
    "\<forall>c. c \<noteq> b1 \<longrightarrow> bufs s1 c = bufs s c" "blocks_of s1 P = blocks_of s P" "io_frame s s1" "curpid s1 = Some i"
    "disk s1 = disk s" "dtrace s1 = dtrace s"
    by (rule breadE [OF i r])
  have h: "view s (log_start s) = h" using view_disk [OF i(1)] st by (simp add: h_def)
  let ?f = "\<lambda>j. if j < nat (hdr_n h) then hdr_block h j else lh_block s j"
  define s2 where "s2 = s1\<lparr>lh_n := hdr_n h, lh_block := ?f\<rparr>"
  have s2: "s2 = (s\<lparr>lh_n := hdr_n h, lh_block := ?f\<rparr>)\<lparr>bufs := bufs s1\<rparr>"
    unfolding s2_def by (subst b1(8)) simp
  have e: "bufs s2 = bufs s1" "disk s2 = disk s1" "dtrace s2 = dtrace s1" "curpid s2 = curpid s1"
    by (simp_all add: s2_def curpid_def myproc_def cpuid_def)
  have i2: "bcache_inv s2 {b1} P" using b1(4) e by (simp add: bcache_inv_def buf_unique_def buf_wf_def)
  have v2: "view s2 = view s1" using e by (intro view_same) simp_all
  have c2: "b1 \<in> {b1}" "b1 \<in> P \<or> b_data (bufs s2 b1) = disk s2 (b_blockno (bufs s2 b1))"
    using b1(5,6,13) e h by (simp_all add: h_def)
  obtain t where t: "brelse b1 s2 = Inr t" "bcache_inv t ({b1} - {b1}) P" "view t = view s2" "io_frame s2 t"
    "disk t = disk s2" "dtrace t = dtrace s2" "\<forall>c. b_blockno (bufs t c) = b_blockno (bufs s2 c)"
    "\<forall>c. b_data (bufs t c) = b_data (bufs s2 c)"
    by (rule brelseE [OF i2 c2])
  have lb: "lh_block (s1\<lparr>lh_n := hdr_n h\<rparr>) = lh_block s" using io_frame_log(6) [OF b1(11)] by simp
  have "0 + nat (hdr_n h) \<le> LOGBLOCKS" using n by (simp add: h_def)
  then have "read_head_loop h 0 (nat (hdr_n h)) (s1\<lparr>lh_n := hdr_n h\<rparr>) = Inr s2"
    unfolding read_head_loop_ok [OF \<open>0 + nat (hdr_n h) \<le> LOGBLOCKS\<close>] lb by (simp add: s2_def)
  then have "read_head s = Inr t" using b1(1,6) h t(1) dev by (simp add: read_head_def Let_def)
  moreover have "io_frame (s\<lparr>lh_n := hdr_n h, lh_block := ?f\<rparr>) t"
  proof -
    have "io_frame (s\<lparr>lh_n := hdr_n h, lh_block := ?f\<rparr>) s2" unfolding s2 by (rule io_frame_bufs) simp
    then show ?thesis using t(4) by (rule io_frame_trans)
  qed
  moreover have "blocks_of t P = blocks_of s P" using b1(10) t(7) e by (simp add: blocks_of_def)
  ultimately show ?thesis using that t(2,3,5,6) v2 e b1(7,13,14) by simp
qed

section \<open>The two copying loops\<close>

text \<open>The effect of a sequence of block writes.\<close>

primrec apply_writes :: "(nat \<times> bytes) list \<Rightarrow> (nat \<Rightarrow> bytes) \<Rightarrow> nat \<Rightarrow> bytes" where
  "apply_writes [] D = D"
| "apply_writes (w # ws) D = apply_writes ws (D(fst w := snd w))"

lemma apply_writes_append: "apply_writes (xs @ ys) D = apply_writes ys (apply_writes xs D)"
  by (induction xs arbitrary: D) auto

lemma apply_writes_other: "n \<notin> fst ` set ws \<Longrightarrow> apply_writes ws D n = D n"
  by (induction ws arbitrary: D) auto

lemma apply_writes_in:
  "n \<in> fst ` set ws \<Longrightarrow> (\<And>w. w \<in> set ws \<Longrightarrow> fst w = n \<Longrightarrow> snd w = d) \<Longrightarrow> apply_writes ws D n = d"
proof (induction ws arbitrary: D)
  case (Cons w ws)
  show ?case
  proof (cases "n \<in> fst ` set ws")
    case True
    then show ?thesis using Cons by simp
  next
    case False
    then show ?thesis using Cons.prems apply_writes_other [OF False] by auto
  qed
qed simp

definition log_writes :: "'a klog_scheme \<Rightarrow> nat \<Rightarrow> nat \<Rightarrow> (nat \<times> bytes) list" where
  "log_writes s i k = map (\<lambda>j. (log_start s + j + 1, view s (lh_block s j))) [i..<i + k]"

definition home_writes :: "'a klog_scheme \<Rightarrow> nat \<Rightarrow> nat \<Rightarrow> (nat \<times> bytes) list" where
  "home_writes s i k = map (\<lambda>j. (lh_block s j, view s (log_start s + j + 1))) [i..<i + k]"

lemma write_log_loop_ok:
  fixes s :: "'a klog_scheme"
  assumes "bcache_inv s {} P" and "curpid s = Some i" and "log_dev s = ROOTDEV" and "card P < NBUF"
    and "tail + k \<le> LOGBLOCKS"
    and "\<forall>j. tail \<le> j \<and> j < tail + k \<longrightarrow> log_start s + j + 1 \<notin> blocks_of s P \<and> lh_block s j \<in> blocks_of s P"
  shows "\<exists>t. write_log_loop tail k s = Inr t \<and> bcache_inv t {} P \<and> io_frame s t \<and>
    disk t = apply_writes (log_writes s tail k) (disk s) \<and> dtrace t = dtrace s @ log_writes s tail k \<and>
    view t = apply_writes (log_writes s tail k) (view s) \<and> blocks_of t P = blocks_of s P"
  using assms
proof (induction k arbitrary: tail s)
  case (Suc k)
  let ?lg = "log_start s + tail + 1" and ?d = "view s (lh_block s tail)"
  have tl: "tail < LOGBLOCKS" using Suc.prems(5) by simp
  have q: "?lg \<notin> blocks_of s P" "lh_block s tail \<in> blocks_of s P" using Suc.prems(6) by simp_all
  obtain t where t: "write_log_copy tail s = Inr t" "bcache_inv t {} P" "io_frame s t"
    "disk t = (disk s)(?lg := ?d)" "dtrace t = dtrace s @ [(?lg, ?d)]" "view t = (view s)(?lg := ?d)"
    "blocks_of t P = blocks_of s P"
    by (rule write_log_copy_ok [OF Suc.prems(1-3) tl Suc.prems(4) q])
  note l = io_frame_log [OF t(3)]
  have w: "log_writes s tail (Suc k) = (?lg, ?d) # log_writes t (Suc tail) k"
  proof -
    have "view t (lh_block s j) = view s (lh_block s j)" if "tail \<le> j" "j < tail + Suc k" for j
    proof -
      have "lh_block s j \<in> blocks_of s P" using Suc.prems(6) that by simp
      then have "lh_block s j \<noteq> ?lg" using q(1) by metis
      then show ?thesis using t(6) by simp
    qed
    then show ?thesis using l by (simp add: log_writes_def upt_conv_Cons del: upt_Suc)
  qed
  have "\<exists>u. write_log_loop (Suc tail) k t = Inr u \<and> bcache_inv u {} P \<and> io_frame t u \<and>
    disk u = apply_writes (log_writes t (Suc tail) k) (disk t) \<and> dtrace u = dtrace t @ log_writes t (Suc tail) k \<and>
    view u = apply_writes (log_writes t (Suc tail) k) (view t) \<and> blocks_of u P = blocks_of t P"
    using Suc.prems t l io_frame_curpid [OF t(3)] by (intro Suc.IH) simp_all
  then obtain u where u: "write_log_loop (Suc tail) k t = Inr u" "bcache_inv u {} P" "io_frame t u"
    "disk u = apply_writes (log_writes t (Suc tail) k) (disk t)" "dtrace u = dtrace t @ log_writes t (Suc tail) k"
    "view u = apply_writes (log_writes t (Suc tail) k) (view t)" "blocks_of u P = blocks_of t P" by blast
  have "io_frame s u" using t(3) u(3) by (rule io_frame_trans)
  then show ?case unfolding w using t u by simp
qed (simp add: log_writes_def)

lemma install_loop_ok:
  fixes s :: "'a klog_scheme"
  assumes "bcache_inv s {} P" and "curpid s = Some i" and "log_dev s = ROOTDEV" and "card P < NBUF"
    and "recovering \<longrightarrow> card P + 1 < NBUF" and "tail + k \<le> LOGBLOCKS"
    and "\<forall>j j'. tail \<le> j \<and> j < tail + k \<and> tail \<le> j' \<and> j' < tail + k \<longrightarrow> log_start s + j + 1 \<noteq> lh_block s j'"
    and "\<forall>j. tail \<le> j \<and> j < tail + k \<longrightarrow> log_start s + j + 1 \<notin> blocks_of s P \<and> (recovering \<longleftrightarrow> lh_block s j \<notin> blocks_of s P)"
    and "\<not> recovering \<longrightarrow> inj_on (lh_block s) {tail..<tail + k}"
  shows "\<exists>t Q. install_loop recovering tail k s = Inr t \<and> bcache_inv t {} Q \<and> io_frame s t \<and>
    disk t = apply_writes (home_writes s tail k) (disk s) \<and> dtrace t = dtrace s @ home_writes s tail k \<and>
    view t = apply_writes (home_writes s tail k) (view s) \<and>
    blocks_of t Q = blocks_of s P - lh_block s ` {tail..<tail + k} \<and> card Q \<le> card P"
  using assms
proof (induction k arbitrary: tail s P)
  case (Suc k)
  let ?lg = "log_start s + tail + 1" and ?n = "lh_block s tail"
  let ?d = "view s ?lg"
  have tl: "tail < LOGBLOCKS" using Suc.prems(6) by simp
  have q: "?lg \<notin> insert ?n (blocks_of s P)" "recovering \<longleftrightarrow> ?n \<notin> blocks_of s P"
    using Suc.prems(7) [rule_format, of tail tail] Suc.prems(8) [rule_format, of tail] by simp_all
  obtain t Q where t: "install_copy recovering tail s = Inr t" "bcache_inv t {} Q" "io_frame s t"
    "disk t = (disk s)(?n := ?d)" "dtrace t = dtrace s @ [(?n, ?d)]" "view t = (view s)(?n := ?d)"
    "blocks_of t Q = blocks_of s P - {?n}" "card Q \<le> card P"
    by (rule install_copy_ok [OF Suc.prems(1-3) tl Suc.prems(4,5) q])
  note l = io_frame_log [OF t(3)]
  have w: "home_writes s tail (Suc k) = (?n, ?d) # home_writes t (Suc tail) k"
  proof -
    have "view t (log_start s + j + 1) = view s (log_start s + j + 1)" if "tail \<le> j" "j < tail + Suc k" for j
      using Suc.prems(7) [rule_format, of j tail] that t(6) by simp
    then show ?thesis using l by (simp add: home_writes_def upt_conv_Cons del: upt_Suc)
  qed
  have s8: "\<forall>j. Suc tail \<le> j \<and> j < Suc tail + k \<longrightarrow>
      log_start t + j + 1 \<notin> blocks_of t Q \<and> (recovering \<longleftrightarrow> lh_block t j \<notin> blocks_of t Q)"
  proof (intro allI impI)
    fix j assume j: "Suc tail \<le> j \<and> j < Suc tail + k"
    have "lh_block s j \<noteq> ?n" if "\<not> recovering"
      using Suc.prems(9) that j inj_onD [of "lh_block s" "{tail..<tail + Suc k}" j tail] by auto
    then show "log_start t + j + 1 \<notin> blocks_of t Q \<and> (recovering \<longleftrightarrow> lh_block t j \<notin> blocks_of t Q)"
      using Suc.prems(8) [rule_format, of j] j l t(7) by auto
  qed
  have s9: "\<not> recovering \<longrightarrow> inj_on (lh_block t) {Suc tail..<Suc tail + k}"
    using Suc.prems(9) l by (auto simp: inj_on_def)
  have "\<exists>u R. install_loop recovering (Suc tail) k t = Inr u \<and> bcache_inv u {} R \<and> io_frame t u \<and>
    disk u = apply_writes (home_writes t (Suc tail) k) (disk t) \<and> dtrace u = dtrace t @ home_writes t (Suc tail) k \<and>
    view u = apply_writes (home_writes t (Suc tail) k) (view t) \<and>
    blocks_of u R = blocks_of t Q - lh_block t ` {Suc tail..<Suc tail + k} \<and> card R \<le> card Q"
    using Suc.prems t(2,8) l s8 s9 io_frame_curpid [OF t(3)] by (intro Suc.IH) auto
  then obtain u R where u: "install_loop recovering (Suc tail) k t = Inr u" "bcache_inv u {} R" "io_frame t u"
    "disk u = apply_writes (home_writes t (Suc tail) k) (disk t)" "dtrace u = dtrace t @ home_writes t (Suc tail) k"
    "view u = apply_writes (home_writes t (Suc tail) k) (view t)"
    "blocks_of u R = blocks_of t Q - lh_block t ` {Suc tail..<Suc tail + k}" "card R \<le> card Q" by blast
  have "io_frame s u" using t(3) u(3) by (rule io_frame_trans)
  moreover have "{tail..<tail + Suc k} = insert tail {Suc tail..<Suc tail + k}" by auto
  then have "blocks_of u R = blocks_of s P - lh_block s ` {tail..<tail + Suc k}" using u(7) t(7) l by auto
  moreover have "card R \<le> card P" using u(8) t(8) by simp
  ultimately show ?case unfolding w using t u by auto
qed (auto simp: home_writes_def)

section \<open>Commit and recovery\<close>

definition log_area :: "nat \<Rightarrow> nat set" where
  "log_area st = {st..st + LOGBLOCKS}"

text \<open>A running transaction: the logged blocks are distinct, lie outside the log, and are exactly
  the pinned ones; the header on disk is empty.\<close>

definition tx_inv :: "'a klog_scheme \<Rightarrow> nat set \<Rightarrow> nat set \<Rightarrow> bool" where
  "tx_inv s H P \<longleftrightarrow> bcache_inv s H P \<and> curpid s \<noteq> None \<and> log_dev s = ROOTDEV \<and>
     0 \<le> lh_n s \<and> lh_n s \<le> int LOGBLOCKS \<and> inj_on (lh_block s) {0..<nat (lh_n s)} \<and>
     blocks_of s P = lh_block s ` {0..<nat (lh_n s)} \<and>
     (\<forall>j<nat (lh_n s). lh_block s j \<notin> log_area (log_start s) \<and> lh_block s j < 2 ^ 32) \<and>
     log_start s \<notin> blocks_of s H \<and> hdr_n (disk s (log_start s)) = 0"

lemma card_pinned:
  assumes "tx_inv s H P"
  shows "card P = nat (lh_n s)"
proof -
  have i: "bcache_inv s H P" using assms by (simp add: tx_inv_def)
  have "inj_on (\<lambda>b. b_blockno (bufs s b)) P"
    using bcache_inv_blockno_inj [OF i] by (auto intro!: inj_onI)
  then have "card P = card (blocks_of s P)" by (simp add: blocks_of_def card_image)
  then show ?thesis using assms by (simp add: tx_inv_def card_image)
qed

definition hdr_ok :: "nat \<Rightarrow> (nat \<Rightarrow> bytes) \<Rightarrow> bool" where
  "hdr_ok st D \<longleftrightarrow> hdr_n (D st) \<le> int LOGBLOCKS \<and> (\<forall>j<nat (hdr_n (D st)). hdr_block (D st) j \<notin> log_area st)"

definition install_writes :: "nat \<Rightarrow> (nat \<Rightarrow> bytes) \<Rightarrow> (nat \<times> bytes) list" where
  "install_writes st D = map (\<lambda>j. (hdr_block (D st) j, D (st + j + 1))) [0..<nat (hdr_n (D st))]"

text \<open>A machine that has just started on a disk: the cache is empty or clean, and some process
  is running \<open>fsinit\<close>.\<close>

definition rebooted :: "(nat \<Rightarrow> bytes) \<Rightarrow> 'a klog_scheme \<Rightarrow> bool" where
  "rebooted D r \<longleftrightarrow> bcache_inv r {} {} \<and> curpid r \<noteq> None \<and> disk r = D"

lemma initlog_ok:
  fixes r :: "'a klog_scheme"
  assumes r: "rebooted D r" and h: "hdr_ok st D"
  shows "\<exists>u h0. initlog ROOTDEV st r = Inr u \<and> tx_inv u {} {} \<and> log_start u = st \<and> lh_n u = 0 \<and> hdr_n h0 = 0 \<and>
    dtrace u = dtrace r @ install_writes st D @ [(st, h0)] \<and>
    disk u = (apply_writes (install_writes st D) D)(st := h0)"
proof -
  define r0 where "r0 = r\<lparr>log_start := st, log_dev := ROOTDEV\<rparr>"
  obtain i where i: "curpid r = Some i" using r by (auto simp: rebooted_def)
  have r0: "bcache_inv r0 {} {}" "curpid r0 = Some i" "log_dev r0 = ROOTDEV" "log_start r0 = st" "disk r0 = D" "dtrace r0 = dtrace r"
    using r i by (auto simp: r0_def rebooted_def bcache_inv_def buf_unique_def buf_wf_def curpid_def myproc_def cpuid_def)
  have pre: "card ({}::nat set) < NBUF" "log_start r0 \<notin> blocks_of r0 {}" "hdr_n (disk r0 (log_start r0)) \<le> int LOGBLOCKS"
    using r0 h by (simp_all add: hdr_ok_def)
  define n where "n = nat (hdr_n (D st))"
  define f where "f = (\<lambda>j. if j < n then hdr_block (D st) j else lh_block r0 j)"
  obtain t where "read_head r0 = Inr t" "bcache_inv t {} {}" "view t = view r0" "blocks_of t {} = blocks_of r0 {}"
    "io_frame (r0\<lparr>lh_n := hdr_n (D st), lh_block := f\<rparr>) t" "disk t = D" "dtrace t = dtrace r"
    unfolding f_def n_def by (rule read_head_ok [OF r0(1,2,3) pre, unfolded r0(4-6)])
  note t = this(1-3,5-7)
  note l = io_frame_log [OF t(4), simplified]
  have ct: "curpid t = Some i"
    using io_frame_curpid [OF t(4)] r0(2) by (simp add: curpid_def myproc_def cpuid_def)
  have vt: "view t m = D m" for m using view_disk [OF t(2)] t(5) by simp
  have hw: "home_writes t 0 n = install_writes st D"
    using l r0(4) by (simp add: home_writes_def install_writes_def n_def f_def vt)
  have st: "\<forall>j j'. 0 \<le> j \<and> j < 0 + n \<and> 0 \<le> j' \<and> j' < 0 + n \<longrightarrow> log_start t + j + 1 \<noteq> lh_block t j'"
  proof (intro allI impI)
    fix j j' assume j: "0 \<le> j \<and> j < 0 + n \<and> 0 \<le> j' \<and> j' < 0 + n"
    have "n \<le> LOGBLOCKS" using h by (auto simp: hdr_ok_def n_def)
    then have "log_start t + j + 1 \<in> log_area st" using l r0(4) j by (auto simp: log_area_def)
    moreover have "lh_block t j' \<notin> log_area st" using h j l by (auto simp: hdr_ok_def n_def f_def)
    ultimately show "log_start t + j + 1 \<noteq> lh_block t j'" by auto
  qed
  have "\<exists>u Q. install_loop True 0 n t = Inr u \<and> bcache_inv u {} Q \<and> io_frame t u \<and>
    disk u = apply_writes (home_writes t 0 n) (disk t) \<and> dtrace u = dtrace t @ home_writes t 0 n \<and>
    view u = apply_writes (home_writes t 0 n) (view t) \<and>
    blocks_of u Q = blocks_of t {} - lh_block t ` {0..<0 + n} \<and> card Q \<le> card ({}::nat set)"
    by (rule install_loop_ok [OF t(2) ct _ _ _ _ st]) (use l r0(3) h in \<open>auto simp: hdr_ok_def n_def\<close>)
  then obtain u Q where u: "install_loop True 0 n t = Inr u" "bcache_inv u {} Q" "io_frame t u"
    "disk u = apply_writes (install_writes st D) D" "dtrace u = dtrace r @ install_writes st D"
    "blocks_of u Q = {}" using hw t(5,6) by auto
  have Q: "Q = {}" using u(6) by (simp add: blocks_of_def)
  define u0 where "u0 = u\<lparr>lh_n := 0\<rparr>"
  have u0: "bcache_inv u0 {} {}" "curpid u0 = Some i" "log_dev u0 = ROOTDEV" "log_start u0 = st"
    "lh_n u0 = 0" "disk u0 = disk u" "dtrace u0 = dtrace u"
    using u(2) Q io_frame_curpid [OF u(3)] ct io_frame_log [OF u(3)] l r0(3,4)
    by (auto simp: u0_def bcache_inv_def buf_unique_def buf_wf_def curpid_def myproc_def cpuid_def)
  have pre': "card ({}::nat set) < NBUF" "log_start u0 \<notin> blocks_of u0 {}" "0 \<le> lh_n u0" "lh_n u0 \<le> int LOGBLOCKS"
    "\<And>j. j < nat (lh_n u0) \<Longrightarrow> lh_block u0 j < 2 ^ 32" using u0(5) by simp_all
  obtain v h0 where v: "write_head u0 = Inr v" "bcache_inv v {} {}" "io_frame u0 v" "hdr_n h0 = lh_n u0"
    "disk v = (disk u0)(log_start u0 := h0)" "dtrace v = dtrace u0 @ [(log_start u0, h0)]"
    by (rule write_head_ok [OF u0(1,2,3) pre'])
  have "recover_from_log r0 = Inr v"
    using t(1) u(1) v(1) l by (simp add: recover_from_log_def install_trans_def n_def u0_def)
  then have "initlog ROOTDEV st r = Inr v" by (simp add: initlog_def r0_def)
  moreover have "tx_inv v {} {}"
    using v u0 io_frame_log [OF v(3)] io_frame_curpid [OF v(3)] by (simp add: tx_inv_def)
  ultimately show ?thesis using v(4-6) u(4,5) u0 io_frame_log [OF v(3)] by auto
qed

lemma io_frame_lh_n:
  assumes "io_frame s t"
  shows "io_frame (s\<lparr>lh_n := x\<rparr>) (t\<lparr>lh_n := x\<rparr>)"
proof -
  have "t = s\<lparr>bufs := bufs t, disk := disk t, dtrace := dtrace t, procs := procs t\<rparr>"
    using assms by (simp add: io_frame_def)
  then have "t\<lparr>lh_n := x\<rparr> = (s\<lparr>bufs := bufs t, disk := disk t, dtrace := dtrace t, procs := procs t\<rparr>)\<lparr>lh_n := x\<rparr>"
    by (rule arg_cong)
  moreover have "\<forall>p. \<exists>st. procs t p = (procs s p)\<lparr>pstate := st\<rparr>" using assms by (simp add: io_frame_def)
  ultimately show ?thesis by (simp add: io_frame_def)
qed

text \<open>The writes of a commit: the log blocks, the header with the transaction, the home blocks,
  the empty header.\<close>

definition commit_writes :: "'a klog_scheme \<Rightarrow> bytes \<Rightarrow> bytes \<Rightarrow> (nat \<times> bytes) list" where
  "commit_writes s h1 h0 = log_writes s 0 (nat (lh_n s)) @ [(log_start s, h1)] @
     map (\<lambda>j. (lh_block s j, view s (lh_block s j))) [0..<nat (lh_n s)] @ [(log_start s, h0)]"

lemma log_writes_fst: "fst ` set (log_writes s i k) = (\<lambda>j. log_start s + j + 1) ` {i..<i + k}"
  by (force simp: log_writes_def)

lemma log_area_mem: "j < nat (lh_n s) \<Longrightarrow> lh_n s \<le> int LOGBLOCKS \<Longrightarrow> log_start s + j + 1 \<in> log_area (log_start s)"
  by (auto simp: log_area_def)

lemma apply_log_writes:
  "j < k \<Longrightarrow> apply_writes (log_writes s 0 k) D (log_start s + j + 1) = view s (lh_block s j)"
  by (rule apply_writes_in) (auto simp: log_writes_fst, auto simp: log_writes_def)

lemma commit_ok:
  fixes s :: "'a klog_scheme"
  assumes tx: "tx_inv s {} P" and n: "0 < lh_n s" "lh_n s < int NBUF"
  shows "\<exists>t h1 h0. commit s = Inr t \<and> io_frame (s\<lparr>lh_n := 0\<rparr>) t \<and> tx_inv t {} {} \<and> hdr_n h1 = lh_n s \<and>
    (\<forall>j<nat (lh_n s). hdr_block h1 j = lh_block s j) \<and> hdr_n h0 = 0 \<and>
    dtrace t = dtrace s @ commit_writes s h1 h0 \<and> disk t = apply_writes (commit_writes s h1 h0) (disk s)"
proof -
  define k where "k = nat (lh_n s)"
  let ?st = "log_start s"
  obtain i where i: "curpid s = Some i" using tx by (auto simp: tx_inv_def)
  have inv: "bcache_inv s {} P" "log_dev s = ROOTDEV" "lh_n s \<le> int LOGBLOCKS" "inj_on (lh_block s) {0..<k}"
    "blocks_of s P = lh_block s ` {0..<k}"
    "\<And>j. j < k \<Longrightarrow> lh_block s j \<notin> log_area ?st \<and> lh_block s j < 2 ^ 32"
    using tx by (auto simp: tx_inv_def k_def)
  have cP: "card P < NBUF" using card_pinned [OF tx] n by simp
  have kb: "0 + k \<le> LOGBLOCKS" using inv(3) by (simp add: k_def)
  have area: "?st + j + 1 \<in> log_area ?st" if "j < k" for j
    using log_area_mem that inv(3) by (simp add: k_def)
  have out: "x \<notin> blocks_of s P" if "x \<in> log_area ?st" for x
    using that inv(5,6) by auto
  have stA: "?st \<in> log_area ?st" by (simp add: log_area_def)
  have "\<exists>t. write_log_loop 0 k s = Inr t \<and> bcache_inv t {} P \<and> io_frame s t \<and>
    disk t = apply_writes (log_writes s 0 k) (disk s) \<and> dtrace t = dtrace s @ log_writes s 0 k \<and>
    view t = apply_writes (log_writes s 0 k) (view s) \<and> blocks_of t P = blocks_of s P"
    by (rule write_log_loop_ok [OF inv(1) i inv(2) cP kb]) (use area out inv(5) in auto)
  then obtain t where t: "write_log s = Inr t" "bcache_inv t {} P" "io_frame s t"
    "disk t = apply_writes (log_writes s 0 k) (disk s)" "dtrace t = dtrace s @ log_writes s 0 k"
    "view t = apply_writes (log_writes s 0 k) (view s)" "blocks_of t P = blocks_of s P"
    by (auto simp: write_log_def k_def)
  note l = io_frame_log [OF t(3)]
  have ct: "curpid t = Some i" using io_frame_curpid [OF t(3)] i by simp
  have dt: "log_dev t = ROOTDEV" "log_start t \<notin> blocks_of t P" "0 \<le> lh_n t" "lh_n t \<le> int LOGBLOCKS"
    "\<And>j. j < nat (lh_n t) \<Longrightarrow> lh_block t j < 2 ^ 32"
    using l inv out [OF stA] t(7) n by (auto simp: k_def)
  obtain u h1 where u: "write_head t = Inr u" "bcache_inv u {} P" "io_frame t u"
    "hdr_n h1 = lh_n t" "\<forall>j<nat (lh_n t). hdr_block h1 j = lh_block t j"
    "disk u = (disk t)(log_start t := h1)" "dtrace u = dtrace t @ [(log_start t, h1)]"
    "view u = (view t)(log_start t := h1)" "blocks_of u P = blocks_of t P"
    by (rule write_head_ok [OF t(2) ct dt(1) cP dt(2-5)])
  note lu = io_frame_log [OF u(3)]
  have cu: "curpid u = Some i" using io_frame_curpid [OF u(3)] ct by simp
  have "\<exists>v Q. install_loop False 0 k u = Inr v \<and> bcache_inv v {} Q \<and> io_frame u v \<and>
    disk v = apply_writes (home_writes u 0 k) (disk u) \<and> dtrace v = dtrace u @ home_writes u 0 k \<and>
    view v = apply_writes (home_writes u 0 k) (view u) \<and>
    blocks_of v Q = blocks_of u P - lh_block u ` {0..<0 + k} \<and> card Q \<le> card P"
  proof (rule install_loop_ok [OF u(2) cu _ cP _ kb])
    show "\<forall>j j'. 0 \<le> j \<and> j < 0 + k \<and> 0 \<le> j' \<and> j' < 0 + k \<longrightarrow> log_start u + j + 1 \<noteq> lh_block u j'"
    proof (intro allI impI)
      fix j j' assume "0 \<le> j \<and> j < 0 + k \<and> 0 \<le> j' \<and> j' < 0 + k"
      then show "log_start u + j + 1 \<noteq> lh_block u j'" using area [of j] inv(6) [of j'] lu l by auto
    qed
    show "\<forall>j. 0 \<le> j \<and> j < 0 + k \<longrightarrow>
        log_start u + j + 1 \<notin> blocks_of u P \<and> (False \<longleftrightarrow> lh_block u j \<notin> blocks_of u P)"
      using area out inv(5) u(9) t(7) lu l by auto
  qed (use lu l inv(2,4) in auto)
  then obtain v Q where v: "install_loop False 0 k u = Inr v" "bcache_inv v {} Q" "io_frame u v"
    "disk v = apply_writes (home_writes u 0 k) (disk u)" "dtrace v = dtrace u @ home_writes u 0 k"
    "blocks_of v Q = blocks_of u P - lh_block u ` {0..<0 + k}" by auto
  have hw: "home_writes u 0 k = map (\<lambda>j. (lh_block s j, view s (lh_block s j))) [0..<k]"
    using u(8) t(6) lu l apply_log_writes by (auto simp: home_writes_def)
  have Q: "Q = {}" using v(6) u(9) t(7) inv(5) lu l by (auto simp: blocks_of_def)
  define v0 where "v0 = v\<lparr>lh_n := 0\<rparr>"
  note lv = io_frame_log [OF v(3)]
  have v0: "bcache_inv v0 {} {}" "curpid v0 = Some i" "log_dev v0 = ROOTDEV" "log_start v0 = ?st"
    "lh_n v0 = 0" "disk v0 = disk v" "dtrace v0 = dtrace v"
    using v(2) Q io_frame_curpid [OF v(3)] cu lv lu l inv(2)
    by (auto simp: v0_def bcache_inv_def buf_unique_def buf_wf_def curpid_def myproc_def cpuid_def)
  have pre': "card ({}::nat set) < NBUF" "log_start v0 \<notin> blocks_of v0 {}" "0 \<le> lh_n v0" "lh_n v0 \<le> int LOGBLOCKS"
    "\<And>j. j < nat (lh_n v0) \<Longrightarrow> lh_block v0 j < 2 ^ 32" using v0(5) by simp_all
  obtain w h0 where w: "write_head v0 = Inr w" "bcache_inv w {} {}" "io_frame v0 w"
    "hdr_n h0 = lh_n v0" "\<forall>j<nat (lh_n v0). hdr_block h0 j = lh_block v0 j"
    "disk w = (disk v0)(log_start v0 := h0)" "dtrace w = dtrace v0 @ [(log_start v0, h0)]"
    "view w = (view v0)(log_start v0 := h0)" "blocks_of w {} = blocks_of v0 {}"
    by (rule write_head_ok [OF v0(1-3) pre'])
  have "commit s = Inr w"
    using n(1) t(1) u(1) v(1) w(1) lu l by (simp add: commit_def install_trans_def k_def v0_def)
  moreover have "io_frame (s\<lparr>lh_n := 0\<rparr>) w"
  proof -
    have "io_frame s v" using t(3) u(3) v(3) by (meson io_frame_trans)
    then have "io_frame (s\<lparr>lh_n := 0\<rparr>) v0" unfolding v0_def by (rule io_frame_lh_n)
    then show ?thesis using w(3) by (rule io_frame_trans)
  qed
  moreover have "tx_inv w {} {}"
    using w v0 io_frame_log [OF w(3)] io_frame_curpid [OF w(3)] by (simp add: tx_inv_def)
  moreover have "dtrace w = dtrace s @ commit_writes s h1 h0"
    using w(7) v0(4,7) v(5) u(7) t(5) l by (simp add: commit_writes_def hw [unfolded k_def] k_def)
  moreover have "disk w = apply_writes (commit_writes s h1 h0) (disk s)"
    using w(6) v0(4,6) v(4) u(6) t(4) l by (simp add: commit_writes_def hw [unfolded k_def] k_def apply_writes_append)
  ultimately show ?thesis using u(4,5) w(4) v0(5) l by auto
qed

end
