(* ===== verification/Log_Crash.thy ===== *)
theory Log_Crash
  imports Log_Commit
begin

text \<open>
  What recovery makes of a crash at any point of a commit or of an earlier recovery, and the
  bookkeeping of \<open>begin_op\<close>, \<open>log_write\<close> and \<open>end_op\<close> that keeps a transaction within the log.
\<close>

section \<open>Prefixes of a commit\<close>

lemma apply_take_other: "n \<notin> fst ` set ws \<Longrightarrow> apply_writes (take k ws) D n = D n"
  by (rule apply_writes_other) (auto dest: in_set_takeD)

lemma take_append3:
  "k \<le> length (xs @ a # ys @ [b]) \<Longrightarrow>
   k \<le> length xs \<and> take k (xs @ a # ys @ [b]) = take k xs \<or>
   (\<exists>j\<le>length ys. length xs < k \<and> take k (xs @ a # ys @ [b]) = xs @ a # take j ys) \<or>
   length xs < k \<and> take k (xs @ a # ys @ [b]) = xs @ a # ys @ [b]"
proof -
  assume k: "k \<le> length (xs @ a # ys @ [b])"
  consider "k \<le> length xs" | "length xs < k" "k - length xs - 1 \<le> length ys" | "k = length xs + length ys + 2"
    using k by fastforce
  then show ?thesis
  proof cases
    case 2
    then obtain j where "k = length xs + Suc j" "j \<le> length ys"
      by (metis One_nat_def Suc_diff_Suc diff_diff_left less_imp_add_positive less_natE add_Suc_right diff_add_inverse diff_Suc_1)
    then show ?thesis by auto
  qed auto
qed

text \<open>The home writes of a commit, cut anywhere, followed by all of them.\<close>

lemma home_prefix:
  fixes V D :: "nat \<Rightarrow> bytes"
  assumes ws: "ws = map (\<lambda>j. (b j, V (b j))) [0..<n]"
  shows "apply_writes ws (apply_writes (take k ws) D) m = (if m \<in> b ` {0..<n} then V m else D m)"
proof (cases "m \<in> b ` {0..<n}")
  case True
  then have "apply_writes ws E m = V m" for E
    by (intro apply_writes_in) (force simp: ws, auto simp: ws)
  then show ?thesis using True by simp
next
  case False
  then have "m \<notin> fst ` set ws" by (auto simp: ws)
  then show ?thesis using False by (simp add: apply_writes_other apply_take_other)
qed

lemma install_writes_nil: "hdr_n (D st) = 0 \<Longrightarrow> install_writes st D = []"
  by (simp add: install_writes_def)

text \<open>A disk in the middle of the installation: the header names the transaction, and the log
  blocks hold its contents.\<close>

lemma install_writes_committed:
  assumes "hdr_n (D st) = int n" and "\<forall>j<n. hdr_block (D st) j = b j" and "\<forall>j<n. D (st + j + 1) = V (b j)"
  shows "install_writes st D = map (\<lambda>j. (b j, V (b j))) [0..<n]"
  using assms by (simp add: install_writes_def)

lemma crash_disk:
  assumes tx: "tx_inv s {} P" and h1: "hdr_n h1 = lh_n s" "\<forall>j<nat (lh_n s). hdr_block h1 j = lh_block s j"
    and h0: "hdr_n h0 = 0" and k: "k \<le> length (commit_writes s h1 h0)"
  defines "D \<equiv> apply_writes (take k (commit_writes s h1 h0)) (disk s)" and "st \<equiv> log_start s"
  shows "hdr_ok st D" and "m \<notin> log_area st \<Longrightarrow>
    apply_writes (install_writes st D) D m = (if k \<le> nat (lh_n s) then disk s m else view s m)"
proof -
  define n where "n = nat (lh_n s)"
  define LW where "LW = log_writes s 0 n"
  define HW where "HW = map (\<lambda>j. (lh_block s j, view s (lh_block s j))) [0..<n]"
  have cw: "commit_writes s h1 h0 = LW @ (st, h1) # HW @ [(st, h0)]"
    by (simp add: commit_writes_def LW_def HW_def n_def st_def)
  have ni: "lh_n s = int n" "n \<le> LOGBLOCKS" using tx by (auto simp: tx_inv_def n_def)
  have bl: "\<And>j. j < n \<Longrightarrow> lh_block s j \<notin> log_area st" using tx by (auto simp: tx_inv_def n_def st_def)
  have d0: "hdr_n (disk s st) = 0" using tx by (simp add: tx_inv_def st_def)
  have fL: "fst ` set LW = (\<lambda>j. st + j + 1) ` {0..<n}" by (simp add: LW_def log_writes_fst st_def)
  have LA: "fst ` set LW \<subseteq> log_area st" using ni(2) unfolding fL by (auto simp: log_area_def)
  have fH: "fst ` set HW = lh_block s ` {0..<n}" by (force simp: HW_def)
  have HA: "x \<notin> fst ` set HW" if "x \<in> log_area st" for x using that bl unfolding fH by auto
  have stL: "st \<notin> fst ` set LW" unfolding fL by auto
  have stA: "st \<in> log_area st" by (simp add: log_area_def)
  have vd: "(if m \<in> lh_block s ` {0..<n} then view s m else disk s m) = view s m" for m
  proof (cases "m \<in> lh_block s ` {0..<n}")
    case False
    have "bcache_inv s {} P" "blocks_of s P = lh_block s ` {0..<n}" using tx by (auto simp: tx_inv_def n_def)
    then have "view s m = disk s m" using False by (intro view_disk) auto
    then show ?thesis using False by simp
  qed simp
  have lenL: "length LW = n" by (simp add: LW_def log_writes_def)
  consider (log) "k \<le> n" "take k (commit_writes s h1 h0) = take k LW"
    | (home) j where "n < k" "take k (commit_writes s h1 h0) = LW @ (st, h1) # take j HW"
    | (fin) "n < k" "take k (commit_writes s h1 h0) = LW @ (st, h1) # HW @ [(st, h0)]"
    using take_append3 [of k LW "(st, h1)" HW "(st, h0)"] k cw lenL by auto
  then have "hdr_ok st D \<and> (m \<notin> log_area st \<longrightarrow>
      apply_writes (install_writes st D) D m = (if k \<le> n then disk s m else view s m))"
  proof cases
    case log
    then have D: "D = apply_writes (take k LW) (disk s)" by (simp add: D_def)
    then have h: "hdr_n (D st) = 0" using d0 apply_take_other [OF stL] by simp
    moreover have "D m = disk s m" if "m \<notin> log_area st"
    proof -
      have "m \<notin> fst ` set LW" using that LA by blast
      then show ?thesis unfolding D by (rule apply_take_other)
    qed
    ultimately show ?thesis using log(1) by (simp add: hdr_ok_def install_writes_nil)
  next
    case home
    define E where "E = (apply_writes LW (disk s))(st := h1)"
    have D: "D = apply_writes (take j HW) E" using home by (simp add: D_def E_def apply_writes_append)
    have DA: "D x = E x" if "x \<in> log_area st" for x using apply_take_other [OF HA [OF that]] D by simp
    have "D (st + j + 1) = view s (lh_block s j)" if "j < n" for j
    proof -
      have "st + j + 1 \<in> log_area st" using that ni(2) by (simp add: log_area_def)
      then show ?thesis using DA apply_log_writes [OF that, of s] by (simp add: E_def LW_def st_def)
    qed
    moreover have hd: "D st = h1" using DA [OF stA] by (simp add: E_def)
    ultimately have iw: "install_writes st D = HW"
      unfolding HW_def using h1 ni(1) by (intro install_writes_committed) auto
    have "hdr_ok st D" using hd h1 ni bl by (auto simp: hdr_ok_def)
    moreover have "apply_writes HW D m = view s m" if "m \<notin> log_area st"
    proof -
      have "m \<notin> fst ` set LW" "m \<noteq> st" using that LA stA by auto
      then have "E m = disk s m" by (simp add: E_def apply_writes_other)
      then show ?thesis using home_prefix [of HW "lh_block s" "view s" n j E m] vd [of m]
        by (auto simp: HW_def D split: if_splits)
    qed
    ultimately show ?thesis using home(1) iw by simp
  next
    case fin
    define E where "E = (apply_writes LW (disk s))(st := h1)"
    have D: "D = (apply_writes HW E)(st := h0)" using fin by (simp add: D_def E_def apply_writes_append)
    then have h: "hdr_n (D st) = 0" using h0 by simp
    moreover have "D m = view s m" if "m \<notin> log_area st"
    proof -
      have "m \<notin> fst ` set LW" "m \<noteq> st" using that LA stA by auto
      then have "E m = disk s m" by (simp add: E_def apply_writes_other)
      then show ?thesis
        using home_prefix [of HW "lh_block s" "view s" n 0 E m] vd [of m] that stA
        by (auto simp: HW_def D split: if_splits)
    qed
    ultimately show ?thesis using fin(1) by (simp add: hdr_ok_def install_writes_nil)
  qed
  then show "hdr_ok st D" and "m \<notin> log_area st \<Longrightarrow>
    apply_writes (install_writes st D) D m = (if k \<le> nat (lh_n s) then disk s m else view s m)"
    by (simp_all add: n_def)
qed

section \<open>log\_write\<close>

lemma absorb_index_cases:
  "absorb_index i k f n = i + k \<and> (\<forall>j. i \<le> j \<and> j < i + k \<longrightarrow> f j \<noteq> n) \<or>
   i \<le> absorb_index i k f n \<and> absorb_index i k f n < i + k \<and> f (absorb_index i k f n) = n"
proof (induction k arbitrary: i)
  case (Suc k)
  show ?case
  proof (cases "f i = n")
    case False
    have "\<And>j. i \<le> j \<Longrightarrow> j < i + Suc k \<Longrightarrow> j = i \<or> Suc i \<le> j \<and> j < Suc i + k" by linarith
    then show ?thesis using Suc.IH [of "Suc i"] False by auto
  qed simp
qed simp

lemma bcache_inv_lh:
  "bcache_inv (s\<lparr>lh_block := f\<rparr>) H P = bcache_inv s H P" "bcache_inv (s\<lparr>lh_n := n\<rparr>) H P = bcache_inv s H P"
  "bcache_inv (s\<lparr>log_outstanding := m\<rparr>) H P = bcache_inv s H P"
  "curpid (s\<lparr>lh_block := f\<rparr>) = curpid s" "curpid (s\<lparr>lh_n := n\<rparr>) = curpid s" "curpid (s\<lparr>log_outstanding := m\<rparr>) = curpid s"
  by (simp_all add: bcache_inv_def buf_unique_def buf_wf_def curpid_def myproc_def cpuid_def)

text \<open>What a transaction sees of \<open>log_write\<close>: the buffer is pinned from now on, once, and its
  block is in the header, once.\<close>

lemma log_write_ok:
  fixes s :: "'a klog_scheme"
  assumes tx: "tx_inv s H P" and b: "b \<in> H" and n: "b_blockno (bufs s b) \<notin> log_area (log_start s)" "b_blockno (bufs s b) < 2 ^ 32"
    and room: "lh_n s < int LOGBLOCKS" and out: "1 \<le> log_outstanding s"
  shows "must (log_write b s) (\<lambda>t. tx_inv t H (insert b P) \<and> view t = view s \<and> disk t = disk s \<and> dtrace t = dtrace s \<and>
    lh_n t = lh_n s + (if b \<in> P then 0 else 1) \<and> log_outstanding t = log_outstanding s \<and> log_start t = log_start s \<and>
    (\<forall>c. b_blockno (bufs t c) = b_blockno (bufs s c) \<and> b_data (bufs t c) = b_data (bufs s c)))"
proof -
  define k where "k = nat (lh_n s)"
  define x where "x = b_blockno (bufs s b)"
  have i: "bcache_inv s H P" and bl: "blocks_of s P = lh_block s ` {0..<k}" and inj: "inj_on (lh_block s) {0..<k}"
    and k: "lh_n s = int k" and ok: "\<forall>j<k. lh_block s j \<notin> log_area (log_start s) \<and> lh_block s j < 2 ^ 32"
    and misc: "curpid s \<noteq> None" "log_dev s = ROOTDEV" "log_start s \<notin> blocks_of s H" "hdr_n (disk s (log_start s)) = 0"
    using tx by (auto simp: tx_inv_def k_def)
  have bP: "b \<in> P \<longleftrightarrow> x \<in> lh_block s ` {0..<k}"
  proof
    assume "b \<in> P"
    then have "x \<in> blocks_of s P" by (auto simp: blocks_of_def x_def)
    then show "x \<in> lh_block s ` {0..<k}" using bl by simp
  next
    assume "x \<in> lh_block s ` {0..<k}"
    then have "x \<in> blocks_of s P" using bl by simp
    then obtain c where "c \<in> P" "b_blockno (bufs s c) = x" by (auto simp: blocks_of_def)
    then show "b \<in> P" using bcache_inv_blockno_inj [OF i, of c b] b by (auto simp: x_def)
  qed
  define a where "a = absorb_index 0 k (lh_block s) x"
  show ?thesis
  proof (cases "b \<in> P")
    case True
    then have "x \<in> lh_block s ` {0..<k}" using bP by simp
    then have a: "a < k" "lh_block s a = x" using absorb_index_cases [of 0 k "lh_block s" x] by (auto simp: a_def)
    then have f: "(lh_block s)(a := x) = lh_block s" by auto
    have "log_write b s = Inr s"
      using room out a f k by (simp add: log_write_def Let_def a_def [symmetric] k_def [symmetric] x_def [symmetric])
    then show ?thesis using tx True by (simp add: insert_absorb)
  next
    case False
    then have no: "x \<notin> lh_block s ` {0..<k}" using bP by simp
    then have a: "a = k" using absorb_index_cases [of 0 k "lh_block s" x] by (force simp: a_def image_iff)
    define t where "t = (bpin b (s\<lparr>lh_block := (lh_block s)(k := x)\<rparr>))\<lparr>lh_n := int k + 1\<rparr>"
    have "log_write b s = Inr t"
      using room out a k by (simp add: log_write_def Let_def a_def [symmetric] k_def [symmetric] x_def [symmetric] t_def)
    moreover have it: "bcache_inv t H (insert b P)"
      unfolding t_def bcache_inv_lh by (rule bpin_ok) (use i b False in \<open>simp_all add: bcache_inv_lh\<close>)
    moreover have tb: "b_blockno (bufs t c) = b_blockno (bufs s c)" "b_data (bufs t c) = b_data (bufs s c)"
      "disk t = disk s" "dtrace t = dtrace s" "curpid t = curpid s" "lh_n t = int k + 1" "lh_block t = (lh_block s)(k := x)"
      "log_dev t = log_dev s" "log_start t = log_start s" "log_outstanding t = log_outstanding s" for c
      by (simp_all add: t_def bpin_def upd_buf_def curpid_def myproc_def cpuid_def)
    moreover have "view t = view s"
    proof
      fix m show "view t m = view s m"
        by (rule view_cong) (simp_all add: t_def bpin_def upd_buf_def buf_same_def)
    qed
    moreover have "tx_inv t H (insert b P)"
    proof -
      have s: "nat (int k + 1) = Suc k" by simp
      have "blocks_of t (insert b P) = insert x (lh_block s ` {0..<k})"
        using tb(1) bl by (simp add: blocks_of_def x_def)
      also have "\<dots> = lh_block t ` {0..<Suc k}"
        by (auto simp: tb(7) atLeast0_lessThan_Suc image_def)
      finally have "blocks_of t (insert b P) = lh_block t ` {0..<Suc k}" .
      moreover have "inj_on (lh_block t) {0..<Suc k}"
      proof -
        have "inj_on (lh_block t) {0..<k}"
          using inj by (rule inj_on_cong [THEN iffD1, rotated]) (simp add: tb(7))
        moreover have "lh_block t k \<notin> lh_block t ` ({0..<k} - {k})" using no by (auto simp: tb(7) image_def)
        ultimately show ?thesis by (simp add: atLeast0_lessThan_Suc)
      qed
      moreover have "\<forall>j<Suc k. lh_block t j \<notin> log_area (log_start s) \<and> lh_block t j < 2 ^ 32"
        using ok n by (auto simp: tb(7) less_Suc_eq x_def)
      moreover have "blocks_of t H = blocks_of s H" using tb(1) by (simp add: blocks_of_def)
      ultimately show ?thesis using it misc room k by (simp add: tx_inv_def tb s)
    qed
    ultimately show ?thesis using False k by simp
  qed
qed

section \<open>Reservations\<close>

lemma write_head_lh:
  assumes "write_head s = Inr t"
  shows "lh_n t = lh_n s" "log_outstanding t = log_outstanding s" "log_committing t = log_committing s"
proof -
  obtain b s1 d s2 where 1: "bread (log_dev s) (log_start s) s = Inr (b, s1)"
    and 2: "bwrite b (set_data b d s1) = Inr s2" and 3: "brelse b s2 = Inr t"
    using assms by (auto simp: write_head_def kbind_eq_Inr)
  have "io_frame s t"
    using bread_io_frame [OF 1] io_frame_set_data [of s1 b d] bwrite_io_frame [OF 2] brelse_io_frame [OF 3]
    by (meson io_frame_trans)
  then show "lh_n t = lh_n s" "log_outstanding t = log_outstanding s" "log_committing t = log_committing s"
    by (simp_all add: io_frame_log)
qed

lemma write_log_copy_frame: "write_log_copy tail s = Inr t \<Longrightarrow> io_frame s t"
  unfolding write_log_copy_def
  by (auto simp: kbind_eq_Inr dest!: bread_io_frame bwrite_io_frame brelse_io_frame)
    (meson io_frame_trans io_frame_set_data)

lemma install_copy_frame: "install_copy r tail s = Inr t \<Longrightarrow> io_frame s t"
proof -
  assume "install_copy r tail s = Inr t"
  then obtain lb s1 dst db s2 s3 s4 where 1: "bread (log_dev s) (log_start s + tail + 1) s = Inr (lb, s1)"
    "bread (log_dev s1) dst s1 = Inr (db, s2)" "bwrite db (set_data db (b_data (bufs s2 lb)) s2) = Inr s3"
    "brelse lb (if \<not> r then bunpin db s3 else s3) = Inr s4" "brelse db s4 = Inr t"
    by (auto simp: install_copy_def kbind_eq_Inr)
  have "io_frame s3 (if \<not> r then bunpin db s3 else s3)" by (simp add: io_frame_pin)
  then have "io_frame s3 s4" using brelse_io_frame [OF 1(4)] by (rule io_frame_trans)
  moreover have "io_frame s s3"
    using bread_io_frame [OF 1(1)] bread_io_frame [OF 1(2)] io_frame_set_data bwrite_io_frame [OF 1(3)]
    by (meson io_frame_trans)
  ultimately show ?thesis using brelse_io_frame [OF 1(5)] by (meson io_frame_trans)
qed

lemma write_log_loop_frame: "write_log_loop tail k s = Inr t \<Longrightarrow> io_frame s t"
  by (induction k arbitrary: tail s)
    (auto simp: kbind_eq_Inr dest: write_log_copy_frame intro: io_frame_trans)

lemma install_loop_frame: "install_loop r tail k s = Inr t \<Longrightarrow> io_frame s t"
  by (induction k arbitrary: tail s)
    (auto simp: kbind_eq_Inr dest: install_copy_frame intro: io_frame_trans)

lemma commit_lh:
  assumes "commit s = Inr t" and "0 \<le> lh_n s"
  shows "lh_n t = 0" "log_outstanding t = log_outstanding s" "log_committing t = log_committing s"
proof -
  have "lh_n t = 0 \<and> log_outstanding t = log_outstanding s \<and> log_committing t = log_committing s"
  proof (cases "lh_n s > 0")
    case True
    then obtain s1 s2 s3 where c: "write_log s = Inr s1" "write_head s1 = Inr s2" "install_trans False s2 = Inr s3"
      "write_head (s3\<lparr>lh_n := 0\<rparr>) = Inr t"
      using assms(1) by (auto simp: commit_def kbind_eq_Inr)
    have f: "io_frame s s1" "io_frame s2 s3"
      using c(1,3) write_log_loop_frame install_loop_frame by (auto simp: write_log_def install_trans_def)
    show ?thesis
      using write_head_lh [OF c(2)] write_head_lh [OF c(4)] io_frame_log [OF f(1)] io_frame_log [OF f(2)] by simp
  next
    case False
    then show ?thesis using assms by (simp add: commit_def)
  qed
  then show "lh_n t = 0" "log_outstanding t = log_outstanding s" "log_committing t = log_committing s" by auto
qed

text \<open>Operations of any number of processes on one log. \<open>R\<close> maps each process that is between
  \<open>begin_op\<close> and \<open>end_op\<close> to the number of calls of \<open>log_write\<close> it has made.\<close>

inductive log_run :: "'a klog_scheme \<Rightarrow> (nat \<rightharpoonup> nat) \<Rightarrow> bool" where
  init: "lh_n s = 0 \<Longrightarrow> log_outstanding s = 0 \<Longrightarrow> \<not> log_committing s \<Longrightarrow> log_run s Map.empty"
| start: "log_run s R \<Longrightarrow> R p = None \<Longrightarrow> begin_op s = Inr t \<Longrightarrow> log_run t (R(p \<mapsto> 0))"
| logged: "log_run s R \<Longrightarrow> R p = Some w \<Longrightarrow> w < MAXOPBLOCKS \<Longrightarrow> log_write b s = Inr t \<Longrightarrow> log_run t (R(p \<mapsto> Suc w))"
| finish: "log_run s R \<Longrightarrow> R p = Some w \<Longrightarrow> end_op s = Inr t \<Longrightarrow> log_run t (R(p := None))"
| other: "log_run s R \<Longrightarrow> io_frame s t \<Longrightarrow> log_run t R"

definition reserved :: "(nat \<rightharpoonup> nat) \<Rightarrow> nat" where
  "reserved R = (\<Sum>p\<in>dom R. MAXOPBLOCKS - the (R p))"

definition log_budget :: "'a klog_scheme \<Rightarrow> (nat \<rightharpoonup> nat) \<Rightarrow> bool" where
  "log_budget s R \<longleftrightarrow> finite (dom R) \<and> log_outstanding s = int (card (dom R)) \<and> 0 \<le> lh_n s \<and>
     lh_n s + int (reserved R) \<le> int LOGBLOCKS \<and> \<not> log_committing s"

lemma reserved_upd:
  "finite (dom R) \<Longrightarrow> reserved (R(p \<mapsto> w)) = reserved (R(p := None)) + (MAXOPBLOCKS - w)"
proof -
  assume f: "finite (dom R)"
  have d: "dom (R(p \<mapsto> w)) = insert p (dom R - {p})" "dom (R(p := None)) = dom R - {p}" by auto
  have "reserved (R(p \<mapsto> w)) = MAXOPBLOCKS - w + (\<Sum>q\<in>dom R - {p}. MAXOPBLOCKS - the ((R(p \<mapsto> w)) q))"
    unfolding reserved_def d(1) using f by (subst sum.insert) auto
  also have "(\<Sum>q\<in>dom R - {p}. MAXOPBLOCKS - the ((R(p \<mapsto> w)) q)) = reserved (R(p := None))"
    unfolding reserved_def d(2) by (rule sum.cong) auto
  finally show ?thesis by (simp add: fun_upd_def)
qed

lemma reserved_remove: "finite (dom R) \<Longrightarrow> R p = Some w \<Longrightarrow> reserved R = reserved (R(p := None)) + (MAXOPBLOCKS - w)"
  using reserved_upd [of R p w] by (simp add: map_upd_triv)

lemma reserved_le: "finite (dom R) \<Longrightarrow> reserved R \<le> card (dom R) * MAXOPBLOCKS"
  unfolding reserved_def by (rule sum_bounded_above [of "dom R" _ MAXOPBLOCKS, simplified]) simp

lemma log_run_budget: "log_run s R \<Longrightarrow> log_budget s R"
proof (induction rule: log_run.induct)
  case (init s)
  then show ?case by (simp add: log_budget_def reserved_def)
next
  case (start s R p t)
  then have f: "finite (dom R)" by (simp add: log_budget_def)
  have "R(p := None) = R" using start.hyps(2) by auto
  then have r: "reserved (R(p \<mapsto> 0)) = reserved R + 10" using reserved_upd [OF f, of p 0] by simp
  have c: "card (dom (R(p \<mapsto> 0))) = Suc (card (dom R))" "finite (dom (R(p \<mapsto> 0)))"
    using f start.hyps(2) by (simp_all add: domIff)
  have t: "lh_n s + (log_outstanding s + 1) * 10 \<le> 30" "t = s\<lparr>log_outstanding := log_outstanding s + 1\<rparr>"
    using start.hyps(3) by (auto simp: begin_op_def split: if_splits)
  then show ?case using start.IH r c reserved_le [OF f] by (simp add: log_budget_def fun_upd_def)
next
  case (logged s R p w b t)
  then have f: "finite (dom R)" by (simp add: log_budget_def)
  have r: "reserved R = reserved (R(p := None)) + (10 - w)" "reserved (R(p \<mapsto> Suc w)) = reserved (R(p := None)) + (10 - Suc w)"
    using reserved_remove [OF f logged.hyps(2)] reserved_upd [OF f, of p "Suc w"] by simp_all
  have c: "dom (R(p \<mapsto> Suc w)) = dom R" using logged.hyps(2) by auto
  have "lh_n s \<le> lh_n t \<and> lh_n t \<le> lh_n s + 1 \<and> log_outstanding t = log_outstanding s \<and> log_committing t = log_committing s"
    using logged.hyps(4) by (auto simp: log_write_def Let_def bpin_def upd_buf_def split: if_splits)
  then show ?case using logged.IH logged.hyps(3) r c by (simp add: log_budget_def fun_upd_def)
next
  case (finish s R p w t)
  then have f: "finite (dom R)" and b: "log_budget s R" by (simp_all add: log_budget_def)
  have r: "reserved R = reserved (R(p := None)) + (10 - w)" using reserved_remove [OF f finish.hyps(2)] by simp
  have c: "card (dom R) = Suc (card (dom (R(p := None))))"
    using card.remove [OF f, of p] finish.hyps(2) by (simp add: domI)
  have f': "finite (dom (R(p := None)))" using f by simp
  let ?s = "s\<lparr>log_outstanding := log_outstanding s - 1\<rparr>"
  show ?case
  proof (cases "log_outstanding s = 1")
    case True
    then have "card (dom (R(p := None))) = 0" using b c by (simp add: log_budget_def)
    then have e: "dom (R(p := None)) = {}" using f by simp
    obtain u where u: "commit (?s\<lparr>log_committing := True\<rparr>) = Inr u" "t = wakeup ChLog (u\<lparr>log_committing := False\<rparr>)"
      using finish.hyps(3) b True by (auto simp: end_op_def Let_def log_budget_def kbind_eq_Inr)
    have "lh_n u = 0" "log_outstanding u = 0"
      using commit_lh [OF u(1)] b True by (simp_all add: log_budget_def)
    then show ?thesis using u(2) e by (simp add: log_budget_def wakeup_def reserved_def fun_upd_def)
  next
    case False
    then have "t = wakeup ChLog ?s" using finish.hyps(3) b by (auto simp: end_op_def Let_def log_budget_def)
    then show ?thesis using b c r f' by (simp add: log_budget_def wakeup_def fun_upd_def)
  qed
next
  case (other s R t)
  then show ?case using io_frame_log [OF other.hyps(2)] by (simp add: log_budget_def)
qed

section \<open>Updating a block in a transaction\<close>

text \<open>What the log's operations may change, for their clients: the cache's part of the state and
  the in-memory header.\<close>

definition log_frame :: "'a klog_scheme \<Rightarrow> 'a klog_scheme \<Rightarrow> bool" where
  "log_frame s t \<longleftrightarrow> io_frame (s\<lparr>lh_n := lh_n t, lh_block := lh_block t\<rparr>) t"

lemma log_frame_io: "io_frame s t \<Longrightarrow> log_frame s t"
proof -
  assume a: "io_frame s t"
  have "s\<lparr>lh_n := lh_n t, lh_block := lh_block t\<rparr> = s" using io_frame_log(5,6) [OF a] by simp
  then show ?thesis using a by (simp add: log_frame_def)
qed

lemma io_frame_lh_block:
  assumes "io_frame s t"
  shows "io_frame (s\<lparr>lh_block := x\<rparr>) (t\<lparr>lh_block := x\<rparr>)"
proof -
  have "t = s\<lparr>bufs := bufs t, disk := disk t, dtrace := dtrace t, procs := procs t\<rparr>"
    using assms by (simp add: io_frame_def)
  then have "t\<lparr>lh_block := x\<rparr> = (s\<lparr>bufs := bufs t, disk := disk t, dtrace := dtrace t, procs := procs t\<rparr>)\<lparr>lh_block := x\<rparr>"
    by (rule arg_cong)
  moreover have "\<forall>p. \<exists>st. procs t p = (procs s p)\<lparr>pstate := st\<rparr>" using assms by (simp add: io_frame_def)
  ultimately show ?thesis by (simp add: io_frame_def)
qed

lemma log_frame_trans [trans]:
  assumes "log_frame s t" and "log_frame t u"
  shows "log_frame s u"
proof -
  have "io_frame (s\<lparr>lh_n := lh_n u, lh_block := lh_block u\<rparr>) (t\<lparr>lh_n := lh_n u, lh_block := lh_block u\<rparr>)"
    using io_frame_lh_block [OF io_frame_lh_n [OF assms(1) [unfolded log_frame_def], of "lh_n u"], of "lh_block u"] by simp
  then show ?thesis using assms(2) io_frame_trans unfolding log_frame_def by blast
qed

lemma log_frame_fields:
  assumes "log_frame s t"
  shows "log_start t = log_start s" "log_dev t = log_dev s" "log_outstanding t = log_outstanding s"
    "log_committing t = log_committing s" "curpid t = curpid s"
  using io_frame_log [OF assms [unfolded log_frame_def]] io_frame_curpid [OF assms [unfolded log_frame_def]]
  by (simp_all add: curpid_def myproc_def cpuid_def)

lemma log_write_frame: "log_write b s = Inr t \<Longrightarrow> log_frame s t"
  by (auto simp: log_write_def Let_def bpin_def upd_buf_def log_frame_def io_frame_def split: if_splits)

text \<open>The use of the log that the comment above \<open>log_write\<close> prescribes.\<close>

definition logged_update :: "nat \<Rightarrow> (bytes \<Rightarrow> bytes) \<Rightarrow> 'a klog_scheme \<Rightarrow> 'a klog_scheme kres" where
  "logged_update n f s =
     kbind (bread ROOTDEV n s) (\<lambda>(b, s).
     kbind (log_write b (set_data b (f (b_data (bufs s b))) s)) (\<lambda>s. brelse b s))"

lemma tx_inv_same_lh:
  assumes "tx_inv s H P" and "bcache_inv t H' P" and "io_frame s t" and "blocks_of t P = blocks_of s P"
    and "log_start s \<notin> blocks_of t H'" and "disk t = disk s"
  shows "tx_inv t H' P"
  using assms io_frame_log [OF assms(3)] io_frame_curpid [OF assms(3)] by (simp add: tx_inv_def)

lemma logged_update_ok:
  fixes s :: "'a klog_scheme"
  assumes tx: "tx_inv s H P" and n: "n \<notin> blocks_of s H" "n \<notin> log_area (log_start s)" "n < 2 ^ 32"
    and r: "room s H P n" and l: "lh_n s < int LOGBLOCKS" and o: "1 \<le> log_outstanding s"
  shows "must (logged_update n f s) (\<lambda>t. \<exists>Q. tx_inv t H Q \<and> view t = (view s)(n := f (view s n)) \<and>
    blocks_of t Q = insert n (blocks_of s P) \<and> log_frame s t \<and> disk t = disk s \<and> dtrace t = dtrace s \<and>
    lh_n t = lh_n s + (if n \<in> blocks_of s P then 0 else 1))"
proof -
  obtain i where i: "bcache_inv s H P" "curpid s = Some i" using tx by (auto simp: tx_inv_def)
  obtain b t where b: "bread ROOTDEV n s = Inr (b, t)" "b < NBUF" "b \<notin> H" "bcache_inv t (insert b H) P"
    "b_blockno (bufs t b) = n" "b_data (bufs t b) = view s n" "view t = view s" "t = s\<lparr>bufs := bufs t\<rparr>"
    "\<forall>c. c \<noteq> b \<longrightarrow> bufs t c = bufs s c" "blocks_of t P = blocks_of s P" "io_frame s t" "curpid t = Some i"
    "disk t = disk s" "dtrace t = dtrace s"
    by (rule breadE [OF i n(1) r])
  have Ht: "blocks_of t H = blocks_of s H" using b(3,9) by (intro blocks_of_same) metis
  define u where "u = set_data b (f (view s n)) t"
  have u: "bcache_inv u (insert b H) P" "io_frame s u" "disk u = disk s" "dtrace u = dtrace s"
    "b_blockno (bufs u c) = b_blockno (bufs t c)" for c
    using set_data_inv [OF b(4)] io_frame_trans [OF b(11) io_frame_set_data] b(13,14) by (simp_all add: u_def set_data_bufs)
  have vu: "view u = (view s)(n := f (view s n))"
    by (rule ext) (simp add: u_def view_set_data [OF b(4)] b(5,7))
  have bu: "blocks_of u X = blocks_of t X" for X using u(5) by (simp add: blocks_of_def)
  have "log_start s \<noteq> n" using n(2) by (auto simp: log_area_def)
  then have txu: "tx_inv u (insert b H) P"
    using tx u b(5,10) Ht by (intro tx_inv_same_lh [OF tx]) (auto simp: bu tx_inv_def)
  have lu: "lh_n u < int LOGBLOCKS" "1 \<le> log_outstanding u" "log_start u = log_start s" "lh_n u = lh_n s"
    using l o io_frame_log [OF u(2)] by simp_all
  have "must (log_write b u) (\<lambda>v. tx_inv v (insert b H) (insert b P) \<and> view v = view u \<and> disk v = disk u \<and>
    dtrace v = dtrace u \<and> lh_n v = lh_n u + (if b \<in> P then 0 else 1) \<and> log_outstanding v = log_outstanding u \<and>
    log_start v = log_start u \<and>
    (\<forall>c. b_blockno (bufs v c) = b_blockno (bufs u c) \<and> b_data (bufs v c) = b_data (bufs u c)))"
    using txu lu n(2,3) b(5) u(5) by (intro log_write_ok) auto
  then obtain v where v: "log_write b u = Inr v" "tx_inv v (insert b H) (insert b P)" "view v = view u" "disk v = disk u"
    "dtrace v = dtrace u" "lh_n v = lh_n u + (if b \<in> P then 0 else 1)" "log_start v = log_start u"
    "\<forall>c. b_blockno (bufs v c) = b_blockno (bufs u c) \<and> b_data (bufs v c) = b_data (bufs u c)"
    by (auto simp: must_iff)
  have iv: "bcache_inv v (insert b H) (insert b P)" using v(2) by (simp add: tx_inv_def)
  obtain w where w: "brelse b v = Inr w" "bcache_inv w (insert b H - {b}) (insert b P)" "view w = view v" "io_frame v w"
    "disk w = disk v" "dtrace w = dtrace v" "\<forall>c. b_blockno (bufs w c) = b_blockno (bufs v c)"
    "\<forall>c. b_data (bufs w c) = b_data (bufs v c)"
    by (rule brelseE [OF iv, of b]) simp_all
  have bw: "blocks_of w X = blocks_of t X" for X using u(5) v(8) w(7) by (simp add: blocks_of_def)
  have "insert b H - {b} = H" using b(3) by auto
  then have txw: "tx_inv w H (insert b P)"
    using tx_inv_same_lh [OF v(2), of w H] w v(7) lu(3) bw Ht tx u(5) v(8)
    by (simp add: tx_inv_def blocks_of_def)
  have bP: "b \<in> P \<longleftrightarrow> n \<in> blocks_of s P"
  proof
    assume "b \<in> P"
    then have "n \<in> blocks_of t P" unfolding blocks_of_def using b(5) by force
    then show "n \<in> blocks_of s P" using b(10) by simp
  next
    assume "n \<in> blocks_of s P"
    then have "n \<in> blocks_of t P" using b(10) by simp
    then obtain c where "c \<in> P" "b_blockno (bufs t c) = n" unfolding blocks_of_def by force
    then show "b \<in> P" using bcache_inv_blockno_inj [OF b(4), of b c] b(5) by simp
  qed
  have "logged_update n f s = Inr w" using b(1,6) v(1) w(1) by (simp add: logged_update_def u_def)
  moreover have "log_frame s w"
    using log_frame_trans [OF log_frame_io [OF u(2)] log_frame_trans [OF log_write_frame [OF v(1)] log_frame_io [OF w(4)]]] .
  moreover have "blocks_of w (insert b P) = insert n (blocks_of s P)" unfolding bw using b(5,10) by simp
  moreover have "view w = (view s)(n := f (view s n))" "disk w = disk s" "dtrace w = dtrace s"
    using w(3,5,6) v(3,4,5) vu u(3,4) by simp_all
  moreover have "lh_n w = lh_n s + (if n \<in> blocks_of s P then 0 else 1)"
    using v(6) lu(4) bP io_frame_log(5) [OF w(4)] by simp
  ultimately show ?thesis unfolding must_iff using txw by blast
qed

section \<open>A concrete disk and machine\<close>

definition zero_buf :: buf where
  "zero_buf = \<lparr>b_valid = False, b_disk = False, b_dev = 0, b_blockno = 0, b_lock = initsleeplock, b_refcnt = 0,
     b_prev = 0, b_next = 0, b_data = (\<lambda>_. 0)\<rparr>"

text \<open>The machine after \<open>binit\<close>, with the first process running and an empty disk.\<close>

definition boot_log :: klog where
  "boot_log = binit \<lparr>sym_end = 0x80020000, sym_etext = 0x80008000, sym_trampoline = 0x80007000, mem = (\<lambda>_. 0), freelist = 0,
     procs = (\<lambda>_. zero_proc), cpu_proc = (\<lambda>_. Some 0), hart = 0, nextpid = 2, initproc = Some 0, ticks = 0,
     bufs = (\<lambda>_. zero_buf), disk = (\<lambda>_ _. 0), dtrace = [], log_start = 2, log_dev = ROOTDEV, log_outstanding = 0,
     log_committing = False, lh_n = 0, lh_block = (\<lambda>_. 0)\<rparr>"

lemma boot_log_fields [simp]:
  "disk boot_log = (\<lambda>_ _. 0)" "log_start boot_log = 2" "log_dev boot_log = ROOTDEV" "log_outstanding boot_log = 0"
  "log_committing boot_log = False" "lh_n boot_log = 0" "curpid boot_log = Some 0"
  by (simp_all add: boot_log_def binit_def curpid_def myproc_def cpuid_def zero_proc_def)

lemma hdr_n_zero: "hdr_n (\<lambda>_. 0) = 0"
  by (simp add: hdr_n_def le_load_zero wrap32_def)

lemma boot_log_inv: "bcache_inv boot_log {} {}"
  unfolding boot_log_def by (rule binit_inv) (simp add: bufs_zero_def zero_buf_def)

lemma boot_log_tx: "tx_inv boot_log {} {}"
  using boot_log_inv by (simp add: tx_inv_def hdr_n_zero)

text \<open>A transaction of any size up to three reservations, made by three operations.\<close>

lemma log_run_update:
  assumes "log_run s R" and "R p = Some w" and "w < MAXOPBLOCKS" and "logged_update n f s = Inr t"
  shows "log_run t (R(p \<mapsto> Suc w))"
proof -
  obtain b s1 s2 where b: "bread ROOTDEV n s = Inr (b, s1)" "log_write b (set_data b (f (b_data (bufs s1 b))) s1) = Inr s2"
    "brelse b s2 = Inr t" using assms(4) by (auto simp: logged_update_def kbind_eq_Inr)
  have "log_run (set_data b (f (b_data (bufs s1 b))) s1) R"
    using assms(1) io_frame_trans [OF bread_io_frame [OF b(1)] io_frame_set_data] by (rule log_run.other)
  then have "log_run s2 (R(p \<mapsto> Suc w))" using assms(2,3) b(2) by (rule log_run.logged)
  then show ?thesis using brelse_io_frame [OF b(3)] by (rule log_run.other)
qed

lemma log_run_extend:
  fixes s :: "'a klog_scheme"
  assumes "log_run s R" and "R p = Some w" and "w + k \<le> MAXOPBLOCKS" and "tx_inv s {} P" and "1 \<le> log_outstanding s"
    and "lh_n s + int k \<le> int LOGBLOCKS" and "log_start s = 2" and "blocks_of s P = {100..<100 + nat (lh_n s)}"
  shows "\<exists>(t::'a klog_scheme) Q. log_run t (R(p \<mapsto> w + k)) \<and> tx_inv t {} Q \<and> lh_n t = lh_n s + int k \<and> log_outstanding t = log_outstanding s \<and>
    log_start t = 2 \<and> blocks_of t Q = {100..<100 + nat (lh_n t)}"
  using assms
proof (induction k arbitrary: s R w P)
  case 0
  then show ?case by - (rule exI [of _ s], rule exI [of _ P], simp add: map_upd_triv)
next
  case (Suc k)
  let ?n = "100 + nat (lh_n s)"
  have n0: "0 \<le> lh_n s" "lh_n s < 30" using Suc.prems(4,6) by (auto simp: tx_inv_def)
  have "card P < NBUF" using card_pinned [OF Suc.prems(4)] n0 by simp
  then have r: "room s {} P ?n" by (simp add: room_def)
  have nl: "?n \<notin> blocks_of s {}" "?n \<notin> log_area (log_start s)" "?n < 2 ^ 32"
    using Suc.prems(7) n0 by (simp_all add: log_area_def)
  have "must (logged_update ?n (\<lambda>_ _. 1) s) (\<lambda>t. \<exists>Q. tx_inv t {} Q \<and> view t = (view s)(?n := (\<lambda>_ _. 1) (view s ?n)) \<and>
    blocks_of t Q = insert ?n (blocks_of s P) \<and> log_frame s t \<and> disk t = disk s \<and> dtrace t = dtrace s \<and>
    lh_n t = lh_n s + (if ?n \<in> blocks_of s P then 0 else 1))"
    by (rule logged_update_ok [OF Suc.prems(4) nl r]) (use n0 Suc.prems(5) in simp_all)
  then obtain t Q where t: "logged_update ?n (\<lambda>_ _. 1) s = Inr t" "tx_inv t {} Q" "blocks_of t Q = insert ?n (blocks_of s P)"
    "log_frame s t" "lh_n t = lh_n s + (if ?n \<in> blocks_of s P then 0 else 1)"
    by (auto simp: must_iff)
  have lt: "lh_n t = lh_n s + 1" using t(5) Suc.prems(8) by simp
  have R: "log_run t (R(p \<mapsto> Suc w))"
    using Suc.prems(1,2) _ t(1) by (rule log_run_update) (use Suc.prems(3) in simp)
  have "\<exists>(u::'a klog_scheme) Q. log_run u ((R(p \<mapsto> Suc w))(p \<mapsto> Suc w + k)) \<and> tx_inv u {} Q \<and> lh_n u = lh_n t + int k \<and>
    log_outstanding u = log_outstanding t \<and> log_start u = 2 \<and> blocks_of u Q = {100..<100 + nat (lh_n u)}"
  proof (rule Suc.IH [OF R _ _ t(2)])
    show "blocks_of t Q = {100..<100 + nat (lh_n t)}"
      using t(3) Suc.prems(8) lt n0 by (auto simp: nat_add_distrib)
  qed (use Suc.prems lt log_frame_fields [OF t(4)] in auto)
  moreover have "(R(p \<mapsto> Suc w))(p \<mapsto> Suc w + k) = R(p \<mapsto> w + Suc k)" by simp
  ultimately show ?case using lt log_frame_fields [OF t(4)] by (simp only:) (simp add: algebra_simps fun_upd_def)
qed

lemma log_run_start:
  fixes s :: "'a klog_scheme"
  assumes "log_run s R" and "R p = None" and "tx_inv s {} P" and "log_start s = 2" and "\<not> log_committing s"
    and "lh_n s + (log_outstanding s + 1) * 10 \<le> 30" and "0 \<le> log_outstanding s" and "blocks_of s P = {100..<100 + nat (lh_n s)}"
  shows "\<exists>t::'a klog_scheme. log_run t (R(p \<mapsto> 0)) \<and> tx_inv t {} P \<and> lh_n t = lh_n s \<and> log_outstanding t = log_outstanding s + 1 \<and>
    log_start t = 2 \<and> blocks_of t P = {100..<100 + nat (lh_n t)}"
proof -
  let ?t = "s\<lparr>log_outstanding := log_outstanding s + 1\<rparr>"
  have "begin_op s = Inr ?t" using assms(5,6) by (simp add: begin_op_def)
  with assms(1,2) have "log_run ?t (R(p \<mapsto> 0))" by (rule log_run.start)
  moreover have "tx_inv ?t {} P" using assms(3) by (simp add: tx_inv_def bcache_inv_lh blocks_of_def)
  ultimately show ?thesis using assms(4,8) by - (rule exI [of _ ?t], simp add: blocks_of_def)
qed

lemma three_reservations:
  assumes "n \<le> LOGBLOCKS"
  shows "\<exists>(s::klog) R P. log_run s R \<and> tx_inv s {} P \<and> lh_n s = int n \<and> log_outstanding s = 3"
proof -
  have r0: "log_run boot_log Map.empty" by (rule log_run.init) simp_all
  obtain s1 :: klog where s1: "log_run s1 [0 \<mapsto> 0]" "tx_inv s1 {} {}" "lh_n s1 = 0" "log_outstanding s1 = 1" "log_start s1 = 2"
    "blocks_of s1 {} = {100..<100 + nat (lh_n s1)}"
    using log_run_start [OF r0 _ boot_log_tx, of 0] by auto
  have c1: "\<not> log_committing s1" using log_run_budget [OF s1(1)] by (simp add: log_budget_def)
  obtain s2 :: klog where s2: "log_run s2 [0 \<mapsto> 0, 1 \<mapsto> 0]" "tx_inv s2 {} {}" "lh_n s2 = 0" "log_outstanding s2 = 2" "log_start s2 = 2"
    "blocks_of s2 {} = {100..<100 + nat (lh_n s2)}"
    using log_run_start [OF s1(1) _ s1(2), of 1] s1 c1 by auto
  have c2: "\<not> log_committing s2" using log_run_budget [OF s2(1)] by (simp add: log_budget_def)
  obtain s3 :: klog where s3: "log_run s3 [0 \<mapsto> 0, 1 \<mapsto> 0, 2 \<mapsto> 0]" "tx_inv s3 {} {}" "lh_n s3 = 0" "log_outstanding s3 = 3"
    "log_start s3 = 2" "blocks_of s3 {} = {100..<100 + nat (lh_n s3)}"
    using log_run_start [OF s2(1) _ s2(2), of 2] s2 c2 by auto
  define a b c where "a = min n 10" "b = min (n - a) 10" "c = n - a - b"
  have abc: "a \<le> 10" "b \<le> 10" "c \<le> 10" "n = a + b + c" using assms by (auto simp: a_b_c_def)
  obtain t1 :: klog and P1 where t1: "log_run t1 ([0 \<mapsto> 0, 1 \<mapsto> 0, 2 \<mapsto> 0](0 \<mapsto> 0 + a))" "tx_inv t1 {} P1" "lh_n t1 = int a"
    "log_outstanding t1 = 3" "log_start t1 = 2" "blocks_of t1 P1 = {100..<100 + nat (lh_n t1)}"
    using log_run_extend [OF s3(1) _ _ s3(2), of 0 0 a] s3 abc by auto
  obtain t2 :: klog and P2 where t2: "log_run t2 ([0 \<mapsto> 0, 1 \<mapsto> 0, 2 \<mapsto> 0](0 \<mapsto> 0 + a, 1 \<mapsto> 0 + b))" "tx_inv t2 {} P2" "lh_n t2 = int a + int b"
    "log_outstanding t2 = 3" "log_start t2 = 2" "blocks_of t2 P2 = {100..<100 + nat (lh_n t2)}"
    using log_run_extend [OF t1(1) _ _ t1(2), of 1 0 b] t1 abc by auto
  obtain t3 :: klog and P3 where t3: "log_run t3 ([0 \<mapsto> 0, 1 \<mapsto> 0, 2 \<mapsto> 0](0 \<mapsto> 0 + a, 1 \<mapsto> 0 + b, 2 \<mapsto> 0 + c))" "tx_inv t3 {} P3"
    "lh_n t3 = int a + int b + int c" "log_outstanding t3 = 3"
    using log_run_extend [OF t2(1) _ _ t2(2), of 2 0 c] t2 abc by auto
  show ?thesis using t3 abc(4) by (metis of_nat_add)
qed

section \<open>Properties\<close>

text \<open>C1. Crash atomicity of the log. A transaction with fewer logged blocks than the cache has
  buffers commits without a panic. If the machine stops after any number \<open>k\<close> of the commit's
  disk writes, recovery on the next boot returns, and every block outside the log is then
  either as it was before the transaction, for all blocks, or as the transaction left it, for
  all blocks; the latter exactly when the header write was among the \<open>k\<close>.\<close>

theorem commit_crash_atomic:
  fixes s :: "'a klog_scheme"
  assumes "tx_inv s {} P" and "0 < lh_n s" and "lh_n s < int NBUF"
  shows "\<exists>t W. commit s = Inr t \<and> dtrace t = dtrace s @ W \<and> disk t = apply_writes W (disk s) \<and>
    length W = 2 * nat (lh_n s) + 2 \<and> lh_n t = 0 \<and>
    (\<forall>k (r::klog). k \<le> length W \<and> rebooted (apply_writes (take k W) (disk s)) r \<longrightarrow>
       (\<exists>u. initlog ROOTDEV (log_start s) r = Inr u \<and>
          (\<forall>m. m \<notin> log_area (log_start s) \<longrightarrow> disk u m = (if k \<le> nat (lh_n s) then disk s m else view s m))))"
proof -
  obtain t h1 h0 where t: "commit s = Inr t" "io_frame (s\<lparr>lh_n := 0\<rparr>) t" "hdr_n h1 = lh_n s"
    "\<forall>j<nat (lh_n s). hdr_block h1 j = lh_block s j" "hdr_n h0 = 0"
    "dtrace t = dtrace s @ commit_writes s h1 h0" "disk t = apply_writes (commit_writes s h1 h0) (disk s)"
    using commit_ok [OF assms] by blast
  have "\<exists>u. initlog ROOTDEV (log_start s) r = Inr u \<and>
      (\<forall>m. m \<notin> log_area (log_start s) \<longrightarrow> disk u m = (if k \<le> nat (lh_n s) then disk s m else view s m))"
    if k: "k \<le> length (commit_writes s h1 h0)" and r: "rebooted (apply_writes (take k (commit_writes s h1 h0)) (disk s)) r"
    for k and r :: klog
  proof -
    note c = crash_disk [OF assms(1) t(3,4,5) k]
    obtain u where u: "initlog ROOTDEV (log_start s) r = Inr u"
      "disk u = (apply_writes (install_writes (log_start s) (disk r)) (disk r))(log_start s := disk u (log_start s))"
      using initlog_ok [OF r c(1)] r by (auto simp: rebooted_def)
    have "disk u m = (if k \<le> nat (lh_n s) then disk s m else view s m)" if "m \<notin> log_area (log_start s)" for m
    proof -
      have "m \<noteq> log_start s" using that by (auto simp: log_area_def)
      then have "disk u m = apply_writes (install_writes (log_start s) (disk r)) (disk r) m" by (subst u(2)) simp
      then show ?thesis using c(2) [OF that] r by (simp add: rebooted_def)
    qed
    then show ?thesis using u(1) by blast
  qed
  moreover have "length (commit_writes s h1 h0) = 2 * nat (lh_n s) + 2" by (simp add: commit_writes_def log_writes_def)
  moreover have "lh_n t = 0" using io_frame_log(5) [OF t(2)] by simp
  ultimately show ?thesis using t by blast
qed

lemma boot_rebooted: "rebooted D (boot_log\<lparr>disk := D\<rparr>)"
proof -
  have "bcache_inv (boot_log\<lparr>disk := D\<rparr>) {} {}"
    using boot_log_inv by (auto simp: bcache_inv_def buf_unique_def buf_wf_def boot_log_def binit_def binit_loop_fields zero_buf_def)
  then show ?thesis by (simp add: rebooted_def)
qed

theorem commit_crash_atomic_witness:
  "\<exists>(s::klog) P t W u. tx_inv s {} P \<and> lh_n s = 1 \<and> commit s = Inr t \<and> dtrace t = dtrace s @ W \<and> length W = 4 \<and>
    initlog ROOTDEV (log_start s) (boot_log\<lparr>disk := apply_writes (take 2 W) (disk s)\<rparr>) = Inr u"
proof -
  obtain s :: klog and R P where s: "tx_inv s {} P" "lh_n s = 1" using three_reservations [of 1] by auto
  obtain t W where t: "commit s = Inr t" "dtrace t = dtrace s @ W" "length W = 4"
    "\<forall>k (r::klog). k \<le> length W \<and> rebooted (apply_writes (take k W) (disk s)) r \<longrightarrow>
       (\<exists>u. initlog ROOTDEV (log_start s) r = Inr u \<and>
          (\<forall>m. m \<notin> log_area (log_start s) \<longrightarrow> disk u m = (if k \<le> nat (lh_n s) then disk s m else view s m)))"
    using commit_crash_atomic [OF s(1)] s(2) by auto
  have "\<exists>u. initlog ROOTDEV (log_start s) (boot_log\<lparr>disk := apply_writes (take 2 W) (disk s)\<rparr>) = Inr u"
    using t(4) [rule_format, OF conjI [OF _ boot_rebooted], of 2] t(3) by auto
  then show ?thesis using s t(1-3) by blast
qed

lemma apply_writes_again: "m \<in> fst ` set ws \<Longrightarrow> apply_writes ws D m = apply_writes ws E m"
proof (induction ws arbitrary: D E)
  case (Cons w ws)
  show ?case
  proof (cases "m \<in> fst ` set ws")
    case False
    then show ?thesis using Cons.prems by (auto simp: apply_writes_other)
  qed (use Cons in simp)
qed simp

lemma apply_writes_prefix: "apply_writes ws (apply_writes (take k ws) D) = apply_writes ws D"
proof
  fix m show "apply_writes ws (apply_writes (take k ws) D) m = apply_writes ws D m"
  proof (cases "m \<in> fst ` set ws")
    case True
    then show ?thesis by (rule apply_writes_again)
  qed (simp add: apply_writes_other apply_take_other)
qed

text \<open>C3. Recovery is idempotent: if the machine stops after any number of recovery's own disk
  writes, the recovery of the next boot leaves every block outside the log with the contents
  the interrupted recovery would have given it.\<close>

theorem recovery_idempotent:
  fixes r :: "'a klog_scheme"
  assumes "rebooted D r" and "hdr_ok st D"
  shows "\<exists>u W. initlog ROOTDEV st r = Inr u \<and> dtrace u = dtrace r @ W \<and> W \<noteq> [] \<and>
    (\<forall>k (q::klog). k \<le> length W \<and> rebooted (apply_writes (take k W) D) q \<longrightarrow>
       (\<exists>v. initlog ROOTDEV st q = Inr v \<and> (\<forall>m. m \<notin> log_area st \<longrightarrow> disk v m = disk u m)))"
proof -
  define I where "I = install_writes st D"
  obtain u h0 where u: "initlog ROOTDEV st r = Inr u" "hdr_n h0 = 0" "dtrace u = dtrace r @ I @ [(st, h0)]"
    "disk u = (apply_writes I D)(st := h0)"
    using initlog_ok [OF assms] unfolding I_def by blast
  have IA: "x \<notin> fst ` set I" if "x \<in> log_area st" for x
    using that assms(2) by (auto simp: I_def install_writes_def hdr_ok_def)
  have "\<exists>v. initlog ROOTDEV st q = Inr v \<and> (\<forall>m. m \<notin> log_area st \<longrightarrow> disk v m = disk u m)"
    if k: "k \<le> length (I @ [(st, h0)])" and q: "rebooted (apply_writes (take k (I @ [(st, h0)])) D) q" for k and q :: klog
  proof (cases "k \<le> length I")
    case True
    define E where "E = apply_writes (take k I) D"
    have q': "rebooted E q" using q True by (simp add: E_def)
    have EA: "E x = D x" if "x \<in> log_area st" for x unfolding E_def by (rule apply_take_other [OF IA [OF that]])
    have st: "E st = D st" using EA by (simp add: log_area_def)
    have lb: "E (st + j + 1) = D (st + j + 1)" if "j < nat (hdr_n (D st))" for j
      using that assms(2) by (intro EA) (auto simp: hdr_ok_def log_area_def)
    have "hdr_ok st E" using assms(2) st by (simp add: hdr_ok_def)
    moreover have "install_writes st E = I" using lb st by (simp add: install_writes_def I_def)
    ultimately obtain v h where v: "initlog ROOTDEV st q = Inr v" "disk v = (apply_writes I E)(st := h)"
      using initlog_ok [OF q', of st] by auto
    have "disk v m = disk u m" if "m \<notin> log_area st" for m
      using that v(2) u(4) apply_writes_prefix [of I k D] by (auto simp: E_def log_area_def)
    then show ?thesis using v(1) by blast
  next
    case False
    define E where "E = (apply_writes I D)(st := h0)"
    have q': "rebooted E q" using q False k by (simp add: E_def apply_writes_append)
    have "hdr_n (E st) = 0" using u(2) by (simp add: E_def)
    then have "hdr_ok st E" "install_writes st E = []" by (simp_all add: hdr_ok_def install_writes_nil)
    then obtain v h where v: "initlog ROOTDEV st q = Inr v" "disk v = E(st := h)"
      using initlog_ok [OF q', of st] by auto
    have "disk v m = disk u m" if "m \<notin> log_area st" for m
      using that v(2) u(4) by (auto simp: E_def log_area_def)
    then show ?thesis using v(1) by blast
  qed
  then show ?thesis using u(1,3) by blast
qed

theorem recovery_idempotent_witness:
  "\<exists>(u::klog) W v. initlog ROOTDEV 2 (boot_log\<lparr>disk := (\<lambda>_ _. 0)\<rparr>) = Inr u \<and> length W = 1 \<and>
    initlog ROOTDEV 2 (boot_log\<lparr>disk := apply_writes W (\<lambda>_ _. 0)\<rparr>) = Inr (v::klog) \<and> disk v 500 = disk u 500"
proof -
  let ?D = "\<lambda>_ _. 0 :: uchar"
  have h: "hdr_ok 2 ?D" by (simp add: hdr_ok_def hdr_n_zero)
  obtain u :: klog and W where u: "initlog ROOTDEV 2 (boot_log\<lparr>disk := ?D\<rparr>) = Inr u" "W \<noteq> []"
    "\<forall>k (q::klog). k \<le> length W \<and> rebooted (apply_writes (take k W) ?D) q \<longrightarrow>
       (\<exists>v. initlog ROOTDEV 2 q = Inr v \<and> (\<forall>m. m \<notin> log_area 2 \<longrightarrow> disk v m = disk u m))"
    using recovery_idempotent [OF boot_rebooted h] by blast
  have "1 \<le> length W" using u(2) by (cases W) auto
  then obtain v where "initlog ROOTDEV 2 (boot_log\<lparr>disk := apply_writes (take 1 W) ?D\<rparr>) = Inr v" "disk v 500 = disk u 500"
    using u(3) [rule_format, OF conjI [OF _ boot_rebooted], of 1] by (auto simp: log_area_def)
  moreover have "length (take 1 W) = 1" using \<open>1 \<le> length W\<close> by simp
  ultimately show ?thesis using u(1) by blast
qed

text \<open>C4. Admission by \<open>begin_op\<close> keeps the log from overflowing: whatever the interleaving of
  operations, an operation that has made fewer than \<open>MAXOPBLOCKS\<close> calls of \<open>log_write\<close> can
  make another one without a panic, and the transaction never exceeds \<open>LOGBLOCKS\<close> blocks.\<close>

theorem log_write_fits:
  assumes "log_run s R" and "R p = Some w" and "w < MAXOPBLOCKS"
  shows "(\<exists>t. log_write b s = Inr t) \<and> lh_n s < int LOGBLOCKS"
proof -
  have b: "log_budget s R" using assms(1) by (rule log_run_budget)
  then have f: "finite (dom R)" by (simp add: log_budget_def)
  have "1 \<le> reserved R" using reserved_remove [OF f assms(2)] assms(3) by simp
  then have "lh_n s < int LOGBLOCKS" using b by (simp add: log_budget_def)
  moreover have "dom R \<noteq> {}" using assms(2) by auto
  then have "card (dom R) \<noteq> 0" using f by simp
  then have "1 \<le> log_outstanding s" using b by (simp add: log_budget_def)
  ultimately show ?thesis by (simp add: log_write_def Let_def)
qed

theorem log_write_fits_witness:
  "\<exists>s t. log_run (s::klog) [7 \<mapsto> 0] \<and> log_write 0 s = Inr t"
proof -
  have "log_run boot_log Map.empty" by (rule log_run.init) simp_all
  moreover have "begin_op boot_log = Inr (boot_log\<lparr>log_outstanding := 1\<rparr>)" by (simp add: begin_op_def)
  ultimately have "log_run (boot_log\<lparr>log_outstanding := 1\<rparr>) [7 \<mapsto> 0]" by (intro log_run.start) simp_all
  then show ?thesis using log_write_fits [of "boot_log\<lparr>log_outstanding := 1\<rparr>" "[7 \<mapsto> 0]" 7 0 0] by auto
qed

text \<open>C2. The cache seen through the log: inside a transaction, reading a block, changing its
  data, \<open>log_write\<close> and \<open>brelse\<close> changes the contents of that block as every later reader
  sees them and of no other block, writes nothing to the disk, and adds the block to the
  transaction at most once.\<close>

theorem logged_update_refines:
  fixes s :: "'a klog_scheme"
  assumes "tx_inv s {} P" and "n \<notin> log_area (log_start s)" and "n < 2 ^ 32" and "lh_n s < int LOGBLOCKS"
    and "1 \<le> log_outstanding s"
  shows "must (logged_update n f s) (\<lambda>t. \<exists>Q. tx_inv t {} Q \<and> view t = (view s)(n := f (view s n)) \<and> disk t = disk s \<and>
    lh_n t = lh_n s + (if n \<in> lh_block s ` {0..<nat (lh_n s)} then 0 else 1) \<and>
    lh_block t ` {0..<nat (lh_n t)} = insert n (lh_block s ` {0..<nat (lh_n s)}))"
proof -
  have c: "card P < NBUF" using card_pinned [OF assms(1)] assms(4) by simp
  have b: "blocks_of s P = lh_block s ` {0..<nat (lh_n s)}" using assms(1) by (simp add: tx_inv_def)
  have "must (logged_update n f s) (\<lambda>t. \<exists>Q. tx_inv t {} Q \<and> view t = (view s)(n := f (view s n)) \<and>
    blocks_of t Q = insert n (blocks_of s P) \<and> log_frame s t \<and> disk t = disk s \<and> dtrace t = dtrace s \<and>
    lh_n t = lh_n s + (if n \<in> blocks_of s P then 0 else 1))"
    using assms c by (intro logged_update_ok) (simp_all add: room_def)
  then show ?thesis
  proof (rule must_weaken)
    fix t assume "\<exists>Q. tx_inv t {} Q \<and> view t = (view s)(n := f (view s n)) \<and> blocks_of t Q = insert n (blocks_of s P) \<and>
      log_frame s t \<and> disk t = disk s \<and> dtrace t = dtrace s \<and> lh_n t = lh_n s + (if n \<in> blocks_of s P then 0 else 1)"
    then obtain Q where Q: "tx_inv t {} Q" "view t = (view s)(n := f (view s n))" "blocks_of t Q = insert n (blocks_of s P)"
      "disk t = disk s" "lh_n t = lh_n s + (if n \<in> blocks_of s P then 0 else 1)" by blast
    have "lh_block t ` {0..<nat (lh_n t)} = blocks_of t Q" using Q(1) by (simp add: tx_inv_def)
    then show "\<exists>Q. tx_inv t {} Q \<and> view t = (view s)(n := f (view s n)) \<and> disk t = disk s \<and>
      lh_n t = lh_n s + (if n \<in> lh_block s ` {0..<nat (lh_n s)} then 0 else 1) \<and>
      lh_block t ` {0..<nat (lh_n t)} = insert n (lh_block s ` {0..<nat (lh_n s)})"
      using Q unfolding b by metis
  qed
qed

theorem logged_update_refines_witness:
  "must (logged_update 50 (\<lambda>_ _. 9) (boot_log\<lparr>log_outstanding := 1\<rparr>)) (\<lambda>t. view t 50 = (\<lambda>_. 9) \<and> lh_n t = 1)"
proof -
  have "tx_inv (boot_log\<lparr>log_outstanding := 1\<rparr>) {} {}"
    using boot_log_tx by (simp add: tx_inv_def bcache_inv_lh blocks_of_def)
  from logged_update_refines [OF this, of 50 "\<lambda>_ _. 9"] show ?thesis
    by (auto simp: log_area_def must_iff)
qed

text \<open>C28. A transaction that fills the log cannot commit: with \<open>LOGBLOCKS\<close> blocks logged, every
  buffer of the cache is pinned (\<open>NBUF\<close> equals \<open>LOGBLOCKS\<close>), the first \<open>bread\<close> of a log block
  in \<open>write_log\<close> finds no buffer to recycle, and the kernel panics. The transaction is within
  the reservations \<open>begin_op\<close> grants: the witness reaches it with three operations of
  \<open>MAXOPBLOCKS\<close> blocks each.\<close>

theorem full_log_commit_panics:
  fixes s :: "'a klog_scheme"
  assumes tx: "tx_inv s {} P" and n: "lh_n s = int LOGBLOCKS"
  shows "commit s = Inl (Panic ''bget: no buffers'')"
proof -
  have i: "bcache_inv s {} P" and d: "log_dev s = ROOTDEV" using tx by (simp_all add: tx_inv_def)
  have "card P = NBUF" using card_pinned [OF tx] n by simp
  moreover have "P \<subseteq> {..<NBUF}" using i by (auto simp: bcache_inv_def)
  ultimately have P: "{} \<union> P = {..<NBUF}" by (simp add: card_subset_eq)
  have "log_start s + 1 \<notin> blocks_of s ({} \<union> P)"
    using tx log_area_mem [of 0 s] n by (auto simp: tx_inv_def)
  then have "bread ROOTDEV (log_start s + 1) s = Inl (Panic ''bget: no buffers'')"
    by (rule bread_no_buffers [OF i P])
  then have "write_log_copy 0 s = Inl (Panic ''bget: no buffers'')" using d by (simp add: write_log_copy_def)
  then have "write_log_loop 0 (Suc 29) s = Inl (Panic ''bget: no buffers'')" by (simp only: write_log_loop.simps kbind_Inl)
  moreover have "nat (lh_n s) = Suc 29" using n by simp
  ultimately have "write_log s = Inl (Panic ''bget: no buffers'')" unfolding write_log_def by metis
  then show ?thesis using n by (simp add: commit_def)
qed

theorem full_log_commit_panics_witness:
  "\<exists>(s::klog) R. log_run s R \<and> lh_n s = int LOGBLOCKS \<and> commit s = Inl (Panic ''bget: no buffers'')"
  using three_reservations [of LOGBLOCKS] full_log_commit_panics by blast

end
