(* ===== verification/Vm.thy ===== *)
theory Vm
  imports Proc_Table
begin

text \<open>
  Page tables, \<open>kernel/vm.c\<close>. A page table is a tree of 4096-byte pages in physical memory;
  \<open>pagetable_t\<close> and \<open>pte_t *\<close> are addresses, with 0 the null pointer.

  The kernel runs on a direct map, so that an address in kernel code is a physical address.
  The kernel side of a copy is an array of bytes with an offset: \<open>copyout\<close> reads from it and
  \<open>copyin\<close> returns the updated array. Lengths and page counts are natural numbers below
  \<open>2 ^ 64\<close>. Loops over page addresses run on fuel; the result \<open>Hangs\<close> is shown not to occur.
  The TLB and the control registers are not part of the state.
\<close>

section \<open>Walking\<close>

definition pte_addr :: "addr \<Rightarrow> uint64 \<Rightarrow> addr" where
  "pte_addr pt i = pt + 8 * i"

fun walk_loop :: "nat \<Rightarrow> addr \<Rightarrow> uint64 \<Rightarrow> bool \<Rightarrow> 'a kmem_scheme \<Rightarrow> addr \<times> 'a kmem_scheme" where
  "walk_loop 0 pagetable va alloc s = (pte_addr pagetable (PX 0 va), s)"
| "walk_loop (Suc l) pagetable va alloc s =
     (let pte = pte_addr pagetable (PX (Suc l) va); v = load64 (mem s) pte
      in if v AND PTE_V \<noteq> 0 then walk_loop l (PTE2PA v) va alloc s
         else if \<not> alloc then (0, s)
         else let (p, s) = kalloc s
              in if p = 0 then (0, s)
                 else let m = memset (mem s) p 0 PGSIZE;
                          m = store64 m pte (PA2PTE p OR PTE_V)
                      in walk_loop l p va alloc (s\<lparr>mem := m\<rparr>))"

definition walk :: "addr \<Rightarrow> uint64 \<Rightarrow> bool \<Rightarrow> 'a kmem_scheme \<Rightarrow> (addr \<times> 'a kmem_scheme) kres" where
  "walk pagetable va alloc s =
     (if va \<ge> MAXVA then Inl (Panic ''walk'') else Inr (walk_loop 2 pagetable va alloc s))"

definition walkaddr :: "addr \<Rightarrow> uint64 \<Rightarrow> 'a kmem_scheme \<Rightarrow> uint64 kres" where
  "walkaddr pagetable va s =
     (if va \<ge> MAXVA then Inr 0
      else kbind (walk pagetable va False s) (\<lambda>(pte, s).
           if pte = 0 then Inr 0
           else let v = load64 (mem s) pte
                in if v AND PTE_V = 0 then Inr 0
                   else if v AND PTE_U = 0 then Inr 0
                   else Inr (PTE2PA v)))"

definition ismapped :: "addr \<Rightarrow> uint64 \<Rightarrow> 'a kmem_scheme \<Rightarrow> bool kres" where
  "ismapped pagetable va s =
     kbind (walk pagetable va False s) (\<lambda>(pte, s).
     if pte = 0 then Inr False else Inr (load64 (mem s) pte AND PTE_V \<noteq> 0))"

section \<open>Mapping\<close>

fun mappages_loop ::
  "nat \<Rightarrow> addr \<Rightarrow> uint64 \<Rightarrow> uint64 \<Rightarrow> uint64 \<Rightarrow> uint64 \<Rightarrow> 'a kmem_scheme \<Rightarrow> (int \<times> 'a kmem_scheme) kres"
where
  "mappages_loop 0 pagetable a alast pa perm s = Inl Hangs"
| "mappages_loop (Suc k) pagetable a alast pa perm s =
     kbind (walk pagetable a True s) (\<lambda>(pte, s).
     if pte = 0 then Inr (-1, s)
     else if load64 (mem s) pte AND PTE_V \<noteq> 0 then Inl (Panic ''mappages: remap'')
     else let s = s\<lparr>mem := store64 (mem s) pte (PA2PTE pa OR perm OR PTE_V)\<rparr>
          in if a = alast then Inr (0, s)
             else mappages_loop k pagetable (a + PGSIZE) alast (pa + PGSIZE) perm s)"

definition mappages ::
  "addr \<Rightarrow> uint64 \<Rightarrow> uint64 \<Rightarrow> uint64 \<Rightarrow> uint64 \<Rightarrow> 'a kmem_scheme \<Rightarrow> (int \<times> 'a kmem_scheme) kres"
where
  "mappages pagetable va sz pa perm s =
     (if va mod PGSIZE \<noteq> 0 then Inl (Panic ''mappages: va not aligned'')
      else if sz mod PGSIZE \<noteq> 0 then Inl (Panic ''mappages: size not aligned'')
      else if sz = 0 then Inl (Panic ''mappages: size'')
      else mappages_loop (unat sz div 4096) pagetable va (va + sz - PGSIZE) pa perm s)"

definition kvmmap :: "addr \<Rightarrow> uint64 \<Rightarrow> uint64 \<Rightarrow> uint64 \<Rightarrow> uint64 \<Rightarrow> 'a kmem_scheme \<Rightarrow> 'a kmem_scheme kres" where
  "kvmmap kpgtbl va pa sz perm s =
     kbind (mappages kpgtbl va sz pa perm s) (\<lambda>(r, s).
     if r \<noteq> 0 then Inl (Panic ''kvmmap'') else Inr s)"

text \<open>\<open>proc_mapstacks\<close> of \<open>kernel/proc.c\<close>: a page for each process's kernel stack.\<close>

primrec proc_mapstacks_loop :: "nat \<Rightarrow> addr \<Rightarrow> 'a kmem_scheme \<Rightarrow> 'a kmem_scheme kres" where
  "proc_mapstacks_loop 0 kpgtbl s = Inr s"
| "proc_mapstacks_loop (Suc p) kpgtbl s =
     kbind (proc_mapstacks_loop p kpgtbl s) (\<lambda>s.
     let (pa, s) = kalloc s
     in if pa = 0 then Inl (Panic ''kalloc'')
        else kvmmap kpgtbl (KSTACK p) pa PGSIZE (PTE_R OR PTE_W) s)"

definition proc_mapstacks :: "addr \<Rightarrow> 'a kmem_scheme \<Rightarrow> 'a kmem_scheme kres" where
  "proc_mapstacks kpgtbl s = proc_mapstacks_loop NPROC kpgtbl s"

definition kvmmake :: "'a kmem_scheme \<Rightarrow> (addr \<times> 'a kmem_scheme) kres" where
  "kvmmake s =
     (let (kpgtbl, s) = kalloc s; s = s\<lparr>mem := memset (mem s) kpgtbl 0 PGSIZE\<rparr>
      in kbind (kvmmap kpgtbl UART0 UART0 PGSIZE (PTE_R OR PTE_W) s) (\<lambda>s.
         kbind (kvmmap kpgtbl VIRTIO0 VIRTIO0 PGSIZE (PTE_R OR PTE_W) s) (\<lambda>s.
         kbind (kvmmap kpgtbl PLIC PLIC 0x4000000 (PTE_R OR PTE_W) s) (\<lambda>s.
         kbind (kvmmap kpgtbl KERNBASE KERNBASE (sym_etext s - KERNBASE) (PTE_R OR PTE_X) s) (\<lambda>s.
         kbind (kvmmap kpgtbl (sym_etext s) (sym_etext s) (PHYSTOP - sym_etext s) (PTE_R OR PTE_W) s) (\<lambda>s.
         kbind (kvmmap kpgtbl TRAMPOLINE (sym_trampoline s) PGSIZE (PTE_R OR PTE_X) s) (\<lambda>s.
         kbind (proc_mapstacks kpgtbl s) (\<lambda>s. Inr (kpgtbl, s)))))))))"

section \<open>User page tables\<close>

definition uvmcreate :: "'a kmem_scheme \<Rightarrow> addr \<times> 'a kmem_scheme" where
  "uvmcreate s =
     (let (pagetable, s) = kalloc s
      in if pagetable = 0 then (0, s)
         else (pagetable, s\<lparr>mem := memset (mem s) pagetable 0 PGSIZE\<rparr>))"

fun uvmunmap_loop :: "nat \<Rightarrow> addr \<Rightarrow> uint64 \<Rightarrow> uint64 \<Rightarrow> bool \<Rightarrow> 'a kmem_scheme \<Rightarrow> 'a kmem_scheme kres" where
  "uvmunmap_loop 0 pagetable a alast do_free s = Inl Hangs"
| "uvmunmap_loop (Suc k) pagetable a alast do_free s =
     (if a < alast
      then kbind (walk pagetable a False s) (\<lambda>(pte, s).
           if pte = 0 then uvmunmap_loop k pagetable (a + PGSIZE) alast do_free s
           else let v = load64 (mem s) pte
                in if v AND PTE_V = 0 then uvmunmap_loop k pagetable (a + PGSIZE) alast do_free s
                   else kbind (if do_free then kfree (PTE2PA v) s else Inr s) (\<lambda>s.
                        uvmunmap_loop k pagetable (a + PGSIZE) alast do_free
                          (s\<lparr>mem := store64 (mem s) pte 0\<rparr>)))
      else Inr s)"

definition uvmunmap :: "addr \<Rightarrow> uint64 \<Rightarrow> uint64 \<Rightarrow> bool \<Rightarrow> 'a kmem_scheme \<Rightarrow> 'a kmem_scheme kres" where
  "uvmunmap pagetable va npages do_free s =
     (if va mod PGSIZE \<noteq> 0 then Inl (Panic ''uvmunmap: not aligned'')
      else uvmunmap_loop (Suc (unat npages)) pagetable va (va + npages * PGSIZE) do_free s)"

text \<open>\<open>npages\<close> is an \<open>int\<close>, sign-extended in the call of \<open>uvmunmap\<close>.\<close>

definition uvmdealloc :: "addr \<Rightarrow> uint64 \<Rightarrow> uint64 \<Rightarrow> 'a kmem_scheme \<Rightarrow> (uint64 \<times> 'a kmem_scheme) kres" where
  "uvmdealloc pagetable oldsz newsz s =
     (if newsz \<ge> oldsz then Inr (oldsz, s)
      else if PGROUNDUP newsz < PGROUNDUP oldsz
      then let npages = of_int (wrap32 (uint ((PGROUNDUP oldsz - PGROUNDUP newsz) div PGSIZE)))
           in kbind (uvmunmap pagetable (PGROUNDUP newsz) npages True s) (\<lambda>s. Inr (newsz, s))
      else Inr (newsz, s))"

fun uvmalloc_loop ::
  "nat \<Rightarrow> addr \<Rightarrow> uint64 \<Rightarrow> uint64 \<Rightarrow> uint64 \<Rightarrow> uint64 \<Rightarrow> 'a kmem_scheme \<Rightarrow> (uint64 \<times> 'a kmem_scheme) kres"
where
  "uvmalloc_loop 0 pagetable a oldsz newsz xperm s = Inl Hangs"
| "uvmalloc_loop (Suc k) pagetable a oldsz newsz xperm s =
     (if a < newsz
      then let (p, s) = kalloc s
           in if p = 0 then kbind (uvmdealloc pagetable a oldsz s) (\<lambda>(_, s). Inr (0, s))
              else kbind (mappages pagetable a PGSIZE p (PTE_R OR PTE_U OR xperm)
                            (s\<lparr>mem := memset (mem s) p 0 PGSIZE\<rparr>)) (\<lambda>(r, s).
                   if r \<noteq> 0
                   then kbind (kfree p s) (\<lambda>s.
                        kbind (uvmdealloc pagetable a oldsz s) (\<lambda>(_, s). Inr (0, s)))
                   else uvmalloc_loop k pagetable (a + PGSIZE) oldsz newsz xperm s)
      else Inr (newsz, s))"

definition uvmalloc ::
  "addr \<Rightarrow> uint64 \<Rightarrow> uint64 \<Rightarrow> uint64 \<Rightarrow> 'a kmem_scheme \<Rightarrow> (uint64 \<times> 'a kmem_scheme) kres"
where
  "uvmalloc pagetable oldsz newsz xperm s =
     (if newsz < oldsz then Inr (oldsz, s)
      else uvmalloc_loop (unat newsz div 4096 + 2) pagetable (PGROUNDUP oldsz) (PGROUNDUP oldsz) newsz xperm s)"

text \<open>\<open>freewalk\<close> recurses once per level of the tree; the first argument bounds the depth, and a
  tree deeper than three levels, which \<open>walk\<close> never builds, would exceed it.\<close>

fun freewalk :: "nat \<Rightarrow> addr \<Rightarrow> 'a kmem_scheme \<Rightarrow> 'a kmem_scheme kres"
  and freewalk_loop :: "nat \<Rightarrow> nat list \<Rightarrow> addr \<Rightarrow> 'a kmem_scheme \<Rightarrow> 'a kmem_scheme kres"
where
  "freewalk 0 pagetable s = Inl Hangs"
| "freewalk (Suc d) pagetable s =
     kbind (freewalk_loop d [0..<512] pagetable s) (\<lambda>s. kfree pagetable s)"
| "freewalk_loop d [] pagetable s = Inr s"
| "freewalk_loop d (i # is) pagetable s =
     (let pte = load64 (mem s) (pte_addr pagetable (of_nat i))
      in if pte AND PTE_V \<noteq> 0 \<and> pte AND (PTE_R OR PTE_W OR PTE_X) = 0
         then kbind (freewalk d (PTE2PA pte) s) (\<lambda>s.
              freewalk_loop d is pagetable
                (s\<lparr>mem := store64 (mem s) (pte_addr pagetable (of_nat i)) 0\<rparr>))
         else if pte AND PTE_V \<noteq> 0 then Inl (Panic ''freewalk: leaf'')
         else freewalk_loop d is pagetable s)"

definition uvmfree :: "addr \<Rightarrow> uint64 \<Rightarrow> 'a kmem_scheme \<Rightarrow> 'a kmem_scheme kres" where
  "uvmfree pagetable sz s =
     kbind (if sz > 0 then uvmunmap pagetable 0 (PGROUNDUP sz div PGSIZE) True s else Inr s) (\<lambda>s.
     freewalk 3 pagetable s)"

fun uvmcopy_loop :: "nat \<Rightarrow> addr \<Rightarrow> addr \<Rightarrow> uint64 \<Rightarrow> uint64 \<Rightarrow> 'a kmem_scheme \<Rightarrow> (int \<times> 'a kmem_scheme) kres" where
  "uvmcopy_loop 0 old new i sz s = Inl Hangs"
| "uvmcopy_loop (Suc k) old new i sz s =
     (if i < sz
      then kbind (walk old i False s) (\<lambda>(pte, s).
           if pte = 0 then uvmcopy_loop k old new (i + PGSIZE) sz s
           else let v = load64 (mem s) pte
                in if v AND PTE_V = 0 then uvmcopy_loop k old new (i + PGSIZE) sz s
                   else let (p, s) = kalloc s
                        in if p = 0
                           then kbind (uvmunmap new 0 (i div PGSIZE) True s) (\<lambda>s. Inr (-1, s))
                           else kbind (mappages new i PGSIZE p (PTE_FLAGS v)
                                  (s\<lparr>mem := memmove (mem s) p (PTE2PA v) 4096\<rparr>)) (\<lambda>(r, s).
                                if r \<noteq> 0
                                then kbind (kfree p s) (\<lambda>s.
                                     kbind (uvmunmap new 0 (i div PGSIZE) True s) (\<lambda>s. Inr (-1, s)))
                                else uvmcopy_loop k old new (i + PGSIZE) sz s))
      else Inr (0, s))"

definition uvmcopy :: "addr \<Rightarrow> addr \<Rightarrow> uint64 \<Rightarrow> 'a kmem_scheme \<Rightarrow> (int \<times> 'a kmem_scheme) kres" where
  "uvmcopy old new sz s = uvmcopy_loop (unat sz div 4096 + 2) old new 0 sz s"

definition uvmclear :: "addr \<Rightarrow> uint64 \<Rightarrow> 'a kmem_scheme \<Rightarrow> 'a kmem_scheme kres" where
  "uvmclear pagetable va s =
     kbind (walk pagetable va False s) (\<lambda>(pte, s).
     if pte = 0 then Inl (Panic ''uvmclear'')
     else Inr (s\<lparr>mem := store64 (mem s) pte (load64 (mem s) pte AND NOT PTE_U)\<rparr>))"

section \<open>Copying between user and kernel\<close>

text \<open>The page the fault handler adds goes into the running process's own page table.\<close>

definition vmfault :: "addr \<Rightarrow> uint64 \<Rightarrow> 'a kproc_scheme \<Rightarrow> (uint64 \<times> 'a kproc_scheme) kres" where
  "vmfault pagetable va s =
     kbind (cur s) (\<lambda>p.
     if va \<ge> psz (procs s p) then Inr (0, s)
     else let va = PGROUNDDOWN va
          in kbind (ismapped pagetable va s) (\<lambda>b.
             if b then Inr (0, s)
             else let (m, s) = kalloc s
                  in if m = 0 then Inr (0, s)
                     else kbind (mappages (ppagetable (procs s p)) va PGSIZE m (PTE_W OR PTE_U OR PTE_R)
                            (s\<lparr>mem := memset (mem s) m 0 PGSIZE\<rparr>)) (\<lambda>(r, s).
                          if r \<noteq> 0 then kbind (kfree m s) (\<lambda>s. Inr (0, s)) else Inr (m, s))))"

text \<open>The translation both copies begin a round with: the page's physical address, after a page
  fault if need be; 0 if there is none.\<close>

definition user_page :: "addr \<Rightarrow> uint64 \<Rightarrow> 'a kproc_scheme \<Rightarrow> (uint64 \<times> 'a kproc_scheme) kres" where
  "user_page pagetable va0 s =
     kbind (walkaddr pagetable va0 s) (\<lambda>pa0.
     if pa0 = 0 then vmfault pagetable va0 s else Inr (pa0, s))"

text \<open>\<open>chunk va len\<close> is \<open>n\<close>: the bytes left in the page of \<open>va\<close>, at most \<open>len\<close>.\<close>

definition chunk :: "uint64 \<Rightarrow> nat \<Rightarrow> nat" where
  "chunk va len = min (4096 - unat (va - PGROUNDDOWN va)) len"

text \<open>Moving \<open>n\<close> bytes between an array and physical memory.\<close>

primrec array_to_mem :: "memory \<Rightarrow> addr \<Rightarrow> bytes \<Rightarrow> nat \<Rightarrow> nat \<Rightarrow> memory" where
  "array_to_mem m a src off 0 = m"
| "array_to_mem m a src off (Suc n) = array_to_mem (m(a := src off)) (a + 1) src (Suc off) n"

primrec mem_to_array :: "memory \<Rightarrow> addr \<Rightarrow> bytes \<Rightarrow> nat \<Rightarrow> nat \<Rightarrow> bytes" where
  "mem_to_array m a dst off 0 = dst"
| "mem_to_array m a dst off (Suc n) = mem_to_array m (a + 1) (dst(off := m a)) (Suc off) n"

lemma chunk_pos: "0 < len \<Longrightarrow> 0 < chunk va len"
proof -
  have "unat va mod 4096 < 4096" by simp
  then show "0 < len \<Longrightarrow> 0 < chunk va len" by (simp add: chunk_def unat_offset_PGROUNDDOWN)
qed

text \<open>\<open>copyout\<close> from offset \<open>off\<close> of the array \<open>src\<close>; dereferencing a null \<open>pte\<close> is a fault.\<close>

function copyout :: "addr \<Rightarrow> uint64 \<Rightarrow> bytes \<Rightarrow> nat \<Rightarrow> nat \<Rightarrow> 'a kproc_scheme \<Rightarrow> (int \<times> 'a kproc_scheme) kres" where
  "copyout pagetable dstva src off len s =
     (if len = 0 then Inr (0, s)
      else let va0 = PGROUNDDOWN dstva
           in if va0 \<ge> MAXVA then Inr (-1, s)
              else kbind (user_page pagetable va0 s) (\<lambda>(pa0, s).
                   if pa0 = 0 then Inr (-1, s)
                   else kbind (walk pagetable va0 False s) (\<lambda>(pte, s).
                        if pte = 0 then Inl (Fault ''copyout: pte'')
                        else if load64 (mem s) pte AND PTE_W = 0 then Inr (-1, s)
                        else let n = chunk dstva len
                             in copyout pagetable (va0 + PGSIZE) src (off + n) (len - n)
                                  (s\<lparr>mem := array_to_mem (mem s) (pa0 + (dstva - va0)) src off n\<rparr>))))"
  by pat_completeness auto
termination
  by (relation "measure (\<lambda>(pagetable, dstva, src, off, len, s). len)") (use chunk_pos in auto)

declare copyout.simps [simp del]

text \<open>\<open>copyin\<close> to offset \<open>off\<close> of the array \<open>dst\<close>; the result carries the array as far as it was
  filled, also when the copy fails half-way.\<close>

function copyin ::
  "addr \<Rightarrow> bytes \<Rightarrow> nat \<Rightarrow> uint64 \<Rightarrow> nat \<Rightarrow> 'a kproc_scheme \<Rightarrow> (int \<times> bytes \<times> 'a kproc_scheme) kres"
where
  "copyin pagetable dst off srcva len s =
     (if len = 0 then Inr (0, dst, s)
      else let va0 = PGROUNDDOWN srcva
           in kbind (user_page pagetable va0 s) (\<lambda>(pa0, s).
              if pa0 = 0 then Inr (-1, dst, s)
              else let n = chunk srcva len
                   in copyin pagetable (mem_to_array (mem s) (pa0 + (srcva - va0)) dst off n) (off + n)
                        (va0 + PGSIZE) (len - n) s))"
  by pat_completeness auto
termination
  by (relation "measure (\<lambda>(pagetable, dst, off, srcva, len, s). len)") (use chunk_pos in auto)

declare copyin.simps [simp del]

text \<open>The inner loop of \<open>copyinstr\<close>: at most \<open>n\<close> bytes from physical address \<open>p\<close>; the flag is
  \<open>got_null\<close>.\<close>

fun copystr_page :: "memory \<Rightarrow> addr \<Rightarrow> bytes \<Rightarrow> nat \<Rightarrow> nat \<Rightarrow> bool \<times> bytes" where
  "copystr_page m p dst off 0 = (False, dst)"
| "copystr_page m p dst off (Suc n) =
     (if m p = 0 then (True, dst(off := 0))
      else copystr_page m (p + 1) (dst(off := m p)) (Suc off) n)"

function copyinstr :: "addr \<Rightarrow> bytes \<Rightarrow> nat \<Rightarrow> uint64 \<Rightarrow> nat \<Rightarrow> 'a kmem_scheme \<Rightarrow> (int \<times> bytes) kres" where
  "copyinstr pagetable dst off srcva mx s =
     (if mx = 0 then Inr (-1, dst)
      else let va0 = PGROUNDDOWN srcva
           in kbind (walkaddr pagetable va0 s) (\<lambda>pa0.
              if pa0 = 0 then Inr (-1, dst)
              else let n = chunk srcva mx;
                       (got_null, dst) = copystr_page (mem s) (pa0 + (srcva - va0)) dst off n
                   in if got_null then Inr (0, dst)
                      else copyinstr pagetable dst (off + n) (va0 + PGSIZE) (mx - n) s))"
  by pat_completeness auto
termination
  by (relation "measure (\<lambda>(pagetable, dst, off, srcva, mx, s). mx)") (use chunk_pos in auto)

declare copyinstr.simps [simp del]

end
