(* ===== verification/Page_Table.thy ===== *)
theory Page_Table
  imports Vm
begin

text \<open>
  The tree of page-table pages behind \<open>walk\<close>: the entry a virtual address selects
  (\<open>pt_get\<close>), the invariant that the pages of a tree are pairwise distinct (\<open>pt_tree\<close>), and the
  effect of \<open>walk\<close> and of storing an entry on every lookup.
\<close>

section \<open>Entries of a page\<close>

definition agree :: "memory \<Rightarrow> memory \<Rightarrow> addr set \<Rightarrow> bool" where
  "agree m m' S \<longleftrightarrow> (\<forall>p\<in>S. \<forall>a. in_range a p 4096 \<longrightarrow> m' a = m a)"

lemma agreeD: "agree m m' S \<Longrightarrow> p \<in> S \<Longrightarrow> in_range a p 4096 \<Longrightarrow> m' a = m a"
  by (simp add: agree_def)

lemma agree_subset: "agree m m' S \<Longrightarrow> T \<subseteq> S \<Longrightarrow> agree m m' T"
  by (auto simp: agree_def)

lemma unat_slot:
  assumes "unat (i::uint64) < 512" and "k < 8"
  shows "unat (8 * i + of_nat k) = 8 * unat i + k"
proof -
  have "unat (8 * i) = 8 * unat i" using assms(1) by (simp add: unat_word_ariths)
  then show ?thesis using assms by (simp add: unat_plus_if' unat_of_nat)
qed

lemma slot_in_page:
  assumes "unat i < 512" and "k < 8"
  shows "in_range (pte_addr pt i + of_nat k) pt 4096"
proof -
  have "pte_addr pt i + of_nat k - pt = 8 * i + of_nat k" by (simp add: pte_addr_def)
  then show ?thesis unfolding in_range_def using unat_slot [OF assms] assms by (simp only:)
qed

lemma slot_range_in_page:
  assumes "unat i < 512" and "in_range a (pte_addr pt i) 8"
  shows "in_range a pt 4096"
proof -
  obtain k where k: "k < 8" "a = pte_addr pt i + of_nat k" using assms(2) by (rule in_range_E)
  then show ?thesis using slot_in_page [OF assms(1) k(1)] by simp
qed

lemma load_slot_cong:
  assumes "agree m m' {pt}" and "unat i < 512"
  shows "load64 m' (pte_addr pt i) = load64 m (pte_addr pt i)"
  by (rule load64_cong) (use assms slot_in_page in \<open>auto simp: agree_def\<close>)

lemma store_slot_outside: "unat i < 512 \<Longrightarrow> \<not> in_range a pt 4096 \<Longrightarrow> store64 m (pte_addr pt i) v a = m a"
  using slot_range_in_page by (blast intro: store64_other)

lemma load_store_slot:
  assumes "unat i < 512" and "unat j < 512"
  shows "load64 (store64 m (pte_addr pt i) v) (pte_addr pt j) = (if i = j then v else load64 m (pte_addr pt j))"
proof (cases "i = j")
  case False
  have "\<not> in_range (pte_addr pt j + of_nat k) (pte_addr pt i) 8" if k: "k < 8" for k
  proof
    assume "in_range (pte_addr pt j + of_nat k) (pte_addr pt i) 8"
    then obtain l where l: "l < 8" "pte_addr pt j + of_nat k = pte_addr pt i + of_nat l" by (rule in_range_E)
    then have "8 * j + of_nat k = 8 * i + (of_nat l :: uint64)" by (simp add: pte_addr_def)
    then have "8 * unat j + k = 8 * unat i + l"
      using unat_slot [OF assms(2) k] unat_slot [OF assms(1) l(1)] by simp
    then have "unat j = unat i" using k l(1) by linarith
    then show False using False by (simp add: word_unat_eq_iff)
  qed
  then have "load64 (store64 m (pte_addr pt i) v) (pte_addr pt j) = load64 m (pte_addr pt j)"
    by (intro load64_cong) (simp add: store64_other)
  then show ?thesis using False by simp
qed simp

section \<open>Trees\<close>

fun pt_get :: "nat \<Rightarrow> memory \<Rightarrow> addr \<Rightarrow> uint64 \<Rightarrow> uint64" where
  "pt_get 0 m pt va = load64 m (pte_addr pt (PX 0 va))"
| "pt_get (Suc l) m pt va =
     (let v = load64 m (pte_addr pt (PX (Suc l) va))
      in if v AND PTE_V = 0 then 0 else pt_get l m (PTE2PA v) va)"

fun pt_leaf :: "nat \<Rightarrow> memory \<Rightarrow> addr \<Rightarrow> uint64 \<Rightarrow> addr" where
  "pt_leaf 0 m pt va = pte_addr pt (PX 0 va)"
| "pt_leaf (Suc l) m pt va =
     (let v = load64 m (pte_addr pt (PX (Suc l) va))
      in if v AND PTE_V = 0 then 0 else pt_leaf l m (PTE2PA v) va)"

definition child :: "memory \<Rightarrow> addr \<Rightarrow> nat \<Rightarrow> addr option" where
  "child m pt i = (let v = load64 m (pte_addr pt (of_nat i)) in if v AND PTE_V = 0 then None else Some (PTE2PA v))"

text \<open>\<open>S\<close> is the set of pages of the tree of height \<open>l\<close> under \<open>pt\<close>; the subtrees are disjoint.\<close>

primrec pt_tree :: "nat \<Rightarrow> memory \<Rightarrow> addr \<Rightarrow> addr set \<Rightarrow> bool" where
  "pt_tree 0 m pt S \<longleftrightarrow> S = {pt}"
| "pt_tree (Suc l) m pt S \<longleftrightarrow>
     (\<exists>f. S = insert pt (\<Union>i<512. f i) \<and> (\<forall>i<512. pt \<notin> f i) \<and>
          (\<forall>i<512. \<forall>j<512. i \<noteq> j \<longrightarrow> f i \<inter> f j = {}) \<and>
          (\<forall>i<512. case child m pt i of None \<Rightarrow> f i = {} | Some c \<Rightarrow> pt_tree l m c (f i)))"

lemma pt_tree_root: "pt_tree l m pt S \<Longrightarrow> pt \<in> S"
  by (cases l) auto

lemma child_PX:
  "child m pt (unat (PX l va)) =
     (let v = load64 m (pte_addr pt (PX l va)) in if v AND PTE_V = 0 then None else Some (PTE2PA v))"
  by (simp add: child_def)

lemma pt_get_child:
  "pt_get (Suc l) m pt va = (case child m pt (unat (PX (Suc l) va)) of None \<Rightarrow> 0 | Some c \<Rightarrow> pt_get l m c va)"
  "pt_leaf (Suc l) m pt va = (case child m pt (unat (PX (Suc l) va)) of None \<Rightarrow> 0 | Some c \<Rightarrow> pt_leaf l m c va)"
  by (simp_all add: child_PX Let_def)

lemma child_cong: "agree m m' {pt} \<Longrightarrow> i < 512 \<Longrightarrow> child m' pt i = child m pt i"
  by (simp add: child_def load_slot_cong unat_of_nat)

lemma pt_frame:
  "pt_tree l m pt S \<Longrightarrow> agree m m' S \<Longrightarrow> pt_tree l m' pt S \<and> (\<forall>va. pt_get l m' pt va = pt_get l m pt va) \<and>
    (\<forall>va. pt_leaf l m' pt va = pt_leaf l m pt va)"
proof (induction l arbitrary: pt S)
  case 0
  then show ?case by (simp add: load_slot_cong)
next
  case (Suc l)
  then obtain f where f: "S = insert pt (\<Union>i<512. f i)" "\<forall>i<512. pt \<notin> f i"
    "\<forall>i<512. \<forall>j<512. i \<noteq> j \<longrightarrow> f i \<inter> f j = {}"
    "\<forall>i<512. case child m pt i of None \<Rightarrow> f i = {} | Some c \<Rightarrow> pt_tree l m c (f i)" by auto
  have a: "agree m m' {pt}" "\<And>i. i < 512 \<Longrightarrow> agree m m' (f i)"
    using Suc.prems(2) f(1) by (auto intro: agree_subset)
  note c = child_cong [OF a(1)]
  have t: "pt_tree l m' d (f i) \<and> (\<forall>va. pt_get l m' d va = pt_get l m d va) \<and> (\<forall>va. pt_leaf l m' d va = pt_leaf l m d va)"
    if "i < 512" "child m pt i = Some d" for i d
    using Suc.IH [of d "f i"] f(4) that a(2) by auto
  have "\<forall>i<512. case child m' pt i of None \<Rightarrow> f i = {} | Some c \<Rightarrow> pt_tree l m' c (f i)"
  proof (intro allI impI)
    fix i :: nat assume i: "i < 512"
    then show "case child m' pt i of None \<Rightarrow> f i = {} | Some c \<Rightarrow> pt_tree l m' c (f i)"
      using c f(4) t by (auto split: option.splits)
  qed
  then have "pt_tree (Suc l) m' pt S" using f(1-3) by auto
  moreover have "pt_get (Suc l) m' pt va = pt_get (Suc l) m pt va" "pt_leaf (Suc l) m' pt va = pt_leaf (Suc l) m pt va" for va
    unfolding pt_get_child using c [OF unat_PX_less] t [OF unat_PX_less] by (auto split: option.split)
  ultimately show ?case by blast
qed

text \<open>A tree seen from one of its subtrees: \<open>T\<close> are the pages of the subtree at entry \<open>i\<close>, \<open>R\<close> the
  other pages, and any change confined to the subtree is a change of that entry's lookups.\<close>

lemma pt_zipper:
  assumes "pt_tree (Suc l) m pt S" and "i < 512" and "child m pt i = Some c"
  obtains T R where "S = T \<union> R" "T \<inter> R = {}" "pt \<in> R" "pt_tree l m c T"
    "\<And>m' T'. pt_tree l m' c T' \<Longrightarrow> T' \<inter> R = {} \<Longrightarrow> agree m m' R \<Longrightarrow> pt_tree (Suc l) m' pt (T' \<union> R) \<and>
      child m' pt i = Some c \<and>
      (\<forall>va. unat (PX (Suc l) va) \<noteq> i \<longrightarrow> pt_get (Suc l) m' pt va = pt_get (Suc l) m pt va)"
proof -
  obtain f where f: "S = insert pt (\<Union>i<512. f i)" "\<forall>i<512. pt \<notin> f i"
    "\<forall>i<512. \<forall>j<512. i \<noteq> j \<longrightarrow> f i \<inter> f j = {}"
    "\<forall>i<512. case child m pt i of None \<Rightarrow> f i = {} | Some c \<Rightarrow> pt_tree l m c (f i)" using assms(1) by auto
  define R where "R = insert pt (\<Union>j\<in>{..<512} - {i}. f j)"
  have S: "S = f i \<union> R" using f(1) assms(2) by (auto simp: R_def)
  have "f i \<inter> f j = {}" if "j \<in> {..<512} - {i}" for j using f(3) assms(2) that by auto
  then have d: "f i \<inter> R = {}" using f(2) assms(2) by (auto simp: R_def)
  have z: "pt_tree (Suc l) m' pt (T' \<union> R) \<and> child m' pt i = Some c \<and>
      (\<forall>va. unat (PX (Suc l) va) \<noteq> i \<longrightarrow> pt_get (Suc l) m' pt va = pt_get (Suc l) m pt va)"
    if t: "pt_tree l m' c T'" "T' \<inter> R = {}" "agree m m' R" for m' T'
  proof -
    have ap: "agree m m' {pt}" and af: "\<And>j. j < 512 \<Longrightarrow> j \<noteq> i \<Longrightarrow> agree m m' (f j)"
      using t(3) by (auto simp: R_def intro: agree_subset)
    note ch = child_cong [OF ap]
    have fr: "pt_tree l m' d (f j) \<and> (\<forall>va. pt_get l m' d va = pt_get l m d va)"
      if "j < 512" "j \<noteq> i" "child m pt j = Some d" for j d
      using pt_frame [of l m d "f j" m'] f(4) that af by auto
    define g where "g = f(i := T')"
    have "T' \<union> R = insert pt (\<Union>j<512. g j)" using assms(2) by (auto simp: R_def g_def)
    moreover have "\<forall>j<512. pt \<notin> g j" using f(2) t(2) by (auto simp: g_def R_def)
    moreover have "\<forall>j<512. \<forall>k<512. j \<noteq> k \<longrightarrow> g j \<inter> g k = {}" using f(3) t(2) by (auto simp: g_def R_def)
    moreover have "\<forall>j<512. case child m' pt j of None \<Rightarrow> g j = {} | Some c \<Rightarrow> pt_tree l m' c (g j)"
    proof (intro allI impI)
      fix j :: nat assume j: "j < 512"
      show "case child m' pt j of None \<Rightarrow> g j = {} | Some c \<Rightarrow> pt_tree l m' c (g j)"
      proof (cases "j = i")
        case True
        then show ?thesis using ch [OF assms(2)] assms(3) t(1) by (simp add: g_def)
      next
        case False
        then show ?thesis using ch [OF j] f(4) fr j by (auto simp: g_def split: option.splits)
      qed
    qed
    ultimately have "pt_tree (Suc l) m' pt (T' \<union> R)" by auto
    moreover have "pt_get (Suc l) m' pt va = pt_get (Suc l) m pt va" if "unat (PX (Suc l) va) \<noteq> i" for va
      unfolding pt_get_child using ch [OF unat_PX_less] fr [OF unat_PX_less that] by (auto split: option.split)
    ultimately show ?thesis using ch [OF assms(2)] assms(3) by simp
  qed
  have "pt_tree l m c (f i)" using f(4) assms(2,3) by auto
  then show ?thesis using that [OF S d _ _ z] by (auto simp: R_def)
qed

section \<open>Looking up and storing an entry\<close>

lemma walk_loop_lookup: "walk_loop l pt va False s = (pt_leaf l (mem s) pt va, s)"
  by (induction l arbitrary: pt) (auto simp: Let_def)

lemma pt_leaf_in:
  "pt_tree l m pt S \<Longrightarrow> pt_leaf l m pt va \<noteq> 0 \<Longrightarrow> \<exists>q\<in>S. pt_leaf l m pt va = pte_addr q (PX 0 va)"
proof (induction l arbitrary: pt S)
  case (Suc l)
  then obtain c where c: "child m pt (unat (PX (Suc l) va)) = Some c" unfolding pt_get_child by (auto split: option.splits)
  obtain T R where "S = T \<union> R" "pt_tree l m c T" using pt_zipper [OF Suc.prems(1) _ c] by (metis unat_PX_less)
  then show ?case using Suc c unfolding pt_get_child by fastforce
qed simp

lemma pt_get_leaf:
  assumes "pt_leaf l m pt va \<noteq> 0"
  shows "pt_get l m pt va = load64 m (pt_leaf l m pt va)"
  using assms by (induction l arbitrary: pt) (auto simp: Let_def split: if_splits)

lemma slot_nonzero:
  assumes "page_aligned pt" and "pt \<noteq> 0"
  shows "pte_addr pt (PX l va) \<noteq> 0"
proof -
  obtain k where k: "unat pt = k * 4096" using assms(1) by (auto elim: page_alignedE)
  have "0 < unat pt" using assms(2) by (simp add: unat_gt_0)
  have "unat (pte_addr pt (PX l va)) = unat pt + 8 * unat (PX l va)"
  proof -
    have "unat (8 * PX l va) = 8 * unat (PX l va)" using unat_slot [OF unat_PX_less, of 0 l va] by simp
    moreover have "unat pt + 8 * unat (PX l va) < 18446744073709551616"
    proof -
      have "8 * unat (PX l va) < 4096" using unat_PX_less [of l va] by linarith
      moreover have "k < 4503599627370496" using k unat_lt64 [of pt] by linarith
      ultimately show ?thesis using k by linarith
    qed
    ultimately show ?thesis by (simp add: pte_addr_def unat_plus_if')
  qed
  then show ?thesis using \<open>0 < unat pt\<close> by (metis add_is_0 unat_0 less_numeral_extra(3))
qed

lemma pt_leaf_nonzero:
  assumes "pt_tree l m pt S" and "\<And>p. p \<in> S \<Longrightarrow> page_aligned p \<and> p \<noteq> 0"
    and "pt_get l m pt va \<noteq> 0"
  shows "pt_leaf l m pt va \<noteq> 0"
  using assms
proof (induction l arbitrary: pt S)
  case 0
  then show ?case by (simp add: slot_nonzero)
next
  case (Suc l)
  then obtain c where c: "child m pt (unat (PX (Suc l) va)) = Some c" unfolding pt_get_child by (auto split: option.splits)
  obtain T R where "S = T \<union> R" "pt_tree l m c T" using pt_zipper [OF Suc.prems(1) _ c] by (metis unat_PX_less)
  then show ?case using Suc.IH [of c T] Suc.prems c unfolding pt_get_child by auto
qed

text \<open>Two addresses select the same entry of a tree of height \<open>l\<close>.\<close>

definition same_idx :: "nat \<Rightarrow> uint64 \<Rightarrow> uint64 \<Rightarrow> bool" where
  "same_idx l va va' \<longleftrightarrow> (\<forall>k\<le>l. PX k va' = PX k va)"

lemma same_idx_Suc: "same_idx (Suc l) va va' \<longleftrightarrow> PX (Suc l) va' = PX (Suc l) va \<and> same_idx l va va'"
  by (auto simp: same_idx_def le_Suc_eq)

lemma agree_store:
  assumes "q \<notin> R" and "page_aligned q" and "\<And>p. p \<in> R \<Longrightarrow> page_aligned p" and "unat i < 512"
  shows "agree m (store64 m (pte_addr q i) v) R"
  unfolding agree_def using assms pages_disjoint by (blast intro: store_slot_outside)

lemma pt_store_leaf:
  assumes "pt_tree l m pt S" and "\<And>p. p \<in> S \<Longrightarrow> page_aligned p" and "pt_leaf l m pt va = a" and "a \<noteq> 0"
  shows "pt_tree l (store64 m a v) pt S \<and> pt_leaf l (store64 m a v) pt va = a \<and>
    (\<forall>va'. pt_get l (store64 m a v) pt va' = (if same_idx l va va' then v else pt_get l m pt va'))"
  using assms
proof (induction l arbitrary: pt S)
  case 0
  then have a: "a = pte_addr pt (PX 0 va)" by simp
  have "pt_get 0 (store64 m a v) pt va' = (if same_idx 0 va va' then v else pt_get 0 m pt va')" for va'
    using load_store_slot [OF unat_PX_less [of 0 va] unat_PX_less [of 0 va'], of m pt v]
    by (auto simp: a same_idx_def)
  then show ?case using 0 by simp
next
  case (Suc l)
  let ?i = "unat (PX (Suc l) va)" and ?m = "store64 m a v"
  obtain c where c: "child m pt ?i = Some c"
    using Suc.prems(3,4) unfolding pt_get_child by (auto split: option.splits)
  obtain T R where z: "S = T \<union> R" "T \<inter> R = {}" "pt \<in> R" "pt_tree l m c T"
    "\<And>m' T'. pt_tree l m' c T' \<Longrightarrow> T' \<inter> R = {} \<Longrightarrow> agree m m' R \<Longrightarrow> pt_tree (Suc l) m' pt (T' \<union> R) \<and>
      child m' pt ?i = Some c \<and>
      (\<forall>va. unat (PX (Suc l) va) \<noteq> ?i \<longrightarrow> pt_get (Suc l) m' pt va = pt_get (Suc l) m pt va)"
    using pt_zipper [OF Suc.prems(1) unat_PX_less c] by blast
  have lc: "pt_leaf l m c va = a" using Suc.prems(3) c unfolding pt_get_child by simp
  have ih: "pt_tree l ?m c T \<and> pt_leaf l ?m c va = a \<and>
      (\<forall>va'. pt_get l ?m c va' = (if same_idx l va va' then v else pt_get l m c va'))"
    using Suc.IH [OF z(4) _ lc Suc.prems(4)] Suc.prems(2) z(1) by blast
  obtain q where q: "q \<in> T" "a = pte_addr q (PX 0 va)" using pt_leaf_in [OF z(4), of va] lc Suc.prems(4) by auto
  have "q \<notin> R" "page_aligned q" "\<And>p. p \<in> R \<Longrightarrow> page_aligned p" using q(1) z(1,2) Suc.prems(2) by auto
  then have ag: "agree m ?m R" unfolding q(2) by (intro agree_store unat_PX_less)
  note r = z(5) [OF _ z(2) ag]
  have "pt_get (Suc l) ?m pt va' = (if same_idx (Suc l) va va' then v else pt_get (Suc l) m pt va')" for va'
  proof (cases "PX (Suc l) va' = PX (Suc l) va")
    case True
    then have "pt_get (Suc l) ?m pt va' = pt_get l ?m c va'" "pt_get (Suc l) m pt va' = pt_get l m c va'"
      using r ih c by (simp_all add: pt_get_child del: pt_get.simps)
    then show ?thesis using ih True by (simp add: same_idx_Suc)
  next
    case False
    then have "unat (PX (Suc l) va') \<noteq> ?i" by (simp add: word_unat_eq_iff)
    then show ?thesis using r ih False by (simp add: same_idx_Suc del: pt_get.simps)
  qed
  moreover have "pt_leaf (Suc l) ?m pt va = a" using r ih by (simp add: pt_get_child del: pt_leaf.simps)
  ultimately show ?case using r ih z(1) by blast
qed

lemma same_idx_iff:
  assumes "va < MAXVA" and "va' < MAXVA"
  shows "same_idx 2 va va' \<longleftrightarrow> PGROUNDDOWN va' = PGROUNDDOWN va"
proof -
  define x y where "x = unat va div 4096" and "y = unat va' div 4096"
  have b: "x < 2 ^ 26" "y < 2 ^ 26" using assms by (auto simp: word_less_nat_alt x_def y_def)
  have px: "unat (PX k va) = x div 512 ^ k mod 512" "unat (PX k va') = y div 512 ^ k mod 512" for k
    by (simp_all add: unat_PX PXSHIFT_def x_def y_def power_add power_mult div_mult2_eq)
  have "same_idx 2 va va' \<longleftrightarrow> (\<forall>k\<le>2. y div 512 ^ k mod 512 = x div 512 ^ k mod 512)"
    by (simp add: same_idx_def word_unat_eq_iff px)
  also have "\<dots> \<longleftrightarrow> y mod 512 = x mod 512 \<and> y div 512 mod 512 = x div 512 mod 512 \<and> y div 262144 mod 512 = x div 262144 mod 512"
  proof -
    have "(\<forall>k\<le>2. P k) \<longleftrightarrow> P 0 \<and> P 1 \<and> P (2::nat)" for P
      by (auto simp: le_Suc_eq numeral_2_eq_2)
    then show ?thesis by (simp add: power2_eq_square)
  qed
  also have "\<dots> \<longleftrightarrow> y = x"
  proof
    assume e: "y mod 512 = x mod 512 \<and> y div 512 mod 512 = x div 512 mod 512 \<and> y div 262144 mod 512 = x div 262144 mod 512"
    have d: "y div 262144 = x div 262144" using e b by (simp add: less_mult_imp_div_less)
    have "y div 512 = y div 512 div 512 * 512 + y div 512 mod 512" "x div 512 = x div 512 div 512 * 512 + x div 512 mod 512"
      by simp_all
    then have "y div 512 = x div 512" using d e by (simp add: div_mult2_eq [symmetric])
    moreover have "y = y div 512 * 512 + y mod 512" "x = x div 512 * 512 + x mod 512" by simp_all
    ultimately show "y = x" using e by metis
  qed simp
  also have "\<dots> \<longleftrightarrow> PGROUNDDOWN va' = PGROUNDDOWN va"
    by (simp add: word_unat_eq_iff unat_PGROUNDDOWN x_def y_def)
  finally show ?thesis .
qed

section \<open>Growing a tree\<close>

lemma PTE_V_or: "(x OR PTE_V) AND PTE_V \<noteq> (0::uint64)"
proof -
  have "bit ((x OR PTE_V) AND PTE_V) 0" by (simp add: bit_and_iff bit_or_iff bit_0)
  then show ?thesis by force
qed

lemma kzalloc_ok:
  assumes "kmem_inv s (p # ps)"
  shows "\<exists>m f s1. kalloc s = (p, s1) \<and> s1\<lparr>mem := memset (mem s1) p 0 PGSIZE\<rparr> = s\<lparr>freelist := f, mem := m\<rparr> \<and>
    kmem_inv (s\<lparr>freelist := f, mem := m\<rparr>) ps \<and> (\<forall>a. m a = (if in_range a p 4096 then 0 else mem s a)) \<and>
    page_ok s p \<and> p \<noteq> 0 \<and> p \<notin> set ps"
proof -
  obtain m f where k: "kalloc s = (p, s\<lparr>freelist := f, mem := m\<rparr>)" "kmem_inv (s\<lparr>freelist := f, mem := m\<rparr>) ps"
    "\<forall>a. m a = (if in_range a p 4096 then 5 else mem s a)"
    using kalloc_ok [OF assms] by blast
  have p: "page_ok s p" "p \<noteq> 0" "p \<notin> set ps" using assms by (auto simp: kmem_inv_def)
  let ?m = "memset m p 0 4096"
  have m: "?m a = (if in_range a p 4096 then 0 else mem s a)" for a using k(3) by (simp add: memset_eq)
  have "kmem_inv ((s\<lparr>freelist := f, mem := m\<rparr>)\<lparr>mem := ?m\<rparr>) ps"
    using k(2) _ p(3) by (rule kmem_inv_frame) (use p(1) in \<open>simp_all add: page_ok_def memset_eq\<close>)
  then show ?thesis using k(1) m p by (intro exI [of _ ?m] exI [of _ f]) simp
qed

lemma zero_tree:
  assumes "\<And>a. in_range a p 4096 \<Longrightarrow> m a = 0"
  shows "pt_tree l m p {p} \<and> (\<forall>va. pt_get l m p va = 0)"
proof -
  have z: "load64 m (pte_addr p i) = 0" if "unat i < 512" for i
    by (rule load64_zero) (use assms slot_in_page that in blast)
  have "child m p i = None" if "i < 512" for i using z [of "of_nat i"] that by (simp add: child_def unat_of_nat)
  then have "pt_tree l m p {p}" by (cases l) (auto intro!: exI [of _ "\<lambda>_. {}"])
  moreover have "pt_get l m p va = 0" for va using z [OF unat_PX_less] by (cases l) simp_all
  ultimately show ?thesis by blast
qed

lemma pt_install:
  assumes t: "pt_tree (Suc l) m pt S" and i: "i < 512" "child m pt i = None" and al: "\<And>q. q \<in> S \<Longrightarrow> page_aligned q"
    and p: "p \<notin> S" "page_aligned p" and m2: "agree m m2 S" "\<And>a. in_range a p 4096 \<Longrightarrow> m2 a = 0"
  defines "m3 \<equiv> store64 m2 (pte_addr pt (of_nat i)) (PA2PTE p OR PTE_V)"
  shows "pt_tree (Suc l) m3 pt (insert p S) \<and> child m3 pt i = Some p \<and>
    (\<forall>va. pt_get (Suc l) m3 pt va = pt_get (Suc l) m pt va)"
proof -
  obtain f where f: "S = insert pt (\<Union>i<512. f i)" "\<forall>i<512. pt \<notin> f i"
    "\<forall>i<512. \<forall>j<512. i \<noteq> j \<longrightarrow> f i \<inter> f j = {}"
    "\<forall>i<512. case child m pt i of None \<Rightarrow> f i = {} | Some c \<Rightarrow> pt_tree l m c (f i)" using t by auto
  have ui: "unat (of_nat i :: uint64) < 512" using i(1) by (simp add: unat_of_nat)
  have ptp: "pt \<noteq> p" "page_aligned pt" using f(1) p(1) al by auto
  have zp: "m3 a = 0" if "in_range a p 4096" for a
  proof -
    have "\<not> in_range a pt 4096" using that ptp p(2) pages_disjoint by blast
    then show ?thesis unfolding m3_def using store_slot_outside [OF ui] m2(2) that by simp
  qed
  have c: "child m3 pt j = (if j = i then Some p else child m pt j)" if "j < 512" for j
  proof -
    have uj: "unat (of_nat j :: uint64) < 512" "(of_nat i = (of_nat j :: uint64)) = (i = j)"
      using that i(1) by (auto simp: unat_of_nat word_unat_eq_iff)
    have "load64 m2 (pte_addr pt (of_nat j)) = load64 m (pte_addr pt (of_nat j))"
      by (rule load_slot_cong [OF _ uj(1)]) (use m2(1) f(1) in \<open>auto intro: agree_subset\<close>)
    moreover have "PTE2PA (PA2PTE p OR PTE_V) = p" using PTE2PA_PA2PTE [OF p(2), of 1] by simp
    ultimately show ?thesis
      using load_store_slot [OF ui uj(1), of m2 pt "PA2PTE p OR PTE_V"] uj(2) PTE_V_or
      by (simp add: child_def m3_def)
  qed
  have fr: "pt_tree l m3 d (f j) \<and> (\<forall>va. pt_get l m3 d va = pt_get l m d va)"
    if j: "j < 512" "child m pt j = Some d" for j d
  proof -
    have "pt_tree l m d (f j)" using f(4) j by auto
    moreover have "agree m m3 (f j)"
    proof (unfold agree_def, intro ballI allI impI)
      fix q a assume q: "q \<in> f j" "in_range a q 4096"
      then have "q \<in> S" "q \<noteq> pt" using f(1,2) j(1) by auto
      then have "\<not> in_range a pt 4096" using pages_disjoint [of q pt a] q(2) al ptp(2) by auto
      then show "m3 a = m a" unfolding m3_def
        using store_slot_outside [OF ui] agreeD [OF m2(1) \<open>q \<in> S\<close> q(2)] by simp
    qed
    ultimately show ?thesis using pt_frame by blast
  qed
  note z = zero_tree [of p m3, OF zp]
  define g where "g = f(i := {p})"
  have fi: "f i = {}" using f(4) i by auto
  have "insert p S = insert pt (\<Union>j<512. g j)" using f(1) i(1) fi by (auto simp: g_def split: if_splits)
  moreover have "\<forall>j<512. pt \<notin> g j" using f(2) ptp by (auto simp: g_def)
  moreover have "\<forall>j<512. \<forall>k<512. j \<noteq> k \<longrightarrow> g j \<inter> g k = {}" using f(1,3) p(1) by (auto simp: g_def)
  moreover have "\<forall>j<512. case child m3 pt j of None \<Rightarrow> g j = {} | Some c \<Rightarrow> pt_tree l m3 c (g j)"
  proof (intro allI impI)
    fix j :: nat assume j: "j < 512"
    show "case child m3 pt j of None \<Rightarrow> g j = {} | Some c \<Rightarrow> pt_tree l m3 c (g j)"
      using c [OF j] f(4) fr j z by (cases "j = i") (auto simp: g_def split: option.splits)
  qed
  ultimately have "pt_tree (Suc l) m3 pt (insert p S)" by auto
  moreover have "pt_get (Suc l) m3 pt va = pt_get (Suc l) m pt va" for va
    unfolding pt_get_child using c [OF unat_PX_less] fr [OF unat_PX_less] z i(2)
    by (auto split: option.split)
  ultimately show ?thesis using c [OF i(1)] by simp
qed

text \<open>What \<open>walk\<close> with \<open>alloc\<close> does to the machine: the pages \<open>qs\<close> move from the front of the
  free list into the tree, nothing outside the tree changes, and no lookup changes.\<close>

definition grown :: "nat \<Rightarrow> addr \<Rightarrow> addr set \<Rightarrow> addr list \<Rightarrow> addr list \<Rightarrow> 'a kmem_scheme \<Rightarrow> 'a kmem_scheme \<Rightarrow> bool" where
  "grown l pt S qs ps s t \<longleftrightarrow> t = s\<lparr>mem := mem t, freelist := freelist t\<rparr> \<and> kmem_inv t ps \<and>
     pt_tree l (mem t) pt (S \<union> set qs) \<and> (\<forall>va. pt_get l (mem t) pt va = pt_get l (mem s) pt va) \<and>
     (\<forall>x. (\<forall>p\<in>S \<union> set qs. \<not> in_range x p 4096) \<longrightarrow> mem t x = mem s x)"

lemma walk_alloc:
  assumes "pt_tree l (mem s) pt S" and "kmem_inv s ps" and "\<And>p. p \<in> S \<Longrightarrow> page_ok s p" and "S \<inter> set ps = {}"
  shows "\<exists>a t qs ps'. walk_loop l pt va True s = (a, t) \<and> ps = qs @ ps' \<and> length qs \<le> l \<and> grown l pt S qs ps' s t \<and>
    (if a = 0 then ps' = [] \<and> pt_leaf l (mem t) pt va = 0 else pt_leaf l (mem t) pt va = a)"
  using assms
proof (induction l arbitrary: pt S s ps)
  case 0
  have "page_ok s pt" "0 < sym_end s" using 0 by (auto simp: kmem_inv_def)
  then have "page_aligned pt" "pt \<noteq> 0" by (auto simp: page_ok_def)
  then have "pte_addr pt (PX 0 va) \<noteq> 0" by (rule slot_nonzero)
  then show ?case using 0 by (intro exI [of _ "pte_addr pt (PX 0 va)"] exI [of _ s] exI [of _ "[]"] exI [of _ ps]) (simp add: grown_def)
next
  case (Suc l)
  let ?i = "unat (PX (Suc l) va)"
  have descend: "\<exists>a t qs ps'. walk_loop l c va True s = (a, t) \<and> ps = qs @ ps' \<and> length qs \<le> l \<and> grown (Suc l) pt S qs ps' s t \<and>
      (if a = 0 then ps' = [] \<and> pt_leaf (Suc l) (mem t) pt va = 0 else pt_leaf (Suc l) (mem t) pt va = a)"
    if ch: "child (mem s) pt ?i = Some c" and tr: "pt_tree (Suc l) (mem s) pt S" and ki: "kmem_inv s ps"
      and ok: "\<And>p. p \<in> S \<Longrightarrow> page_ok s p" and dj: "S \<inter> set ps = {}" for c and s :: "'a kmem_scheme" and S ps
  proof -
    obtain T R where z: "S = T \<union> R" "T \<inter> R = {}" "pt \<in> R" "pt_tree l (mem s) c T"
      "\<And>m' T'. pt_tree l m' c T' \<Longrightarrow> T' \<inter> R = {} \<Longrightarrow> agree (mem s) m' R \<Longrightarrow> pt_tree (Suc l) m' pt (T' \<union> R) \<and>
        child m' pt ?i = Some c \<and>
        (\<forall>va. unat (PX (Suc l) va) \<noteq> ?i \<longrightarrow> pt_get (Suc l) m' pt va = pt_get (Suc l) (mem s) pt va)"
      using pt_zipper [OF tr unat_PX_less ch] by blast
    have "\<exists>a t qs ps'. walk_loop l c va True s = (a, t) \<and> ps = qs @ ps' \<and> length qs \<le> l \<and> grown l c T qs ps' s t \<and>
        (if a = 0 then ps' = [] \<and> pt_leaf l (mem t) c va = 0 else pt_leaf l (mem t) c va = a)"
      using z(1) ok dj by (intro Suc.IH [OF z(4) ki]) auto
    then obtain a t qs ps' where w: "walk_loop l c va True s = (a, t)" "ps = qs @ ps'" "length qs \<le> l" "grown l c T qs ps' s t"
      "if a = 0 then ps' = [] \<and> pt_leaf l (mem t) c va = 0 else pt_leaf l (mem t) c va = a" by blast
    note g = w(4) [unfolded grown_def]
    have al: "page_aligned q" if "q \<in> T \<union> R \<union> set qs" for q
      using that ok z(1) ki w(2) by (auto simp: page_ok_def kmem_inv_def)
    have dR: "(T \<union> set qs) \<inter> R = {}" using z(1,2) dj w(2) by auto
    have ag: "agree (mem s) (mem t) R"
    proof (unfold agree_def, intro ballI allI impI)
      fix q x assume q: "q \<in> R" "in_range x q 4096"
      have "\<not> in_range x p 4096" if "p \<in> T \<union> set qs" for p
        using pages_disjoint [of p q x] q that dR al by auto
      then show "mem t x = mem s x" using g by blast
    qed
    note r = z(5) [OF _ dR ag]
    have "pt_get (Suc l) (mem t) pt v = pt_get (Suc l) (mem s) pt v" for v
    proof (cases "unat (PX (Suc l) v) = ?i")
      case True
      then show ?thesis using r g ch by (simp add: pt_get_child del: pt_get.simps)
    qed (use r g in blast)
    moreover have "S \<union> set qs = T \<union> set qs \<union> R" using z(1) by auto
    ultimately have "grown (Suc l) pt S qs ps' s t" using g r by (auto simp: grown_def)
    moreover have "pt_leaf (Suc l) (mem t) pt va = pt_leaf l (mem t) c va"
      using r g by (simp add: pt_get_child del: pt_leaf.simps)
    ultimately show ?thesis using w(1-3,5) by (metis (no_types, lifting))
  qed
  show ?case
  proof (cases "child (mem s) pt ?i")
    case (Some c)
    then have "walk_loop (Suc l) pt va True s = walk_loop l c va True s" by (auto simp: child_PX Let_def split: if_splits)
    moreover obtain a t qs ps' where "walk_loop l c va True s = (a, t)" "ps = qs @ ps'" "length qs \<le> l"
      "grown (Suc l) pt S qs ps' s t"
      "if a = 0 then ps' = [] \<and> pt_leaf (Suc l) (mem t) pt va = 0 else pt_leaf (Suc l) (mem t) pt va = a"
      using descend [OF Some Suc.prems(1,2) _ Suc.prems(4)] Suc.prems(3) by blast
    ultimately show ?thesis
      by (intro exI [of _ a] exI [of _ t] exI [of _ qs] exI [of _ ps']) auto
  next
    case None
    have v: "load64 (mem s) (pte_addr pt (PX (Suc l) va)) AND PTE_V = 0"
      using None by (auto simp: child_PX Let_def split: if_splits)
    show ?thesis
    proof (cases ps)
      case Nil
      have "walk_loop (Suc l) pt va True s = (0, s)" using v Suc.prems(2) Nil by (simp add: kalloc_empty)
      moreover have "pt_leaf (Suc l) (mem s) pt va = 0" using v by simp
      moreover have "grown (Suc l) pt S [] [] s s" using Suc.prems Nil by (simp add: grown_def)
      ultimately show ?thesis using Nil by (intro exI [of _ 0] exI [of _ s] exI [of _ "[]"]) simp
    next
      case (Cons p ps1)
      obtain m2 f s1 where k: "kalloc s = (p, s1)" "s1\<lparr>mem := memset (mem s1) p 0 PGSIZE\<rparr> = s\<lparr>freelist := f, mem := m2\<rparr>"
        "kmem_inv (s\<lparr>freelist := f, mem := m2\<rparr>) ps1" "\<forall>a. m2 a = (if in_range a p 4096 then 0 else mem s a)"
        "page_ok s p" "p \<noteq> 0" "p \<notin> set ps1"
        using kzalloc_ok [OF Suc.prems(2) [unfolded Cons]] by blast
      have alS: "\<And>q. q \<in> S \<Longrightarrow> page_aligned q" and pS: "p \<notin> S" "page_aligned p"
        using Suc.prems(3,4) Cons k(5) by (auto simp: page_ok_def)
      have ag: "agree (mem s) m2 S"
        unfolding agree_def using k(4) pages_disjoint pS alS by metis
      define m3 where "m3 = store64 m2 (pte_addr pt (PX (Suc l) va)) (PA2PTE p OR PTE_V)"
      define s3 where "s3 = s\<lparr>freelist := f, mem := m3\<rparr>"
      have ins: "pt_tree (Suc l) m3 pt (insert p S) \<and> child m3 pt ?i = Some p \<and>
          (\<forall>va. pt_get (Suc l) m3 pt va = pt_get (Suc l) (mem s) pt va)"
        using pt_install [OF Suc.prems(1) unat_PX_less None alS pS ag] k(4) by (simp add: m3_def)
      have ptS: "pt \<in> S" using Suc.prems(1) by (rule pt_tree_root)
      have out: "m3 x = m2 x" if "\<not> in_range x pt 4096" for x
        unfolding m3_def using that by (rule store_slot_outside [OF unat_PX_less])
      have k3: "kmem_inv s3 ps1"
      proof -
        have "kmem_inv ((s\<lparr>freelist := f, mem := m2\<rparr>)\<lparr>mem := m3\<rparr>) ps1"
          using k(3) alS [OF ptS] by (rule kmem_inv_frame) (use Suc.prems(4) Cons ptS out in auto)
        then show ?thesis by (simp add: s3_def)
      qed
      have ok3: "\<And>q. q \<in> insert p S \<Longrightarrow> page_ok s3 q" using Suc.prems(3) k(5) by (auto simp: s3_def)
      have dj3: "insert p S \<inter> set ps1 = {}" using Suc.prems(4) Cons k(7) by auto
      obtain a t qs ps' where w: "walk_loop l p va True s3 = (a, t)" "ps1 = qs @ ps'" "length qs \<le> l"
        "grown (Suc l) pt (insert p S) qs ps' s3 t"
        "if a = 0 then ps' = [] \<and> pt_leaf (Suc l) (mem t) pt va = 0 else pt_leaf (Suc l) (mem t) pt va = a"
        using descend [of s3 p "insert p S" ps1] ins k3 ok3 dj3 by (auto simp: s3_def)
      have "walk_loop (Suc l) pt va True s = (a, t)"
      proof -
        have "s1\<lparr>mem := store64 (memset (mem s1) p 0 PGSIZE) (pte_addr pt (PX (Suc l) va)) (PA2PTE p OR PTE_V)\<rparr> = s3"
        proof -
          have "memset (mem s1) p 0 PGSIZE = m2" using arg_cong [OF k(2), of mem] by simp
          moreover have "s1\<lparr>mem := x\<rparr> = s\<lparr>freelist := f, mem := x\<rparr>" for x
            using arg_cong [OF k(2), of "\<lambda>s. s\<lparr>mem := x\<rparr>"] by simp
          ultimately show ?thesis by (simp add: s3_def m3_def)
        qed
        then show ?thesis using v k(1,6) w(1) by (simp add: Let_def)
      qed
      moreover have "grown (Suc l) pt S (p # qs) ps' s t"
      proof -
        have "mem t x = mem s x" if x: "\<forall>q\<in>S \<union> set (p # qs). \<not> in_range x q 4096" for x
        proof -
          have "mem t x = m3 x" using w(4) x by (auto simp: grown_def s3_def)
          then show ?thesis using out [of x] k(4) x ptS by auto
        qed
        moreover have "t = s\<lparr>mem := mem t, freelist := freelist t\<rparr>"
        proof -
          have "t = s3\<lparr>mem := mem t, freelist := freelist t\<rparr>" using w(4) by (simp add: grown_def)
          then show ?thesis by (simp add: s3_def)
        qed
        ultimately show ?thesis using w(4) ins by (auto simp: grown_def s3_def)
      qed
      ultimately show ?thesis using w(2,3,5) Cons
        by (intro exI [of _ a] exI [of _ t] exI [of _ "p # qs"] exI [of _ ps']) auto
    qed
  qed
qed

end
