(* ===== verification/User_Memory.thy ===== *)
theory User_Memory
  imports Page_Table
begin

text \<open>
  What the operations of \<open>kernel/vm.c\<close> do to an address space. \<open>pt_inv\<close> is the invariant of a
  page table together with the free list; each operation is described by its effect on every
  lookup \<open>pt_get 2\<close> and by the pages it moves between the free list and the tree.
\<close>

section \<open>The invariant of a page table\<close>

definition pt_inv :: "'a kmem_scheme \<Rightarrow> addr \<Rightarrow> addr set \<Rightarrow> addr list \<Rightarrow> bool" where
  "pt_inv s pt S ps \<longleftrightarrow> pt_tree 2 (mem s) pt S \<and> kmem_inv s ps \<and> (\<forall>p\<in>S. page_ok s p) \<and> S \<inter> set ps = {}"

definition outside :: "memory \<Rightarrow> memory \<Rightarrow> addr set \<Rightarrow> bool" where
  "outside m m' A \<longleftrightarrow> (\<forall>x. (\<forall>p\<in>A. \<not> in_range x p 4096) \<longrightarrow> m' x = m x)"

definition mem_only :: "'a kmem_scheme \<Rightarrow> 'a kmem_scheme \<Rightarrow> bool" where
  "mem_only s t \<longleftrightarrow> t = s\<lparr>mem := mem t, freelist := freelist t\<rparr>"

lemma outside_refl [simp]: "outside m m A"
  by (simp add: outside_def)

lemma outside_trans: "outside m m' A \<Longrightarrow> outside m' m'' B \<Longrightarrow> A \<union> B \<subseteq> C \<Longrightarrow> outside m m'' C"
  by (fastforce simp: outside_def)

lemma outside_mono: "outside m m' A \<Longrightarrow> A \<subseteq> B \<Longrightarrow> outside m m' B"
  by (fastforce simp: outside_def)

lemma mem_only_refl [simp]: "mem_only s s"
  by (simp add: mem_only_def)

lemma mem_only_trans:
  assumes "mem_only s t" and "mem_only t u"
  shows "mem_only s u"
proof -
  have "t = s\<lparr>mem := mem t, freelist := freelist t\<rparr>" "u = t\<lparr>mem := mem u, freelist := freelist u\<rparr>"
    using assms by (simp_all add: mem_only_def)
  then have "u = s\<lparr>mem := mem t, freelist := freelist t\<rparr>\<lparr>mem := mem u, freelist := freelist u\<rparr>" by metis
  then show ?thesis by (simp add: mem_only_def)
qed

lemma mem_only_upd [simp]: "mem_only s (s\<lparr>mem := m\<rparr>)"
  by (simp add: mem_only_def)

lemma page_ok_mem_only:
  assumes "mem_only s t"
  shows "page_ok t p = page_ok s p"
  using arg_cong [OF assms [unfolded mem_only_def], of sym_end] by (simp add: page_ok_def)

lemma outside_page:
  assumes "outside m m' A" and "\<And>p. p \<in> A \<Longrightarrow> page_aligned p" and "page_aligned q" and "q \<notin> A" and "in_range x q 4096"
  shows "m' x = m x"
proof -
  have "\<not> in_range x p 4096" if "p \<in> A" for p
    using pages_disjoint [of p q x] assms that by auto
  then show ?thesis using assms(1) by (simp add: outside_def)
qed

lemma pt_inv_page: "pt_inv s pt S ps \<Longrightarrow> p \<in> S \<Longrightarrow> page_aligned p \<and> p \<noteq> 0"
  by (auto simp: pt_inv_def kmem_inv_def page_ok_def)

text \<open>Entering a page-table entry for \<open>va\<close>: \<open>walk\<close> with \<open>alloc\<close> and then a store through the
  returned pointer. The pages \<open>qs\<close> the walk needed come from the front of the free list.\<close>

lemma walk_alloc_inv:
  assumes "pt_inv s pt S ps" and "va < MAXVA"
  obtains a t qs ps' where "walk pt va True s = Inr (a, t)" "ps = qs @ ps'" "length qs \<le> 2"
    "pt_inv t pt (S \<union> set qs) ps'" "\<forall>v. pt_get 2 (mem t) pt v = pt_get 2 (mem s) pt v" "mem_only s t"
    "outside (mem s) (mem t) (S \<union> set qs)" "a = 0 \<longrightarrow> ps' = []"
    "a \<noteq> 0 \<longrightarrow> load64 (mem t) a = pt_get 2 (mem s) pt va \<and> (\<forall>x. pt_inv (t\<lparr>mem := store64 (mem t) a x\<rparr>) pt (S \<union> set qs) ps' \<and>
       outside (mem t) (store64 (mem t) a x) (S \<union> set qs) \<and>
       (\<forall>v<MAXVA. pt_get 2 (store64 (mem t) a x) pt v =
          (if PGROUNDDOWN v = PGROUNDDOWN va then x else pt_get 2 (mem s) pt v)))"
proof -
  note i = assms(1) [unfolded pt_inv_def]
  obtain a t qs ps' where w: "walk_loop 2 pt va True s = (a, t)" "ps = qs @ ps'" "length qs \<le> 2" "grown 2 pt S qs ps' s t"
    "if a = 0 then ps' = [] \<and> pt_leaf 2 (mem t) pt va = 0 else pt_leaf 2 (mem t) pt va = a"
    using walk_alloc [of 2 s pt S ps va] i by blast
  note g = w(4) [unfolded grown_def]
  have mo: "mem_only s t" using g by (simp add: mem_only_def)
  have ok: "\<forall>p\<in>S \<union> set qs. page_ok t p"
    using i w(2) by (auto simp: page_ok_mem_only [OF mo] kmem_inv_def)
  have "distinct ps" using i by (simp add: kmem_inv_def)
  then have dj: "(S \<union> set qs) \<inter> set ps' = {}" using i w(2) by auto
  have inv: "pt_inv t pt (S \<union> set qs) ps'" using g ok dj by (simp add: pt_inv_def)
  have st: "load64 (mem t) a = pt_get 2 (mem s) pt va \<and> (\<forall>x. pt_inv (t\<lparr>mem := store64 (mem t) a x\<rparr>) pt (S \<union> set qs) ps' \<and>
       outside (mem t) (store64 (mem t) a x) (S \<union> set qs) \<and>
       (\<forall>v<MAXVA. pt_get 2 (store64 (mem t) a x) pt v =
          (if PGROUNDDOWN v = PGROUNDDOWN va then x else pt_get 2 (mem s) pt v)))" if a: "a \<noteq> 0"
  proof -
    have l: "pt_leaf 2 (mem t) pt va = a" using w(5) a by simp
    have al: "\<And>p. p \<in> S \<union> set qs \<Longrightarrow> page_aligned p" using ok by (auto simp: page_ok_def)
    have tr: "pt_tree 2 (mem t) pt (S \<union> set qs)" using g by simp
    obtain q where q: "q \<in> S \<union> set qs" "a = pte_addr q (PX 0 va)" using pt_leaf_in [OF tr, of va] l a by auto
    have o: "store64 (mem t) a x y = mem t y" if "\<not> in_range y q 4096" for x y
      unfolding q(2) using that by (rule store_slot_outside [OF unat_PX_less])
    have k: "kmem_inv (t\<lparr>mem := store64 (mem t) a x\<rparr>) ps'" for x
      by (rule kmem_inv_frame [of _ _ q]) (use g q al dj o in auto)
    have "pt_inv (t\<lparr>mem := store64 (mem t) a x\<rparr>) pt (S \<union> set qs) ps' \<and>
       outside (mem t) (store64 (mem t) a x) (S \<union> set qs) \<and>
       (\<forall>v<MAXVA. pt_get 2 (store64 (mem t) a x) pt v =
          (if PGROUNDDOWN v = PGROUNDDOWN va then x else pt_get 2 (mem s) pt v))" for x
      using pt_store_leaf [OF tr al l a, of x] k ok dj g o q(1) same_idx_iff [OF assms(2)]
      by (auto simp: pt_inv_def page_ok_def outside_def)
    moreover have "load64 (mem t) a = pt_get 2 (mem s) pt va" using pt_get_leaf [of 2 "mem t" pt va] l a g by simp
    ultimately show ?thesis by blast
  qed
  have "walk pt va True s = Inr (a, t)" using w(1) assms(2) by (simp add: walk_def)
  then show ?thesis using that [OF _ w(2,3) inv _ mo] g w(5) st by (auto simp: outside_def)
qed

section \<open>Mapping\<close>

text \<open>The lookups after \<open>j\<close> pages from \<open>a\<close> have been mapped to the pages from \<open>pa\<close>.\<close>

definition map_range :: "uint64 \<Rightarrow> nat \<Rightarrow> uint64 \<Rightarrow> uint64 \<Rightarrow> (uint64 \<Rightarrow> uint64) \<Rightarrow> uint64 \<Rightarrow> uint64" where
  "map_range a j pa perm f v =
     (if a \<le> v \<and> unat v < unat a + 4096 * j then PA2PTE (pa + (PGROUNDDOWN v - a)) OR perm OR PTE_V else f v)"

lemma unat_next_page: "unat (a::uint64) + 4096 < 2 ^ 64 \<Longrightarrow> unat (a + PGSIZE) = unat a + 4096"
  by (simp add: unat_plus_if')

lemma page_aligned_next: "page_aligned a \<Longrightarrow> page_aligned (a + PGSIZE)"
proof -
  assume "page_aligned a"
  moreover have "(4096::nat) dvd 18446744073709551616" by simp
  ultimately show ?thesis by (simp add: page_aligned_iff unat_word_ariths mod_mod_cancel)
qed

lemma same_page_iff:
  assumes "page_aligned a" and "unat a + 4096 \<le> 2 ^ 64"
  shows "PGROUNDDOWN v = a \<longleftrightarrow> a \<le> v \<and> unat v < unat a + 4096"
proof -
  obtain k where k: "unat a = k * 4096" using assms(1) by (auto elim: page_alignedE)
  have "q * 4096 = k * 4096 \<longleftrightarrow> k * 4096 \<le> q * 4096 + r \<and> q * 4096 + r < k * 4096 + 4096" if "r < 4096" for q r :: nat
    using that by (auto intro!: le_antisym)
  from this [of "unat v mod 4096" "unat v div 4096"]
  have "unat v div 4096 * 4096 = k * 4096 \<longleftrightarrow> k * 4096 \<le> unat v \<and> unat v < k * 4096 + 4096"
    by simp
  then show ?thesis by (simp add: word_unat_eq_iff word_le_nat_alt unat_PGROUNDDOWN k)
qed

lemma map_range_0: "map_range a 0 pa perm f v = f v"
  by (auto simp: map_range_def word_le_nat_alt)

lemma map_range_cong: "f v = g v \<Longrightarrow> map_range a j pa perm f v = map_range a j pa perm g v"
  by (simp add: map_range_def)

lemma map_range_Suc:
  assumes "page_aligned a" and "unat a + 4096 * Suc j \<le> unat MAXVA"
  shows "map_range (a + PGSIZE) j (pa + PGSIZE) perm (\<lambda>v. if PGROUNDDOWN v = a then PA2PTE pa OR perm OR PTE_V else f v) v
    = map_range a (Suc j) pa perm f v"
proof -
  have n: "unat (a + PGSIZE) = unat a + 4096" using assms(2) by (intro unat_next_page) simp
  have p: "PGROUNDDOWN v = a \<longleftrightarrow> a \<le> v \<and> unat v < unat a + 4096" using assms by (intro same_page_iff) simp_all
  have "pa + PGSIZE + (PGROUNDDOWN v - (a + PGSIZE)) = pa + (PGROUNDDOWN v - a)" by simp
  then show ?thesis using n p by (auto simp: map_range_def word_le_nat_alt)
qed

lemma mappages_loop_ok:
  assumes "pt_inv s pt S ps" and "page_aligned a" and "unat a + 4096 * Suc k \<le> unat MAXVA"
    and "\<forall>v<MAXVA. a \<le> v \<and> unat v < unat a + 4096 * Suc k \<longrightarrow> pt_get 2 (mem s) pt v AND PTE_V = 0"
    and "unat alast = unat a + 4096 * k"
  shows "must (mappages_loop (Suc k) pt a alast pa perm s) (\<lambda>(r, t). \<exists>qs ps' j. ps = qs @ ps' \<and>
    pt_inv t pt (S \<union> set qs) ps' \<and> mem_only s t \<and> outside (mem s) (mem t) (S \<union> set qs) \<and>
    (\<forall>v<MAXVA. pt_get 2 (mem t) pt v = map_range a j pa perm (pt_get 2 (mem s) pt) v) \<and>
    length qs \<le> 2 * Suc k \<and> (if r = 0 then j = Suc k else r = - 1 \<and> j \<le> k \<and> ps' = []))"
  using assms
proof (induction k arbitrary: s S ps a pa)
  case (0 s S ps a pa)
  then have a: "a < MAXVA" "alast = a" by (simp_all add: word_less_nat_alt word_unat_eq_iff)
  obtain e t qs ps' where w: "walk pt a True s = Inr (e, t)" "ps = qs @ ps'" "length qs \<le> 2"
    "pt_inv t pt (S \<union> set qs) ps'" "\<forall>v. pt_get 2 (mem t) pt v = pt_get 2 (mem s) pt v" "mem_only s t"
    "outside (mem s) (mem t) (S \<union> set qs)" "e = 0 \<longrightarrow> ps' = []"
    "e \<noteq> 0 \<longrightarrow> load64 (mem t) e = pt_get 2 (mem s) pt a \<and> (\<forall>x. pt_inv (t\<lparr>mem := store64 (mem t) e x\<rparr>) pt (S \<union> set qs) ps' \<and>
       outside (mem t) (store64 (mem t) e x) (S \<union> set qs) \<and>
       (\<forall>v<MAXVA. pt_get 2 (store64 (mem t) e x) pt v =
          (if PGROUNDDOWN v = PGROUNDDOWN a then x else pt_get 2 (mem s) pt v)))"
    by (rule walk_alloc_inv [OF 0(1) a(1)])
  show ?case
  proof (cases "e = 0")
    case True
    have "ps = qs @ [] \<and> pt_inv t pt (S \<union> set qs) [] \<and> mem_only s t \<and> outside (mem s) (mem t) (S \<union> set qs) \<and>
        (\<forall>v<MAXVA. pt_get 2 (mem t) pt v = map_range a 0 pa perm (pt_get 2 (mem s) pt) v) \<and> length qs \<le> 2"
      using w True by (simp add: map_range_0)
    then show ?thesis using w(1) True by (auto intro: exI [of _ "0::nat"])
  next
    case False
    let ?x = "PA2PTE pa OR perm OR PTE_V"
    have v: "load64 (mem t) e AND PTE_V = 0" using False w(9) 0(4) a by (simp add: word_le_nat_alt)
    note x = mp [OF w(9) False, THEN conjunct2, THEN spec, of ?x]
    have o: "outside (mem s) (store64 (mem t) e ?x) (S \<union> set qs)" using x w(7) by (blast intro: outside_trans)
    have mo: "mem_only s (t\<lparr>mem := store64 (mem t) e ?x\<rparr>)" using w(6) mem_only_upd mem_only_trans by blast
    have g: "\<forall>v<MAXVA. pt_get 2 (store64 (mem t) e ?x) pt v = map_range a (Suc 0) pa perm (pt_get 2 (mem s) pt) v"
      using x map_range_Suc [OF 0(2,3), of pa perm "pt_get 2 (mem s) pt"] PGROUNDDOWN_aligned [OF 0(2)]
      by (simp add: map_range_0)
    show ?thesis using w(1-3) False v a(2) x o mo g by (auto simp: Let_def)
  qed
next
  case (Suc k s S ps a pa)
  have a: "a < MAXVA" "alast \<noteq> a" using Suc.prems(3,5) by (auto simp: word_less_nat_alt)
  obtain e t qs ps' where w: "walk pt a True s = Inr (e, t)" "ps = qs @ ps'" "length qs \<le> 2"
    "pt_inv t pt (S \<union> set qs) ps'" "\<forall>v. pt_get 2 (mem t) pt v = pt_get 2 (mem s) pt v" "mem_only s t"
    "outside (mem s) (mem t) (S \<union> set qs)" "e = 0 \<longrightarrow> ps' = []"
    "e \<noteq> 0 \<longrightarrow> load64 (mem t) e = pt_get 2 (mem s) pt a \<and> (\<forall>x. pt_inv (t\<lparr>mem := store64 (mem t) e x\<rparr>) pt (S \<union> set qs) ps' \<and>
       outside (mem t) (store64 (mem t) e x) (S \<union> set qs) \<and>
       (\<forall>v<MAXVA. pt_get 2 (store64 (mem t) e x) pt v =
          (if PGROUNDDOWN v = PGROUNDDOWN a then x else pt_get 2 (mem s) pt v)))"
    by (rule walk_alloc_inv [OF Suc.prems(1) a(1)])
  show ?case
  proof (cases "e = 0")
    case True
    have "ps = qs @ [] \<and> pt_inv t pt (S \<union> set qs) [] \<and> mem_only s t \<and> outside (mem s) (mem t) (S \<union> set qs) \<and>
        (\<forall>v<MAXVA. pt_get 2 (mem t) pt v = map_range a 0 pa perm (pt_get 2 (mem s) pt) v) \<and> length qs \<le> 2"
      using w True by (simp add: map_range_0)
    moreover have "length qs \<le> 2 * Suc (Suc k)" using w(3) by simp
    moreover have "mappages_loop (Suc (Suc k)) pt a alast pa perm s = Inr (- 1, t)" using w(1) True by simp
    moreover have "if (- 1 :: int) = 0 then 0 = Suc (Suc k) else - 1 = (- 1 :: int) \<and> 0 \<le> Suc k \<and> ([] :: addr list) = []" by simp
    ultimately show ?thesis unfolding must_iff split_paired_Ex prod.case by blast
  next
    case False
    let ?x = "PA2PTE pa OR perm OR PTE_V"
    let ?t = "t\<lparr>mem := store64 (mem t) e ?x\<rparr>"
    have v: "load64 (mem t) e AND PTE_V = 0" using False w(9) Suc.prems(4) a by (simp add: word_le_nat_alt)
    note x = mp [OF w(9) False, THEN conjunct2, THEN spec, of ?x]
    have n: "unat (a + PGSIZE) = unat a + 4096" using Suc.prems(3) by (intro unat_next_page) simp
    have pa: "PGROUNDDOWN a = a" using Suc.prems(2) by (rule PGROUNDDOWN_aligned)
    have un: "\<forall>v<MAXVA. a + PGSIZE \<le> v \<and> unat v < unat (a + PGSIZE) + 4096 * Suc k \<longrightarrow> pt_get 2 (mem ?t) pt v AND PTE_V = 0"
    proof (intro allI impI)
      fix v assume v: "v < MAXVA" and h: "a + PGSIZE \<le> v \<and> unat v < unat (a + PGSIZE) + 4096 * Suc k"
      then have "unat a + 4096 \<le> unat v" using n by (simp add: word_le_nat_alt)
      then have "PGROUNDDOWN v \<noteq> a" "a \<le> v"
        using same_page_iff [OF Suc.prems(2), of v] Suc.prems(3) by (auto simp: word_le_nat_alt)
      then have "pt_get 2 (mem ?t) pt v = pt_get 2 (mem s) pt v" using x v pa by simp
      moreover have "pt_get 2 (mem s) pt v AND PTE_V = 0" using Suc.prems(4) v h n \<open>a \<le> v\<close> by simp
      ultimately show "pt_get 2 (mem ?t) pt v AND PTE_V = 0" by simp
    qed
    have "must (mappages_loop (Suc k) pt (a + PGSIZE) alast (pa + PGSIZE) perm ?t) (\<lambda>(r, u). \<exists>rs ps'' j. ps' = rs @ ps'' \<and>
        pt_inv u pt (S \<union> set qs \<union> set rs) ps'' \<and> mem_only ?t u \<and> outside (mem ?t) (mem u) (S \<union> set qs \<union> set rs) \<and>
        (\<forall>v<MAXVA. pt_get 2 (mem u) pt v = map_range (a + PGSIZE) j (pa + PGSIZE) perm (pt_get 2 (mem ?t) pt) v) \<and>
        length rs \<le> 2 * Suc k \<and> (if r = 0 then j = Suc k else r = - 1 \<and> j \<le> k \<and> ps'' = []))"
      using x Suc.prems(2,3,5) n un by (intro Suc.IH page_aligned_next) auto
    then obtain r u rs ps'' j where u: "mappages_loop (Suc k) pt (a + PGSIZE) alast (pa + PGSIZE) perm ?t = Inr (r, u)"
      "ps' = rs @ ps''" "pt_inv u pt (S \<union> set qs \<union> set rs) ps''" "mem_only ?t u"
      "outside (mem ?t) (mem u) (S \<union> set qs \<union> set rs)"
      "\<forall>v<MAXVA. pt_get 2 (mem u) pt v = map_range (a + PGSIZE) j (pa + PGSIZE) perm (pt_get 2 (mem ?t) pt) v"
      "if r = 0 then j = Suc k else r = - 1 \<and> j \<le> k \<and> ps'' = []" "length rs \<le> 2 * Suc k"
      unfolding must_iff split_paired_Ex prod.case by blast
    have "j \<le> Suc k" using u(7) by (auto split: if_splits)
    then have "unat a + 4096 * Suc j \<le> unat MAXVA" using Suc.prems(3) by simp
    note mr = map_range_Suc [OF Suc.prems(2) this, of pa perm "pt_get 2 (mem s) pt"]
    have "pt_get 2 (mem u) pt v = map_range a (Suc j) pa perm (pt_get 2 (mem s) pt) v" if "v < MAXVA" for v
    proof -
      have "pt_get 2 (mem ?t) pt v = (if PGROUNDDOWN v = a then ?x else pt_get 2 (mem s) pt v)" using x that pa by simp
      from map_range_cong [of "pt_get 2 (mem ?t) pt" v "\<lambda>v. if PGROUNDDOWN v = a then ?x else pt_get 2 (mem s) pt v", OF this]
      show ?thesis using u(6) that mr [of v] by simp
    qed
    moreover have "mem_only s u" using w(6) mem_only_upd u(4) mem_only_trans by blast
    moreover have "outside (mem s) (mem u) (S \<union> set (qs @ rs))"
    proof (rule outside_trans [OF w(7)])
      show "outside (mem t) (mem u) (S \<union> set (qs @ rs))" by (rule outside_trans [OF _ u(5)]) (use x in auto)
    qed auto
    moreover have "pt_inv u pt (S \<union> set (qs @ rs)) ps''" using u(3) by (simp add: Un_assoc)
    moreover have "mappages_loop (Suc (Suc k)) pt a alast pa perm s = Inr (r, u)"
      using w(1) False v a(2) u(1) by (simp add: Let_def)
    moreover have "length (qs @ rs) \<le> 2 * Suc (Suc k)" using w(3) u(8) by simp
    moreover have "ps = (qs @ rs) @ ps''" "if r = 0 then Suc j = Suc (Suc k) else r = - 1 \<and> Suc j \<le> Suc k \<and> ps'' = []"
      using u(2,7) w(2) by (auto split: if_splits)
    ultimately show ?thesis unfolding must_iff split_paired_Ex prod.case by blast
  qed
qed

section \<open>User memory\<close>

text \<open>\<open>user_pte s pt v\<close>: the entry of \<open>v\<close> is valid and open to user code. \<open>umem s pt v\<close> is the byte
  a user program reads at \<open>v\<close>.\<close>

definition user_pte :: "'a kmem_scheme \<Rightarrow> addr \<Rightarrow> uint64 \<Rightarrow> bool" where
  "user_pte s pt v \<longleftrightarrow> v < MAXVA \<and> pt_get 2 (mem s) pt v AND PTE_V \<noteq> 0 \<and> pt_get 2 (mem s) pt v AND PTE_U \<noteq> 0"

definition user_pa :: "'a kmem_scheme \<Rightarrow> addr \<Rightarrow> uint64 \<Rightarrow> addr" where
  "user_pa s pt v = PTE2PA (pt_get 2 (mem s) pt v)"

definition umem :: "'a kmem_scheme \<Rightarrow> addr \<Rightarrow> uint64 \<Rightarrow> uchar option" where
  "umem s pt v = (if user_pte s pt v then Some (mem s (user_pa s pt v + (v - PGROUNDDOWN v))) else None)"

definition writable :: "'a kmem_scheme \<Rightarrow> addr \<Rightarrow> uint64 \<Rightarrow> bool" where
  "writable s pt v \<longleftrightarrow> user_pte s pt v \<and> pt_get 2 (mem s) pt v AND PTE_W \<noteq> 0"

definition as_inv :: "'a kmem_scheme \<Rightarrow> addr \<Rightarrow> addr set \<Rightarrow> addr list \<Rightarrow> bool" where
  "as_inv s pt S ps \<longleftrightarrow> pt_inv s pt S ps \<and>
     (\<forall>v. user_pte s pt v \<longrightarrow> page_ok s (user_pa s pt v) \<and> user_pa s pt v \<notin> S \<and> user_pa s pt v \<notin> set ps) \<and>
     (\<forall>v w. user_pte s pt v \<and> user_pte s pt w \<and> user_pa s pt v = user_pa s pt w \<longrightarrow> PGROUNDDOWN v = PGROUNDDOWN w)"

lemma pt_get_same_idx: "same_idx l v w \<Longrightarrow> pt_get l m pt w = pt_get l m pt v"
  by (induction l arbitrary: pt) (simp_all add: same_idx_Suc Let_def, simp add: same_idx_def)

lemma pt_get_page: "v < MAXVA \<Longrightarrow> w < MAXVA \<Longrightarrow> PGROUNDDOWN w = PGROUNDDOWN v \<Longrightarrow> pt_get 2 m pt w = pt_get 2 m pt v"
  using same_idx_iff [of v w] pt_get_same_idx [of 2 v w m pt] by simp

lemma PGROUNDDOWN_less: "v < MAXVA \<Longrightarrow> PGROUNDDOWN v < MAXVA"
  using PGROUNDDOWN_le [of v] by (rule le_less_trans)

lemma PGROUNDDOWN_idem [simp]: "PGROUNDDOWN (PGROUNDDOWN v) = PGROUNDDOWN v"
  by (simp add: PGROUNDDOWN_aligned)

lemma user_pte_page:
  assumes "v < MAXVA"
  shows "user_pte s pt (PGROUNDDOWN v) = user_pte s pt v" "user_pa s pt (PGROUNDDOWN v) = user_pa s pt v"
    "writable s pt (PGROUNDDOWN v) = writable s pt v"
  using pt_get_page [OF assms PGROUNDDOWN_less [OF assms], of "mem s" pt] PGROUNDDOWN_less [OF assms] assms
  by (simp_all add: user_pte_def user_pa_def writable_def)

lemma user_pte_less: "user_pte s pt v \<Longrightarrow> v < MAXVA"
  by (simp add: user_pte_def)

lemma as_inv_nonzero:
  assumes "as_inv s pt S ps" and "user_pte s pt v"
  shows "user_pa s pt v \<noteq> 0 \<and> page_aligned (user_pa s pt v)"
proof -
  have "page_ok s (user_pa s pt v)" "0 < sym_end s" using assms by (auto simp: as_inv_def pt_inv_def kmem_inv_def)
  then show ?thesis by (auto simp: page_ok_def)
qed

lemma as_inv_page:
  "as_inv s pt S ps \<Longrightarrow> user_pte s pt v \<Longrightarrow> page_ok s (user_pa s pt v) \<and> user_pa s pt v \<notin> S \<and> user_pa s pt v \<notin> set ps"
  by (simp add: as_inv_def)

lemma as_inv_inj:
  "as_inv s pt S ps \<Longrightarrow> user_pte s pt v \<Longrightarrow> user_pte s pt w \<Longrightarrow> user_pa s pt v = user_pa s pt w \<Longrightarrow>
    PGROUNDDOWN v = PGROUNDDOWN w"
  unfolding as_inv_def by blast

lemma walkaddr_user:
  assumes "as_inv s pt S ps" and "user_pte s pt v"
  shows "walkaddr pt v s = Inr (user_pa s pt v)"
proof -
  have i: "pt_inv s pt S ps" using assms(1) by (simp add: as_inv_def)
  have tr: "pt_tree 2 (mem s) pt S" using i by (simp add: pt_inv_def)
  have g: "pt_get 2 (mem s) pt v \<noteq> 0" using assms(2) by (auto simp: user_pte_def)
  note l = pt_leaf_nonzero [OF tr pt_inv_page [OF i] g]
  show ?thesis using l pt_get_leaf [OF l] assms(2)
    by (auto simp: walkaddr_def walk_def walk_loop_lookup user_pte_def user_pa_def dest: leD)
qed

lemma array_to_mem_eq:
  assumes "n \<le> 2 ^ 64"
  shows "array_to_mem m a src off n = (\<lambda>x. if in_range x a n then src (off + unat (x - a)) else m x)"
  using assms
proof (induction n arbitrary: m a off)
  case (Suc n)
  then have n: "n < 2 ^ 64" by simp
  have "unat (x - (a + 1)) + 1 = unat (x - a)" if "x \<noteq> a" for x :: addr
  proof -
    have e: "x - (a + 1) = (x - a) - 1" and n: "x - a \<noteq> 0" using that by auto
    have "0 < unat (x - a)" using n by (simp add: unat_gt_0)
    then show ?thesis unfolding e unat_minus_one [OF n] by simp
  qed
  then have "src (Suc off + unat (x - (a + 1))) = src (off + unat (x - a))" if "x \<noteq> a" for x
    using that by (metis add.commute add_Suc_right add_Suc_shift plus_1_eq_Suc)
  note e = this
  show ?case
  proof
    fix x
    show "array_to_mem m a src off (Suc n) x = (if in_range x a (Suc n) then src (off + unat (x - a)) else m x)"
      using Suc.IH n not_in_range_below [OF n, of a] e [of x] by (cases "x = a") (simp_all add: in_range_Suc)
  qed
qed simp

lemma mem_to_array_eq:
  "mem_to_array m a dst off n = (\<lambda>j. if off \<le> j \<and> j < off + n then m (a + of_nat (j - off)) else dst j)"
proof (induction n arbitrary: a dst off)
  case (Suc n)
  have "m (a + 1 + of_nat (j - Suc off)) = m (a + of_nat (j - off))" if "Suc off \<le> j" for j
  proof -
    have "j - off = Suc (j - Suc off)" using that by simp
    then show ?thesis by (simp add: algebra_simps)
  qed
  then show ?case using Suc.IH by (auto simp: fun_eq_iff)
qed (auto simp: fun_eq_iff)

text \<open>The bytes of one round: \<open>v + i\<close> with \<open>i < chunk v len\<close> lies in the page of \<open>v\<close>.\<close>

lemma chunk_page:
  assumes "i < chunk v len" and "unat v + len \<le> 2 ^ 64"
  shows "unat (v + of_nat i) = unat v + i" "PGROUNDDOWN (v + of_nat i) = PGROUNDDOWN v"
    "v + of_nat i - PGROUNDDOWN v = (v - PGROUNDDOWN v) + of_nat i"
proof -
  have i: "i < len" "unat v mod 4096 + i < 4096" using assms(1) by (auto simp: chunk_def unat_offset_PGROUNDDOWN)
  then show u: "unat (v + of_nat i) = unat v + i" using assms(2) by (simp add: unat_plus_if' unat_of_nat)
  have "unat v + i = unat v div 4096 * 4096 + (unat v mod 4096 + i)" by simp
  then have "(unat v + i) div 4096 = unat v div 4096" using i(2)
    by (metis div_less div_mult_self3 add.right_neutral zero_neq_numeral add.commute)
  then show "PGROUNDDOWN (v + of_nat i) = PGROUNDDOWN v" by (simp add: word_unat_eq_iff unat_PGROUNDDOWN u)
  show "v + of_nat i - PGROUNDDOWN v = (v - PGROUNDDOWN v) + of_nat i" by simp
qed

lemma next_chunk:
  assumes "chunk v len < len" and "unat v + len \<le> unat MAXVA"
  shows "PGROUNDDOWN v + PGSIZE = v + of_nat (chunk v len)"
proof -
  have c: "chunk v len = 4096 - unat v mod 4096" using assms(1) by (auto simp: chunk_def unat_offset_PGROUNDDOWN)
  have "unat v mod 4096 < 4096" by simp
  then have "unat v div 4096 * 4096 + 4096 = unat v + chunk v len" unfolding c
    using div_mult_mod_eq [of "unat v" 4096] by linarith
  then show ?thesis using assms
    by (simp add: word_unat_eq_iff unat_plus_if' unat_PGROUNDDOWN unat_of_nat)
qed

text \<open>\<open>copyin\<close> over a mapped range delivers the bytes a user program would read there.\<close>

lemma copyin_ok:
  assumes "as_inv s pt S ps" and "unat va + len \<le> unat MAXVA" and "\<forall>i<len. user_pte s pt (va + of_nat i)"
  shows "copyin pt dst off va len s =
    Inr (0, \<lambda>j. if off \<le> j \<and> j < off + len then the (umem s pt (va + of_nat (j - off))) else dst j, s)"
  using assms(2,3)
proof (induction len arbitrary: dst off va rule: less_induct)
  case (less len)
  show ?case
  proof (cases "len = 0")
    case True
    then show ?thesis by (subst copyin.simps) (auto simp: fun_eq_iff)
  next
    case False
    let ?n = "chunk va len" and ?base = "PGROUNDDOWN va" and ?pa = "user_pa s pt va"
    have n: "0 < ?n" "?n \<le> len" using False chunk_pos [of len va] by (simp_all add: chunk_def)
    have u: "user_pte s pt va" using less.prems(2) False by (auto dest: spec [of _ 0])
    note pg = user_pte_page [OF user_pte_less [OF u], of s pt]
    have pa: "user_page pt ?base s = Inr (?pa, s)"
      using walkaddr_user [OF assms(1), of ?base] as_inv_nonzero [OF assms(1) u] pg u by (simp add: user_page_def)
    let ?d = "mem_to_array (mem s) (?pa + (va - ?base)) dst off ?n"
    have step: "copyin pt dst off va len s = copyin pt ?d (off + ?n) (?base + PGSIZE) (len - ?n) s"
      using False pa as_inv_nonzero [OF assms(1) u] by (subst copyin.simps) (simp add: Let_def)
    have b: "the (umem s pt (va + of_nat i)) = mem s (?pa + (va - ?base) + of_nat i)" if i: "i < ?n" for i
    proof -
      have c: "PGROUNDDOWN (va + of_nat i) = ?base" "va + of_nat i - ?base = (va - ?base) + of_nat i"
        using chunk_page [OF i] less.prems(1) by simp_all
      have ui: "user_pte s pt (va + of_nat i)" using less.prems(2) i n by simp
      have "user_pa s pt (va + of_nat i) = ?pa"
        using user_pte_page(2) [OF user_pte_less [OF ui], of s pt] c(1) pg by simp
      then show ?thesis using ui c by (simp add: umem_def algebra_simps)
    qed
    show ?thesis
    proof (cases "?n = len")
      case True
      then have "copyin pt dst off va len s = Inr (0, ?d, s)" using step by (subst (asm) copyin.simps) simp
      moreover have "?d = (\<lambda>j. if off \<le> j \<and> j < off + len then the (umem s pt (va + of_nat (j - off))) else dst j)"
      proof
        fix j show "?d j = (if off \<le> j \<and> j < off + len then the (umem s pt (va + of_nat (j - off))) else dst j)"
          using b [of "j - off"] True by (auto simp: mem_to_array_eq simp del: of_nat_diff)
      qed
      ultimately show ?thesis by simp
    next
      case False
      then have lt: "?n < len" using n by simp
      let ?va = "va + of_nat ?n"
      have un: "unat ?va = unat va + ?n"
        using less.prems(1) lt by (simp add: unat_plus_if' unat_of_nat)
      have nx: "?base + PGSIZE = ?va" using next_chunk [OF lt less.prems(1)] .
      have "\<forall>i<len - ?n. user_pte s pt (?va + of_nat i)"
      proof (intro allI impI)
        fix i assume "i < len - ?n"
        then have "user_pte s pt (va + of_nat (?n + i))" using less.prems(2) lt by (auto dest: spec [of _ "?n + i"])
        then show "user_pte s pt (?va + of_nat i)" by (simp add: algebra_simps)
      qed
      then have ih: "copyin pt ?d (off + ?n) ?va (len - ?n) s =
          Inr (0, \<lambda>j. if off + ?n \<le> j \<and> j < off + ?n + (len - ?n) then the (umem s pt (?va + of_nat (j - (off + ?n)))) else ?d j, s)"
        using less.prems(1) un n lt by (intro less.IH) auto
      have "(if off + ?n \<le> j \<and> j < off + ?n + (len - ?n) then the (umem s pt (?va + of_nat (j - (off + ?n)))) else ?d j)
          = (if off \<le> j \<and> j < off + len then the (umem s pt (va + of_nat (j - off))) else dst j)" for j
      proof (cases "off + ?n \<le> j")
        case True
        then have "j - off = ?n + (j - (off + ?n))" by simp
        then have "?va + of_nat (j - (off + ?n)) = va + of_nat (j - off)" by (simp add: algebra_simps)
        then show ?thesis using True n by (simp add: mem_to_array_eq)
      next
        case F: False
        then show ?thesis using b [of "j - off"] n by (auto simp: mem_to_array_eq simp del: of_nat_diff)
      qed
      then show ?thesis using step ih nx by (simp add: fun_eq_iff)
    qed
  qed
qed

text \<open>Storing into a user page changes no lookup: the page is outside the tree and the free list.\<close>

lemma as_inv_store:
  assumes i: "as_inv s pt S ps" and u: "user_pte s pt v" and m: "\<And>x. \<not> in_range x (user_pa s pt v) 4096 \<Longrightarrow> m x = mem s x"
  shows "as_inv (s\<lparr>mem := m\<rparr>) pt S ps" "pt_get 2 m pt w = pt_get 2 (mem s) pt w"
    "user_pte (s\<lparr>mem := m\<rparr>) pt w = user_pte s pt w" "user_pa (s\<lparr>mem := m\<rparr>) pt w = user_pa s pt w"
    "writable (s\<lparr>mem := m\<rparr>) pt w = writable s pt w"
proof -
  let ?q = "user_pa s pt v"
  have q: "page_aligned ?q" "?q \<notin> S" "?q \<notin> set ps" using i u by (auto simp: as_inv_def page_ok_def)
  have p: "pt_inv s pt S ps" using i by (simp add: as_inv_def)
  have "agree (mem s) m S"
    unfolding agree_def using m q pt_inv_page [OF p] pages_disjoint by metis
  then have t: "pt_tree 2 m pt S \<and> (\<forall>va. pt_get 2 m pt va = pt_get 2 (mem s) pt va)"
    using pt_frame [of 2 "mem s" pt S m] p by (simp add: pt_inv_def)
  then show g: "pt_get 2 m pt w = pt_get 2 (mem s) pt w" for w by blast
  show up: "user_pte (s\<lparr>mem := m\<rparr>) pt w = user_pte s pt w" "user_pa (s\<lparr>mem := m\<rparr>) pt w = user_pa s pt w"
    "writable (s\<lparr>mem := m\<rparr>) pt w = writable s pt w" for w
    by (simp_all add: user_pte_def user_pa_def writable_def g)
  have k: "kmem_inv (s\<lparr>mem := m\<rparr>) ps" using p q m by (intro kmem_inv_frame [of _ _ ?q]) (auto simp: pt_inv_def)
  have "page_ok (s\<lparr>mem := m\<rparr>) x = page_ok s x" for x by (simp add: page_ok_def)
  then show "as_inv (s\<lparr>mem := m\<rparr>) pt S ps" using i t k by (simp add: as_inv_def pt_inv_def up)
qed

lemma umem_store:
  fixes src :: bytes and off :: nat
  assumes i: "as_inv s pt S ps" and u: "user_pte s pt v" and n: "n \<le> chunk v len" and b: "unat v + len \<le> unat MAXVA"
  defines "m \<equiv> array_to_mem (mem s) (user_pa s pt v + (v - PGROUNDDOWN v)) src off n"
  shows "\<not> in_range x (user_pa s pt v) 4096 \<Longrightarrow> m x = mem s x"
    "umem (s\<lparr>mem := m\<rparr>) pt w = (if v \<le> w \<and> unat w < unat v + n then Some (src (off + unat (w - v))) else umem s pt w)"
proof -
  let ?q = "user_pa s pt v" and ?o = "v - PGROUNDDOWN v"
  have q: "page_aligned ?q" using as_inv_nonzero [OF i u] by simp
  have "unat ?o \<le> 4096" by (simp add: unat_offset_PGROUNDDOWN less_imp_le)
  then have o: "unat ?o + n \<le> 4096" "n \<le> len" using n by (auto simp: chunk_def)
  have n64: "n \<le> 2 ^ 64" using o by simp
  note e = array_to_mem_eq [OF n64, of "mem s" "?q + ?o" src off]
  have inq: "in_range x ?q 4096 \<and> unat (x - ?q) = unat ?o + unat (x - (?q + ?o))" if "in_range x (?q + ?o) n" for x
  proof -
    define y where "y = x - (?q + ?o)"
    have y: "unat y < n" using that by (simp add: in_range_def y_def)
    then have "unat (?o + y) = unat ?o + unat y" using o(1) by (simp add: unat_plus_if')
    moreover have "x - ?q = ?o + y" by (simp add: y_def)
    ultimately show ?thesis using y o(1) unfolding y_def [symmetric] by (simp add: in_range_def)
  qed
  show mo: "m x = mem s x" if "\<not> in_range x ?q 4096" for x using inq that unfolding m_def e by auto
  note st = as_inv_store [OF i u mo]
  show "umem (s\<lparr>mem := m\<rparr>) pt w = (if v \<le> w \<and> unat w < unat v + n then Some (src (off + unat (w - v))) else umem s pt w)"
  proof (cases "user_pte s pt w")
    case False
    have "\<not> (v \<le> w \<and> unat w < unat v + n)"
    proof
      assume h: "v \<le> w \<and> unat w < unat v + n"
      define j where "j = unat w - unat v"
      have w: "w = v + of_nat j" "j < chunk v len" using h n by (auto simp: j_def word_le_nat_alt)
      then have "PGROUNDDOWN w = PGROUNDDOWN v" "unat w = unat v + j" using chunk_page [of j v len] b by auto
      moreover have "w < MAXVA" using h b o(2) by (simp add: word_less_nat_alt)
      ultimately have "user_pte s pt w" using user_pte_page(1) [of v s pt] user_pte_page(1) [of w s pt] u user_pte_less [OF u] by simp
      then show False using False by simp
    qed
    then show ?thesis using False st(3) by (simp add: umem_def)
  next
    case True
    let ?p = "user_pa s pt w + (w - PGROUNDDOWN w)"
    have um: "umem (s\<lparr>mem := m\<rparr>) pt w = Some (m ?p)" "umem s pt w = Some (mem s ?p)"
      using True st(3,4) by (simp_all add: umem_def)
    have wo: "unat (w - PGROUNDDOWN w) < 4096" by (simp add: unat_offset_PGROUNDDOWN)
    have pw: "in_range ?p (user_pa s pt w) 4096" using wo by (simp add: in_range_def)
    show ?thesis
    proof (cases "PGROUNDDOWN w = PGROUNDDOWN v")
      case same: True
      then have "user_pa s pt w = ?q"
        using user_pte_page(2) [OF user_pte_less [OF u], of s pt] user_pte_page(2) [OF user_pte_less [OF True], of s pt] by simp
      then have d: "?p - (?q + ?o) = w - v" using same by simp
      have ir: "in_range ?p (?q + ?o) n \<longleftrightarrow> v \<le> w \<and> unat w < unat v + n"
      proof (cases "v \<le> w")
        case True
        then show ?thesis unfolding in_range_def d by (auto simp: unat_sub word_le_nat_alt)
      next
        case False
        then have "unat (w - v) = 18446744073709551616 + unat w - unat v"
          by (simp add: unat_sub_if' word_le_nat_alt)
        moreover have "unat v < 274877906944" using user_pte_less [OF u] by (simp add: word_less_nat_alt)
        ultimately have "\<not> unat (w - v) < n" using o(1) by linarith
        then show ?thesis unfolding in_range_def d using False by simp
      qed
      have "m ?p = (if v \<le> w \<and> unat w < unat v + n then src (off + unat (w - v)) else mem s ?p)"
        unfolding m_def e ir d ..
      then show ?thesis using um by simp
    next
      case False
      then have ne: "user_pa s pt w \<noteq> ?q" using as_inv_inj [OF i True u] by blast
      then have "\<not> in_range ?p ?q 4096" using pages_disjoint [of "user_pa s pt w" ?q ?p] pw q as_inv_nonzero [OF i True] by auto
      moreover have "\<not> (v \<le> w \<and> unat w < unat v + n)"
      proof
        assume h: "v \<le> w \<and> unat w < unat v + n"
        define j where "j = unat w - unat v"
        have "w = v + of_nat j" "j < chunk v len" using h n by (auto simp: j_def word_le_nat_alt)
        then have "PGROUNDDOWN w = PGROUNDDOWN v" using chunk_page [of j v len] b by auto
        then show False using False by simp
      qed
      ultimately show ?thesis using um mo by auto
    qed
  qed
qed

lemma walk_user:
  assumes "as_inv s pt S ps" and "user_pte s pt v"
  shows "\<exists>e. walk pt v False s = Inr (e, s) \<and> e \<noteq> 0 \<and> load64 (mem s) e = pt_get 2 (mem s) pt v"
proof -
  have i: "pt_inv s pt S ps" using assms(1) by (simp add: as_inv_def)
  have tr: "pt_tree 2 (mem s) pt S" using i by (simp add: pt_inv_def)
  have g: "pt_get 2 (mem s) pt v \<noteq> 0" using assms(2) by (auto simp: user_pte_def)
  note l = pt_leaf_nonzero [OF tr pt_inv_page [OF i] g]
  show ?thesis using l pt_get_leaf [OF l] user_pte_less [OF assms(2)]
    by (auto simp: walk_def walk_loop_lookup dest: leD)
qed

text \<open>\<open>copyout\<close> over a writable range changes exactly those bytes of the user memory.\<close>

lemma copyout_ok:
  assumes "as_inv s pt S ps" and "unat va + len \<le> unat MAXVA" and "\<forall>i<len. writable s pt (va + of_nat i)"
  shows "must (copyout pt va src off len s) (\<lambda>(r, t). r = 0 \<and> t = s\<lparr>mem := mem t\<rparr> \<and> as_inv t pt S ps \<and>
    (\<forall>w. user_pte t pt w = user_pte s pt w \<and> writable t pt w = writable s pt w) \<and>
    (\<forall>w. umem t pt w = (if va \<le> w \<and> unat w < unat va + len then Some (src (off + unat (w - va))) else umem s pt w)))"
  using assms
proof (induction len arbitrary: s off va rule: less_induct)
  case (less len)
  show ?case
  proof (cases "len = 0")
    case True
    then show ?thesis using less.prems(1) by (subst copyout.simps) (auto simp: word_le_nat_alt)
  next
    case False
    let ?n = "chunk va len" and ?base = "PGROUNDDOWN va" and ?pa = "user_pa s pt va"
    have n: "0 < ?n" "?n \<le> len" using False chunk_pos [of len va] by (simp_all add: chunk_def)
    have wr: "writable s pt va" using less.prems(3) False by (auto dest: spec [of _ 0])
    then have u: "user_pte s pt va" by (simp add: writable_def)
    have vm: "va < MAXVA" using u by (rule user_pte_less)
    note pg = user_pte_page [OF vm, of s pt]
    have ub: "user_pte s pt ?base" "writable s pt ?base" using pg u wr by simp_all
    have pa: "user_page pt ?base s = Inr (?pa, s)" "?pa \<noteq> 0"
      using walkaddr_user [OF less.prems(1) ub(1)] as_inv_nonzero [OF less.prems(1) u] pg by (simp_all add: user_page_def)
    obtain e where e: "walk pt ?base False s = Inr (e, s)" "e \<noteq> 0" "load64 (mem s) e AND PTE_W \<noteq> 0"
      using walk_user [OF less.prems(1) ub(1)] ub(2) by (auto simp: writable_def)
    define m where "m = array_to_mem (mem s) (?pa + (va - ?base)) src off ?n"
    let ?s = "s\<lparr>mem := m\<rparr>"
    have step: "copyout pt va src off len s = copyout pt (?base + PGSIZE) src (off + ?n) (len - ?n) ?s"
      using False pa e PGROUNDDOWN_less [OF vm] by (subst copyout.simps) (auto simp: Let_def m_def dest: leD)
    note us = umem_store [where src = src and off = off, OF less.prems(1) u order_refl less.prems(2), folded m_def]
    note st = as_inv_store [OF less.prems(1) u us(1)]
    show ?thesis
    proof (cases "?n = len")
      case True
      then have "copyout pt va src off len s = Inr (0, ?s)" using step by (subst (asm) copyout.simps) simp
      then show ?thesis using st us(2) True by simp
    next
      case False
      then have lt: "?n < len" using n by simp
      let ?v = "va + of_nat ?n"
      have un: "unat ?v = unat va + ?n"
        using less.prems(2) lt by (simp add: unat_plus_if' unat_of_nat)
      have nx: "?base + PGSIZE = ?v" using next_chunk [OF lt less.prems(2)] .
      have wn: "\<forall>i<len - ?n. writable ?s pt (?v + of_nat i)"
      proof (intro allI impI)
        fix i assume "i < len - ?n"
        then have "writable s pt (va + of_nat (?n + i))" using less.prems(3) lt by (auto dest: spec [of _ "?n + i"])
        then show "writable ?s pt (?v + of_nat i)" using st(5) by (simp add: algebra_simps)
      qed
      have "unat ?v + (len - ?n) \<le> unat MAXVA" using un lt less.prems(2) by simp
      moreover have "len - ?n < len" using n by simp
      ultimately have "must (copyout pt ?v src (off + ?n) (len - ?n) ?s) (\<lambda>(r, t). r = 0 \<and> t = ?s\<lparr>mem := mem t\<rparr> \<and> as_inv t pt S ps \<and>
          (\<forall>w. user_pte t pt w = user_pte ?s pt w \<and> writable t pt w = writable ?s pt w) \<and>
          (\<forall>w. umem t pt w = (if ?v \<le> w \<and> unat w < unat ?v + (len - ?n) then Some (src (off + ?n + unat (w - ?v))) else umem ?s pt w)))"
        using less.IH [OF _ st(1) _ wn] by blast
      then obtain t where t: "copyout pt ?v src (off + ?n) (len - ?n) ?s = Inr (0, t)" "t = ?s\<lparr>mem := mem t\<rparr>" "as_inv t pt S ps"
        "\<forall>w. user_pte t pt w = user_pte ?s pt w \<and> writable t pt w = writable ?s pt w"
        "\<forall>w. umem t pt w = (if ?v \<le> w \<and> unat w < unat ?v + (len - ?n) then Some (src (off + ?n + unat (w - ?v))) else umem ?s pt w)"
        unfolding must_iff split_paired_Ex prod.case by blast
      have "umem t pt w = (if va \<le> w \<and> unat w < unat va + len then Some (src (off + unat (w - va))) else umem s pt w)" for w
      proof (cases "?v \<le> w")
        case True
        have le: "va \<le> w" using True un by (simp add: word_le_nat_alt)
        have "unat (w - va) = ?n + unat (w - ?v)" using True le un by (simp add: unat_sub word_le_nat_alt)
        then show ?thesis using t(5) us(2) [of w] True le un n by (auto simp: word_le_nat_alt add.assoc)
      next
        case F: False
        then have "unat w < unat va + ?n" using un by (simp add: word_le_nat_alt)
        then show ?thesis using t(5) us(2) [of w] F n by auto
      qed
      moreover have "t = s\<lparr>mem := mem t\<rparr>" 
      proof -
        note t(2)
        also have "?s\<lparr>mem := mem t\<rparr> = s\<lparr>mem := mem t\<rparr>" by simp
        finally show ?thesis .
      qed
      ultimately show ?thesis using step nx t(1,3,4) st(3,5) by simp
    qed
  qed
qed

section \<open>Adding a page to an address space\<close>

lemma mem_only_sel:
  assumes "mem_only s t"
  shows "sym_end t = sym_end s" "sym_etext t = sym_etext s" "sym_trampoline t = sym_trampoline s" "kmem.more t = kmem.more s"
  using arg_cong [OF assms [unfolded mem_only_def], of sym_end] arg_cong [OF assms [unfolded mem_only_def], of sym_etext]
    arg_cong [OF assms [unfolded mem_only_def], of sym_trampoline] arg_cong [OF assms [unfolded mem_only_def], of kmem.more]
  by simp_all

lemma bit_or_nonzero: "(y::uint64) AND f \<noteq> 0 \<Longrightarrow> (x OR y OR z) AND f \<noteq> 0"
proof -
  assume "y AND f \<noteq> 0"
  then obtain n where "bit (y AND f) n" by (auto simp: bit_eq_iff)
  then have "bit ((x OR y OR z) AND f) n" by (simp add: bit_and_iff bit_or_iff)
  then show ?thesis by force
qed

lemma unat_or_flags: "unat (x::uint64) < 1024 \<Longrightarrow> unat y < 1024 \<Longrightarrow> unat (x OR y) < 1024"
proof -
  assume "unat x < 1024" "unat y < 1024"
  then have "int (unat x) < 1024" "int (unat y) < 1024" by linarith+
  then have "uint (x OR y) < 2 ^ 10" unfolding uint_or by (intro OR_upper) simp_all
  then have "int (unat (x OR y)) < 1024" by simp
  then show ?thesis by linarith
qed

text \<open>Changes confined to pages that are neither user pages nor part of the tree leave the user
  memory as it is, if the lookups do.\<close>

lemma umem_frame:
  assumes i: "as_inv s pt S ps" and o: "outside (mem s) (mem t) A" and al: "\<And>p. p \<in> A \<Longrightarrow> page_aligned p"
    and d: "\<And>v. user_pte s pt v \<Longrightarrow> user_pa s pt v \<notin> A"
    and g: "pt_get 2 (mem t) pt w = pt_get 2 (mem s) pt w"
  shows "user_pte t pt w = user_pte s pt w" "user_pa t pt w = user_pa s pt w" "umem t pt w = umem s pt w"
proof -
  show u: "user_pte t pt w = user_pte s pt w" "user_pa t pt w = user_pa s pt w"
    using g by (simp_all add: user_pte_def user_pa_def)
  show "umem t pt w = umem s pt w"
  proof (cases "user_pte s pt w")
    case True
    let ?p = "user_pa s pt w + (w - PGROUNDDOWN w)"
    have "unat (w - PGROUNDDOWN w) < 4096" by (simp add: unat_offset_PGROUNDDOWN)
    then have "in_range ?p (user_pa s pt w) 4096" by (simp add: in_range_def)
    then have "mem t ?p = mem s ?p"
      using outside_page [OF o al, of "user_pa s pt w"] as_inv_nonzero [OF i True] d [OF True] by blast
    then show ?thesis using u True by (simp add: umem_def)
  qed (use u in \<open>simp add: umem_def\<close>)
qed

text \<open>Mapping one page.\<close>

lemma mappages_single:
  assumes p: "pt_inv s pt S ps" and va: "page_aligned va" "va < MAXVA" "pt_get 2 (mem s) pt va AND PTE_V = 0"
  obtains r t qs ps' where "mappages pt va PGSIZE q perm s = Inr (r, t)" "ps = qs @ ps'" "length qs \<le> 2" "mem_only s t"
    "outside (mem s) (mem t) (S \<union> set qs)" "pt_inv t pt (S \<union> set qs) ps'"
    "if r = 0 then \<forall>v<MAXVA. pt_get 2 (mem t) pt v = (if PGROUNDDOWN v = va then PA2PTE q OR perm OR PTE_V else pt_get 2 (mem s) pt v)
     else r = - 1 \<and> ps' = [] \<and> (\<forall>v<MAXVA. pt_get 2 (mem t) pt v = pt_get 2 (mem s) pt v)"
proof -
  obtain k where k: "unat va = k * 4096" using va(1) by (auto elim: page_alignedE)
  have top: "unat va + 4096 \<le> unat MAXVA" using va(2) k by (simp add: word_less_nat_alt)
  have same: "va \<le> v \<and> unat v < unat va + 4096 \<longleftrightarrow> PGROUNDDOWN v = va" for v
    using same_page_iff [OF va(1), of v] top by simp
  have un: "\<forall>v<MAXVA. va \<le> v \<and> unat v < unat va + 4096 * Suc 0 \<longrightarrow> pt_get 2 (mem s) pt v AND PTE_V = 0"
    using pt_get_page [OF va(2)] va(3) PGROUNDDOWN_aligned [OF va(1)] same by simp
  have "must (mappages_loop (Suc 0) pt va va q perm s) (\<lambda>(r, t). \<exists>qs ps' j. ps = qs @ ps' \<and>
      pt_inv t pt (S \<union> set qs) ps' \<and> mem_only s t \<and> outside (mem s) (mem t) (S \<union> set qs) \<and>
      (\<forall>v<MAXVA. pt_get 2 (mem t) pt v = map_range va j q perm (pt_get 2 (mem s) pt) v) \<and>
      length qs \<le> 2 * Suc 0 \<and> (if r = 0 then j = Suc 0 else r = - 1 \<and> j \<le> 0 \<and> ps' = []))"
    by (rule mappages_loop_ok [OF p va(1) _ un]) (use top in simp_all)
  then obtain r t qs ps' j where t: "mappages_loop (Suc 0) pt va va q perm s = Inr (r, t)" "ps = qs @ ps'"
      "pt_inv t pt (S \<union> set qs) ps'" "mem_only s t" "outside (mem s) (mem t) (S \<union> set qs)"
      "\<forall>v<MAXVA. pt_get 2 (mem t) pt v = map_range va j q perm (pt_get 2 (mem s) pt) v"
      "if r = 0 then j = Suc 0 else r = - 1 \<and> j \<le> 0 \<and> ps' = []" "length qs \<le> 2 * Suc 0"
    unfolding must_iff split_paired_Ex prod.case by blast
  have "mappages pt va PGSIZE q perm s = Inr (r, t)"
    using t(1) va(1) by (simp add: mappages_def page_aligned_def)
  moreover have "map_range va (Suc 0) q perm f v = (if PGROUNDDOWN v = va then PA2PTE q OR perm OR PTE_V else f v)" for f v
    using map_range_Suc [OF va(1), of 0 q perm f] top by (simp add: map_range_0)
  then have "if r = 0 then \<forall>v<MAXVA. pt_get 2 (mem t) pt v = (if PGROUNDDOWN v = va then PA2PTE q OR perm OR PTE_V else pt_get 2 (mem s) pt v)
     else r = - 1 \<and> ps' = [] \<and> (\<forall>v<MAXVA. pt_get 2 (mem t) pt v = pt_get 2 (mem s) pt v)"
    using t(6,7) by (cases "r = 0") (simp_all add: map_range_0)
  ultimately show thesis using that [of r t qs ps'] t(2-5,8) by simp
qed

lemma mappages_page:
  assumes i: "as_inv s pt S ps" and q: "page_ok s q" "q \<notin> S" "q \<notin> set ps" "\<And>v. user_pte s pt v \<Longrightarrow> user_pa s pt v \<noteq> q"
    and va: "page_aligned va" "va < MAXVA" "pt_get 2 (mem s) pt va AND PTE_V = 0"
    and perm: "unat perm < 1024" "perm AND PTE_U \<noteq> 0"
  shows "\<exists>r t qs ps'. mappages pt va PGSIZE q perm s = Inr (r, t) \<and> ps = qs @ ps' \<and> length qs \<le> 2 \<and> mem_only s t \<and>
    as_inv t pt (S \<union> set qs) ps' \<and>
    (if r = 0 then \<forall>w<MAXVA. umem t pt w = (if PGROUNDDOWN w = va then Some (mem s (q + (w - va))) else umem s pt w) \<and>
       (PGROUNDDOWN w = va \<longrightarrow> pt_get 2 (mem t) pt w = PA2PTE q OR perm OR PTE_V)
     else r = - 1 \<and> ps' = [] \<and> (\<forall>w. umem t pt w = umem s pt w) \<and>
       (\<forall>w<MAXVA. pt_get 2 (mem t) pt w = pt_get 2 (mem s) pt w))"
proof -
  have p: "pt_inv s pt S ps" using i by (simp add: as_inv_def)
  obtain r t qs ps' where t: "mappages pt va PGSIZE q perm s = Inr (r, t)" "ps = qs @ ps'"
      "pt_inv t pt (S \<union> set qs) ps'" "mem_only s t" "outside (mem s) (mem t) (S \<union> set qs)"
      "if r = 0 then \<forall>v<MAXVA. pt_get 2 (mem t) pt v = (if PGROUNDDOWN v = va then PA2PTE q OR perm OR PTE_V else pt_get 2 (mem s) pt v)
       else r = - 1 \<and> ps' = [] \<and> (\<forall>v<MAXVA. pt_get 2 (mem t) pt v = pt_get 2 (mem s) pt v)" "length qs \<le> 2"
    by (rule mappages_single [OF p va, where q = q and perm = perm])
  note mp = t(1)
  let ?e = "PA2PTE q OR perm OR PTE_V"
  have e: "?e AND PTE_V \<noteq> 0" "?e AND PTE_U \<noteq> 0" "PTE2PA ?e = q"
  proof -
    show "?e AND PTE_V \<noteq> 0" using PTE_V_or [of "PA2PTE q OR perm"] by (simp add: or.assoc)
    show "?e AND PTE_U \<noteq> 0" using perm(2) by (rule bit_or_nonzero)
    have "unat (perm OR PTE_V) < 1024" using perm(1) by (rule unat_or_flags) simp
    then show "PTE2PA ?e = q" using q(1) by (intro PTE2PA_PA2PTE) (simp_all add: page_ok_def)
  qed
  have al: "\<And>p. p \<in> S \<union> set qs \<Longrightarrow> page_aligned p" using pt_inv_page [OF t(3)] by blast
  have d: "user_pa s pt v \<notin> S \<union> set qs" "user_pa s pt v \<notin> set ps'" if "user_pte s pt v" for v
    using as_inv_page [OF i that] t(2) by auto
  note fr = umem_frame [OF i t(5) al d(1)]
  note pk = page_ok_mem_only [OF t(4)]
  show ?thesis
  proof (cases "r = 0")
    case False
    then have f: "r = - 1" "ps' = []" "\<And>v. v < MAXVA \<Longrightarrow> pt_get 2 (mem t) pt v = pt_get 2 (mem s) pt v"
      using t(6) by simp_all
    have fr': "user_pte t pt v = user_pte s pt v" "user_pa t pt v = user_pa s pt v \<or> \<not> user_pte s pt v" "umem t pt v = umem s pt v" for v
    proof -
      show "user_pte t pt v = user_pte s pt v" "user_pa t pt v = user_pa s pt v \<or> \<not> user_pte s pt v" "umem t pt v = umem s pt v"
        using fr [of v] f(3) [of v] by (cases "v < MAXVA"; simp add: user_pte_def umem_def)+
    qed
    have "as_inv t pt (S \<union> set qs) ps'"
      unfolding as_inv_def fr'(1) pk using t(3) i d fr'(2) by (metis as_inv_def)
    then show ?thesis using mp t(2,4,7) f fr'(3) by simp
  next
    case True
    then have g: "\<And>v. v < MAXVA \<Longrightarrow> pt_get 2 (mem t) pt v = (if PGROUNDDOWN v = va then ?e else pt_get 2 (mem s) pt v)"
      using t(6) by simp
    have new: "user_pte t pt v \<and> user_pa t pt v = q" if "v < MAXVA" "PGROUNDDOWN v = va" for v
      using g [OF that(1)] that e by (simp add: user_pte_def user_pa_def)
    have old: "user_pte t pt v = user_pte s pt v" "user_pa t pt v = user_pa s pt v" "umem t pt v = umem s pt v"
      if "v < MAXVA" "PGROUNDDOWN v \<noteq> va" for v using fr [of v] g [OF that(1)] that(2) by simp_all
    have nv: "\<not> user_pte s pt v" if "v < MAXVA" "PGROUNDDOWN v = va" for v
      using pt_get_page [OF that(1) va(2)] that va(1,3) by (simp add: user_pte_def PGROUNDDOWN_aligned)
    have pg: "page_ok t (user_pa t pt v) \<and> user_pa t pt v \<notin> S \<union> set qs \<and> user_pa t pt v \<notin> set ps'" if u: "user_pte t pt v" for v
    proof (cases "PGROUNDDOWN v = va")
      case True
      then show ?thesis using new [OF user_pte_less [OF u]] q pk t(2) by auto
    next
      case False
      then show ?thesis using old [OF user_pte_less [OF u]] u d [of v] pk as_inv_page [OF i, of v] by auto
    qed
    have inj: "PGROUNDDOWN v = PGROUNDDOWN w" if u: "user_pte t pt v" "user_pte t pt w" "user_pa t pt v = user_pa t pt w" for v w
    proof (cases "PGROUNDDOWN v = va \<or> PGROUNDDOWN w = va")
      case True
      then show ?thesis using new old q(4) u user_pte_less by metis
    next
      case False
      then show ?thesis using old(1,2) [OF user_pte_less [OF u(1)]] old(1,2) [OF user_pte_less [OF u(2)]] as_inv_inj [OF i] u by metis
    qed
    have "as_inv t pt (S \<union> set qs) ps'" unfolding as_inv_def using t(3) pg inj by blast
    moreover have "umem t pt w = (if PGROUNDDOWN w = va then Some (mem s (q + (w - va))) else umem s pt w)" if w: "w < MAXVA" for w
    proof (cases "PGROUNDDOWN w = va")
      case True
      have "unat (w - va) < 4096" unfolding True [symmetric] by (simp add: unat_offset_PGROUNDDOWN)
      then have "in_range (q + (w - va)) q 4096" by (simp add: in_range_def)
      moreover have "page_aligned q" "q \<notin> S \<union> set qs" using q t(2) by (auto simp: page_ok_def)
      ultimately have "mem t (q + (w - va)) = mem s (q + (w - va))" using outside_page [OF t(5) al] by blast
      then show ?thesis using new [OF w True] True by (simp add: umem_def)
    qed (use old [OF w] in simp)
    ultimately show ?thesis using mp t(2,4,7) True g by auto
  qed
qed

lemma as_inv_zalloc:
  assumes i: "as_inv s pt S (p # ps)"
  obtains m f s1 where "kalloc s = (p, s1)" "s1\<lparr>mem := memset (mem s1) p 0 PGSIZE\<rparr> = s\<lparr>freelist := f, mem := m\<rparr>"
    "as_inv (s\<lparr>freelist := f, mem := m\<rparr>) pt S ps" "\<forall>a. in_range a p 4096 \<longrightarrow> m a = 0" "page_ok s p" "p \<noteq> 0" "p \<notin> S" "p \<notin> set ps"
    "\<forall>w. pt_get 2 m pt w = pt_get 2 (mem s) pt w" "\<forall>w. user_pte s pt w \<longrightarrow> user_pa s pt w \<noteq> p"
    "\<forall>w. umem (s\<lparr>freelist := f, mem := m\<rparr>) pt w = umem s pt w"
proof -
  have pi: "pt_inv s pt S (p # ps)" using i by (simp add: as_inv_def)
  then have k: "kmem_inv s (p # ps)" "p \<notin> S" "S \<inter> set ps = {}" by (simp_all add: pt_inv_def)
  obtain m f s1 where z: "kalloc s = (p, s1)" "s1\<lparr>mem := memset (mem s1) p 0 PGSIZE\<rparr> = s\<lparr>freelist := f, mem := m\<rparr>"
    "kmem_inv (s\<lparr>freelist := f, mem := m\<rparr>) ps" "\<forall>a. m a = (if in_range a p 4096 then 0 else mem s a)"
    "page_ok s p" "p \<noteq> 0" "p \<notin> set ps" using kzalloc_ok [OF k(1)] by blast
  let ?t = "s\<lparr>freelist := f, mem := m\<rparr>"
  have al: "page_aligned p" using z(5) by (simp add: page_ok_def)
  have o: "outside (mem s) (mem ?t) {p}" using z(4) by (simp add: outside_def)
  have "agree (mem s) m S"
  proof (unfold agree_def, intro ballI allI impI)
    fix q x assume q: "q \<in> S" "in_range x q 4096"
    then have "\<not> in_range x p 4096" using pages_disjoint [of q p x] pt_inv_page [OF pi q(1)] al k(2) by auto
    then show "m x = mem s x" using z(4) by simp
  qed
  then have t: "pt_tree 2 m pt S" and g: "\<And>w. pt_get 2 m pt w = pt_get 2 (mem s) pt w"
    using pt_frame [of 2 "mem s" pt S m] pi by (simp_all add: pt_inv_def)
  have ne: "user_pa s pt w \<noteq> p" if "user_pte s pt w" for w using as_inv_page [OF i that] by auto
  have fr: "user_pte ?t pt w = user_pte s pt w" "user_pa ?t pt w = user_pa s pt w" "umem ?t pt w = umem s pt w" for w
    using umem_frame [OF i o, of w] al ne g [of w] by auto
  have pk: "page_ok ?t x = page_ok s x" for x by (simp add: page_ok_def)
  have "as_inv ?t pt S ps"
    unfolding as_inv_def fr pk
  proof (intro conjI)
    show "pt_inv ?t pt S ps" using pi t z(3) k(3) pk by (simp add: pt_inv_def)
    show "\<forall>v. user_pte s pt v \<longrightarrow> page_ok s (user_pa s pt v) \<and> user_pa s pt v \<notin> S \<and> user_pa s pt v \<notin> set ps"
      using as_inv_page [OF i] by auto
    show "\<forall>v w. user_pte s pt v \<and> user_pte s pt w \<and> user_pa s pt v = user_pa s pt w \<longrightarrow> PGROUNDDOWN v = PGROUNDDOWN w"
      using as_inv_inj [OF i] by blast
  qed
  then show ?thesis using that [OF z(1,2)] z(4-7) k(2) g ne fr(3) by simp
qed

lemma as_inv_kfree:
  assumes i: "as_inv s pt S ps" and q: "page_ok s q" "q \<notin> S" "q \<notin> set ps" "\<And>v. user_pte s pt v \<Longrightarrow> user_pa s pt v \<noteq> q"
  shows "\<exists>t. kfree q s = Inr t \<and> mem_only s t \<and> as_inv t pt S (q # ps) \<and> (\<forall>w. umem t pt w = umem s pt w)"
proof -
  have pi: "pt_inv s pt S ps" using i by (simp add: as_inv_def)
  then have k: "kmem_inv s ps" by (simp add: pt_inv_def)
  obtain m where f: "kfree q s = Inr (s\<lparr>mem := m, freelist := q\<rparr>)" "kmem_inv (s\<lparr>mem := m, freelist := q\<rparr>) (q # ps)"
    "\<forall>a. \<not> in_range a q 4096 \<longrightarrow> m a = mem s a" using kfree_ok [OF k q(1,3)] by blast
  let ?t = "s\<lparr>mem := m, freelist := q\<rparr>"
  have al: "page_aligned q" using q(1) by (simp add: page_ok_def)
  have o: "outside (mem s) (mem ?t) {q}" using f(3) by (simp add: outside_def)
  have "agree (mem s) m S"
  proof (unfold agree_def, intro ballI allI impI)
    fix p x assume p: "p \<in> S" "in_range x p 4096"
    then have "\<not> in_range x q 4096" using pages_disjoint [of p q x] pt_inv_page [OF pi p(1)] al q(2) by auto
    then show "m x = mem s x" using f(3) by simp
  qed
  then have t: "pt_tree 2 m pt S" and g: "\<And>w. pt_get 2 m pt w = pt_get 2 (mem s) pt w"
    using pt_frame [of 2 "mem s" pt S m] pi by (simp_all add: pt_inv_def)
  have fr: "user_pte ?t pt w = user_pte s pt w" "user_pa ?t pt w = user_pa s pt w" "umem ?t pt w = umem s pt w" for w
    using umem_frame [OF i o, of w] al q(4) g [of w] by auto
  have pk: "page_ok ?t x = page_ok s x" for x by (simp add: page_ok_def)
  have "as_inv ?t pt S (q # ps)"
    unfolding as_inv_def fr pk
  proof (intro conjI)
    show "pt_inv ?t pt S (q # ps)" using pi t f(2) q(2) pk by (simp add: pt_inv_def)
    show "\<forall>v. user_pte s pt v \<longrightarrow> page_ok s (user_pa s pt v) \<and> user_pa s pt v \<notin> S \<and> user_pa s pt v \<notin> set (q # ps)"
      using as_inv_page [OF i] q(4) by auto
    show "\<forall>v w. user_pte s pt v \<and> user_pte s pt w \<and> user_pa s pt v = user_pa s pt w \<longrightarrow> PGROUNDDOWN v = PGROUNDDOWN w"
      using as_inv_inj [OF i] by blast
  qed
  then show ?thesis using f(1) fr(3) by (auto simp: mem_only_def)
qed

text \<open>A page fault below the size of the process adds a page of zeros, or, when memory runs out,
  changes nothing a user program can see.\<close>

lemma vmfault_ok:
  assumes i: "as_inv s pt S ps" and c: "cur s = Inr p" "ppagetable (procs s p) = pt" and va: "va < psz (procs s p)" "va < MAXVA"
    and un: "pt_get 2 (mem s) pt va AND PTE_V = 0"
  shows "must (vmfault pt va s) (\<lambda>(r, t). mem_only s t \<and> (\<exists>S' ps'. as_inv t pt S' ps' \<and>
    (if r = 0 then length ps \<le> 3 \<and> (\<forall>w. umem t pt w = umem s pt w)
     else \<forall>w<MAXVA. umem t pt w = (if PGROUNDDOWN w = PGROUNDDOWN va then Some 0 else umem s pt w) \<and>
       (PGROUNDDOWN w = PGROUNDDOWN va \<longrightarrow> writable t pt w))))"
proof -
  let ?va = "PGROUNDDOWN va"
  have vm: "?va < MAXVA" using va(2) by (rule PGROUNDDOWN_less)
  have g: "pt_get 2 (mem s) pt ?va AND PTE_V = 0" using pt_get_page [OF va(2) vm] un by simp
  have im: "ismapped pt ?va s = Inr False"
  proof -
    have "walk pt ?va False s = Inr (pt_leaf 2 (mem s) pt ?va, s)" using vm by (auto simp: walk_def walk_loop_lookup dest: leD)
    then show ?thesis using pt_get_leaf [of 2 "mem s" pt ?va] g by (auto simp: ismapped_def)
  qed
  show ?thesis
  proof (cases ps)
    case Nil
    then have "kmem_inv s []" using i by (simp add: as_inv_def pt_inv_def)
    then have "vmfault pt va s = Inr (0, s)" using c va(1) im by (simp add: vmfault_def kalloc_empty)
    moreover have "\<exists>S' ps'. as_inv s pt S' ps'" using i by blast
    ultimately show ?thesis using Nil by simp
  next
    case (Cons q ps1)
    obtain m f s1 where z: "kalloc s = (q, s1)" "s1\<lparr>mem := memset (mem s1) q 0 PGSIZE\<rparr> = s\<lparr>freelist := f, mem := m\<rparr>"
      "as_inv (s\<lparr>freelist := f, mem := m\<rparr>) pt S ps1" "\<forall>a. in_range a q 4096 \<longrightarrow> m a = 0" "page_ok s q" "q \<noteq> 0" "q \<notin> S" "q \<notin> set ps1"
      "\<forall>w. pt_get 2 m pt w = pt_get 2 (mem s) pt w" "\<forall>w. user_pte s pt w \<longrightarrow> user_pa s pt w \<noteq> q"
      "\<forall>w. umem (s\<lparr>freelist := f, mem := m\<rparr>) pt w = umem s pt w"
      by (rule as_inv_zalloc [OF i [unfolded Cons]])
    let ?s = "s\<lparr>freelist := f, mem := m\<rparr>" and ?perm = "PTE_W OR PTE_U OR PTE_R :: uint64"
    have pk: "page_ok ?s q" using z(5) by (simp add: page_ok_def)
    have uq: "user_pa ?s pt v \<noteq> q" if "user_pte ?s pt v" for v using z(9,10) that by (simp add: user_pte_def user_pa_def)
    have un': "pt_get 2 (mem ?s) pt ?va AND PTE_V = 0" using z(9) g by simp
    have perm: "unat ?perm < 1024" "?perm AND PTE_U \<noteq> 0" by simp_all
    obtain r t qs ps' where t: "mappages pt ?va PGSIZE q ?perm ?s = Inr (r, t)" "ps1 = qs @ ps'" "mem_only ?s t"
      "as_inv t pt (S \<union> set qs) ps'"
      "if r = 0 then \<forall>w<MAXVA. umem t pt w = (if PGROUNDDOWN w = ?va then Some (mem ?s (q + (w - ?va))) else umem ?s pt w) \<and>
         (PGROUNDDOWN w = ?va \<longrightarrow> pt_get 2 (mem t) pt w = PA2PTE q OR ?perm OR PTE_V)
       else r = - 1 \<and> ps' = [] \<and> (\<forall>w. umem t pt w = umem ?s pt w) \<and>
         (\<forall>w<MAXVA. pt_get 2 (mem t) pt w = pt_get 2 (mem ?s) pt w)" "length qs \<le> 2"
      using mappages_page [OF z(3) pk z(7,8) uq page_aligned_PGROUNDDOWN vm un' perm] by blast
    have s1: "procs s1 = procs s"
      using arg_cong [OF z(2), of procs] by simp
    have mo: "mem_only s t" using t(3) mem_only_trans [of s ?s t] by (simp add: mem_only_def)
    show ?thesis
    proof (cases "r = 0")
      case True
      then have "vmfault pt va s = Inr (q, t)" using c va(1) im z(1,2,6) t(1) s1 by (simp add: vmfault_def)
      moreover have "umem t pt w = (if PGROUNDDOWN w = ?va then Some 0 else umem s pt w)" if "w < MAXVA" for w
      proof -
        have "unat (w - PGROUNDDOWN w) < 4096" by (simp add: unat_offset_PGROUNDDOWN)
        then have "PGROUNDDOWN w = ?va \<Longrightarrow> m (q + (w - ?va)) = 0" using z(4) by (auto simp: in_range_def)
        then show ?thesis using t(5) True that z(11) by simp
      qed
      moreover have "writable t pt w" if "w < MAXVA" "PGROUNDDOWN w = ?va" for w
      proof -
        have "umem t pt w \<noteq> None" using calculation(2) [OF that(1)] that(2) by simp
        then have "user_pte t pt w" by (auto simp: umem_def split: if_splits)
        moreover have "pt_get 2 (mem t) pt w = PA2PTE q OR ?perm OR PTE_V" using t(5) [unfolded if_P [OF True]] that by blast
        moreover have "?perm AND PTE_W \<noteq> 0" by simp
        ultimately show ?thesis unfolding writable_def using bit_or_nonzero by metis
      qed
      ultimately show ?thesis using mo t(4) z(6) by simp blast
    next
      case False
      have kf: "page_ok t q" "q \<notin> S \<union> set qs" "q \<notin> set ps'" using page_ok_mem_only [OF t(3)] pk z(7,8) t(2) by auto
      have "user_pa t pt v \<noteq> q" if "user_pte t pt v" for v
      proof -
        have "pt_get 2 (mem t) pt v = pt_get 2 (mem ?s) pt v" using t(5) False user_pte_less [OF that] by simp
        then show ?thesis using uq [of v] that by (simp add: user_pte_def user_pa_def)
      qed
      then obtain u where u: "kfree q t = Inr u" "mem_only t u" "as_inv u pt (S \<union> set qs) [q]" "\<forall>w. umem u pt w = umem t pt w"
        using as_inv_kfree [OF t(4) kf] t(5) False by auto
      have "vmfault pt va s = Inr (0, u)" using c va(1) im z(1,2,6) t(1) s1 False u(1) by (simp add: vmfault_def)
      moreover have "mem_only s u" using mo u(2) by (rule mem_only_trans)
      moreover have "\<exists>S' ps'. as_inv u pt S' ps'" using u(3) by blast
      moreover have "length ps \<le> 3" using t(2,5,6) False Cons by simp
      moreover have "umem u pt w = umem s pt w" for w using u(4) t(5) False z(11) by simp
      ultimately show ?thesis by simp
    qed
  qed
qed

section \<open>Properties\<close>

text \<open>A machine to evaluate on: five pages on the free list; the first becomes an empty page table.\<close>

definition vm_boot :: kproc where
  "vm_boot = \<lparr>sym_end = 0x80020000, sym_etext = 0x80008000, sym_trampoline = 0x80007000, mem = (\<lambda>_. 0), freelist = 0,
     procs = (\<lambda>_. zero_proc\<lparr>psz := 8192, ppagetable := 0x80025000\<rparr>), cpu_proc = (\<lambda>_. Some 0), hart = 0, nextpid = 2,
     initproc = Some 0, ticks = 0\<rparr>"

lemma kfree_more:
  assumes "kmem_inv s ps" and "page_ok s q" and "q \<notin> set ps"
  shows "\<exists>t. mem_only s t \<and> kmem_inv t (q # ps)"
proof -
  obtain m where "kmem_inv (s\<lparr>mem := m, freelist := q\<rparr>) (q # ps)" using kfree_ok [OF assms] by blast
  then show ?thesis by (intro exI [of _ "s\<lparr>mem := m, freelist := q\<rparr>"]) (simp add: mem_only_def)
qed

lemma vm_ready:
  obtains s :: kproc and ps where "mem_only vm_boot s" "as_inv s 0x80025000 {0x80025000} ps" "length ps = 4"
    "\<forall>w. pt_get 2 (mem s) 0x80025000 w = 0"
proof -
  have ok: "page_ok vm_boot q" if "page_aligned q" "0x80020000 \<le> q" "q < PHYSTOP" for q
    using that by (simp add: page_ok_def vm_boot_def)
  have k0: "kmem_inv vm_boot []" by (simp add: kmem_inv_def vm_boot_def)
  obtain s1 where s1: "mem_only vm_boot s1" "kmem_inv s1 [0x80021000]"
    using kfree_more [OF k0 ok [of "0x80021000"]] by (auto simp: page_aligned_def)
  obtain s2 where s2: "mem_only s1 s2" "kmem_inv s2 [0x80022000, 0x80021000]"
    using kfree_more [OF s1(2), of "0x80022000"] ok [of "0x80022000"] page_ok_mem_only [OF s1(1)] by (auto simp: page_aligned_def)
  note m2 = mem_only_trans [OF s1(1) s2(1)]
  obtain s3 where s3: "mem_only s2 s3" "kmem_inv s3 [0x80023000, 0x80022000, 0x80021000]"
    using kfree_more [OF s2(2), of "0x80023000"] ok [of "0x80023000"] page_ok_mem_only [OF m2] by (auto simp: page_aligned_def)
  note m3 = mem_only_trans [OF m2 s3(1)]
  obtain s4 where s4: "mem_only s3 s4" "kmem_inv s4 [0x80024000, 0x80023000, 0x80022000, 0x80021000]"
    using kfree_more [OF s3(2), of "0x80024000"] ok [of "0x80024000"] page_ok_mem_only [OF m3] by (auto simp: page_aligned_def)
  note m4 = mem_only_trans [OF m3 s4(1)]
  obtain s5 where s5: "mem_only s4 s5" "kmem_inv s5 (0x80025000 # [0x80024000, 0x80023000, 0x80022000, 0x80021000])"
    using kfree_more [OF s4(2), of "0x80025000"] ok [of "0x80025000"] page_ok_mem_only [OF m4] by (auto simp: page_aligned_def)
  note m5 = mem_only_trans [OF m4 s5(1)]
  obtain m f s6 where z: "kmem_inv (s5\<lparr>freelist := f, mem := m\<rparr>) [0x80024000, 0x80023000, 0x80022000, 0x80021000]"
    "\<forall>a. m a = (if in_range a 0x80025000 4096 then 0 else mem s5 a)" "page_ok s5 0x80025000"
    using kzalloc_ok [OF s5(2)] by blast
  let ?s = "s5\<lparr>freelist := f, mem := m\<rparr>"
  have t: "pt_tree 2 (mem ?s) 0x80025000 {0x80025000} \<and> (\<forall>va. pt_get 2 (mem ?s) 0x80025000 va = 0)"
    by (rule zero_tree) (simp add: z(2))
  have "page_ok ?s 0x80025000" using z(3) by (simp add: page_ok_def)
  then have "as_inv ?s 0x80025000 {0x80025000} [0x80024000, 0x80023000, 0x80022000, 0x80021000]"
    using t z(1) by (simp add: as_inv_def pt_inv_def user_pte_def)
  moreover have "mem_only vm_boot ?s" using mem_only_trans [OF m5, of ?s] by (simp add: mem_only_def)
  ultimately show ?thesis using that [of ?s] t by simp
qed

lemma vm_ready_cur:
  assumes "mem_only vm_boot s"
  shows "cur s = Inr 0" "ppagetable (procs s 0) = 0x80025000" "psz (procs s 0) = 8192"
proof -
  note e = assms [unfolded mem_only_def]
  have "procs s = procs vm_boot" using arg_cong [OF e, of procs] by simp
  moreover have "cpu_proc s = cpu_proc vm_boot" using arg_cong [OF e, of cpu_proc] by simp
  ultimately show "cur s = Inr 0" "ppagetable (procs s 0) = 0x80025000" "psz (procs s 0) = 8192"
    by (simp_all add: vm_boot_def cur_def myproc_def cpuid_def)
qed

text \<open>C37. \<open>mappages\<close> on an unmapped, page-aligned range of virtual addresses either maps every page
  of the range to consecutive physical pages with the given permissions, leaving every other
  lookup of the address space as it was, or runs out of memory for page-table pages. The tree
  stays a tree of pages disjoint from the free list, and takes at most two pages for each page
  mapped.\<close>

theorem mappages_maps:
  assumes "pt_inv s pt S ps" and "page_aligned va" and "unat va + unat sz \<le> unat MAXVA" and "sz mod PGSIZE = 0" and "sz \<noteq> 0"
    and "\<forall>v<MAXVA. va \<le> v \<and> unat v < unat va + unat sz \<longrightarrow> pt_get 2 (mem s) pt v AND PTE_V = 0"
  shows "must (mappages pt va sz pa perm s) (\<lambda>(r, t). \<exists>qs ps'. ps = qs @ ps' \<and> pt_inv t pt (S \<union> set qs) ps' \<and>
    length qs \<le> 2 * (unat sz div 4096) \<and>
    (if r = 0 then \<forall>v<MAXVA. pt_get 2 (mem t) pt v =
        (if va \<le> v \<and> unat v < unat va + unat sz then PA2PTE (pa + (PGROUNDDOWN v - va)) OR perm OR PTE_V
         else pt_get 2 (mem s) pt v)
     else r = - 1 \<and> ps' = []))"
proof -
  have d: "unat sz mod 4096 = 0" using assms(4) by (simp add: word_unat_eq_iff unat_mod)
  define k where "k = unat sz div 4096 - 1"
  have "0 < unat sz" using assms(5) by (simp add: unat_gt_0)
  then have k: "unat sz = 4096 * Suc k" "unat sz div 4096 = Suc k" using d by (auto simp: k_def)
  have al: "unat (va + sz - PGSIZE) = unat va + 4096 * k"
  proof -
    have "unat (va + sz) = unat va + 4096 * Suc k" using assms(3) k by (simp add: unat_plus_if')
    then show ?thesis by (simp add: unat_sub word_le_nat_alt)
  qed
  have "mappages pt va sz pa perm s = mappages_loop (Suc k) pt va (va + sz - PGSIZE) pa perm s"
    using assms(2,4,5) k(2) by (simp add: mappages_def page_aligned_def del: mappages_loop.simps)
  moreover have "must (mappages_loop (Suc k) pt va (va + sz - PGSIZE) pa perm s) (\<lambda>(r, t). \<exists>qs ps' j. ps = qs @ ps' \<and>
      pt_inv t pt (S \<union> set qs) ps' \<and> mem_only s t \<and> outside (mem s) (mem t) (S \<union> set qs) \<and>
      (\<forall>v<MAXVA. pt_get 2 (mem t) pt v = map_range va j pa perm (pt_get 2 (mem s) pt) v) \<and>
      length qs \<le> 2 * Suc k \<and> (if r = 0 then j = Suc k else r = - 1 \<and> j \<le> k \<and> ps' = []))"
    by (rule mappages_loop_ok [OF assms(1,2) _ _ al]) (use assms(3,6) k in simp_all)
  ultimately obtain r t qs ps' j where t: "mappages pt va sz pa perm s = Inr (r, t)" "ps = qs @ ps'"
      "pt_inv t pt (S \<union> set qs) ps'" "\<forall>v<MAXVA. pt_get 2 (mem t) pt v = map_range va j pa perm (pt_get 2 (mem s) pt) v"
      "length qs \<le> 2 * Suc k" "if r = 0 then j = Suc k else r = - 1 \<and> j \<le> k \<and> ps' = []"
    unfolding must_iff split_paired_Ex prod.case by metis
  have "if r = 0 then \<forall>v<MAXVA. pt_get 2 (mem t) pt v =
        (if va \<le> v \<and> unat v < unat va + unat sz then PA2PTE (pa + (PGROUNDDOWN v - va)) OR perm OR PTE_V
         else pt_get 2 (mem s) pt v) else r = - 1 \<and> ps' = []"
    using t(4,6) k(1) by (simp add: map_range_def)
  then show ?thesis using t(1,2,3,5) k(2) unfolding must_iff split_paired_Ex prod.case by metis
qed

theorem mappages_maps_witness:
  "\<exists>(s::kproc) t. mappages 0x80025000 0x1000 0x1000 0x80100000 PTE_R s = Inr (0, t) \<and>
     pt_get 2 (mem t) 0x80025000 0x1234 = PA2PTE 0x80100000 OR PTE_R OR PTE_V"
proof -
  obtain s :: kproc and ps where s: "mem_only vm_boot s" "as_inv s 0x80025000 {0x80025000} ps" "length ps = 4"
    "\<forall>w. pt_get 2 (mem s) 0x80025000 w = 0"
    by (rule vm_ready)
  have i: "pt_inv s 0x80025000 {0x80025000} ps" using s(2) by (simp add: as_inv_def)
  note m = mappages_maps [OF i, of "0x1000" "0x1000" "0x80100000" PTE_R]
  obtain r t qs ps' where t: "mappages 0x80025000 0x1000 0x1000 0x80100000 PTE_R s = Inr (r, t)" "ps = qs @ ps'" "length qs \<le> 2"
    "if r = 0 then \<forall>v<MAXVA. pt_get 2 (mem t) 0x80025000 v =
        (if 0x1000 \<le> v \<and> unat v < 0x1000 + 0x1000 then PA2PTE (0x80100000 + (PGROUNDDOWN v - 0x1000)) OR PTE_R OR PTE_V
         else pt_get 2 (mem s) 0x80025000 v) else r = - 1 \<and> ps' = []"
    using m s(4) by (auto simp: must_iff page_aligned_def)
  have "r = 0" using t(2-4) s(3) by (auto split: if_splits)
  moreover have "PGROUNDDOWN 0x1234 - 0x1000 = 0" by (simp add: PGROUNDDOWN_def)
  ultimately show ?thesis using t(1) t(4) [unfolded if_P [OF \<open>r = 0\<close>], THEN spec, of "0x1234"] by auto
qed

text \<open>C36. Copying out and back in: over a range of writable user pages, \<open>copyout\<close> returns 0 and
  changes exactly the bytes of the range in the user's memory, and a following \<open>copyin\<close> of the
  range returns the bytes that were copied out, across any page boundaries.\<close>

theorem copyout_copyin_roundtrip:
  assumes "as_inv s pt S ps" and "unat va + len \<le> unat MAXVA" and "\<forall>i<len. writable s pt (va + of_nat i)"
  shows "\<exists>t d. copyout pt va src off len s = Inr (0, t) \<and> as_inv t pt S ps \<and>
    (\<forall>w. umem t pt w = (if va \<le> w \<and> unat w < unat va + len then Some (src (off + unat (w - va))) else umem s pt w)) \<and>
    copyin pt dst 0 va len t = Inr (0, d, t) \<and> (\<forall>i<len. d i = src (off + i)) \<and> (\<forall>i\<ge>len. d i = dst i)"
proof -
  obtain t where t: "copyout pt va src off len s = Inr (0, t)" "as_inv t pt S ps"
    "\<forall>w. user_pte t pt w = user_pte s pt w \<and> writable t pt w = writable s pt w"
    "\<forall>w. umem t pt w = (if va \<le> w \<and> unat w < unat va + len then Some (src (off + unat (w - va))) else umem s pt w)"
    using copyout_ok [OF assms, of src off] unfolding must_iff split_paired_Ex prod.case by blast
  have "\<forall>i<len. user_pte t pt (va + of_nat i)" using assms(3) t(3) by (simp add: writable_def)
  note c = copyin_ok [OF t(2) assms(2) this, of dst 0]
  have "the (umem t pt (va + of_nat i)) = src (off + i)" if "i < len" for i
  proof -
    have "unat (va + of_nat i) = unat va + i" using that assms(2) by (simp add: unat_plus_if' unat_of_nat)
    moreover have "unat (va + of_nat i - va) = i" using that assms(2) by (simp add: unat_of_nat)
    ultimately show ?thesis using t(4) that by (simp add: word_le_nat_alt)
  qed
  then show ?thesis using t c by simp
qed

text \<open>C38. Lazy allocation: a fault at an unmapped address below the size of the running process
  adds to its address space one page of zeros, readable and writable, at the page of the
  address and nothing else; with four free pages it cannot fail, and when it fails for want of
  memory the user's memory is unchanged.\<close>

theorem vmfault_zero_page:
  assumes "as_inv s pt S ps" and "cur s = Inr p" and "ppagetable (procs s p) = pt" and "va < psz (procs s p)" and "va < MAXVA"
    and "pt_get 2 (mem s) pt va AND PTE_V = 0"
  shows "\<exists>r t S' ps'. vmfault pt va s = Inr (r, t) \<and> as_inv t pt S' ps' \<and> (4 \<le> length ps \<longrightarrow> r \<noteq> 0) \<and>
    (if r = 0 then \<forall>w. umem t pt w = umem s pt w
     else \<forall>w<MAXVA. umem t pt w = (if PGROUNDDOWN w = PGROUNDDOWN va then Some 0 else umem s pt w) \<and>
       (PGROUNDDOWN w = PGROUNDDOWN va \<longrightarrow> writable t pt w))"
proof -
  obtain r t S' ps' where t: "vmfault pt va s = Inr (r, t)" "as_inv t pt S' ps'"
    "if r = 0 then length ps \<le> 3 \<and> (\<forall>w. umem t pt w = umem s pt w)
     else \<forall>w<MAXVA. umem t pt w = (if PGROUNDDOWN w = PGROUNDDOWN va then Some 0 else umem s pt w) \<and>
       (PGROUNDDOWN w = PGROUNDDOWN va \<longrightarrow> writable t pt w)"
    using vmfault_ok [OF assms] unfolding must_iff split_paired_Ex prod.case by blast
  have "4 \<le> length ps \<longrightarrow> r \<noteq> 0" using t(3) by (auto split: if_splits)
  moreover have "if r = 0 then \<forall>w. umem t pt w = umem s pt w
     else \<forall>w<MAXVA. umem t pt w = (if PGROUNDDOWN w = PGROUNDDOWN va then Some 0 else umem s pt w) \<and>
       (PGROUNDDOWN w = PGROUNDDOWN va \<longrightarrow> writable t pt w)" using t(3) by (cases "r = 0") simp_all
  ultimately show ?thesis using t(1,2) by blast
qed

theorem vmfault_zero_page_witness:
  "\<exists>(s::kproc) r t. vmfault 0x80025000 100 s = Inr (r, t) \<and> r \<noteq> 0 \<and> umem s 0x80025000 7 = None \<and> umem t 0x80025000 7 = Some 0"
proof -
  obtain s :: kproc and ps where s: "mem_only vm_boot s" "as_inv s 0x80025000 {0x80025000} ps" "length ps = 4"
    "\<forall>w. pt_get 2 (mem s) 0x80025000 w = 0"
    by (rule vm_ready)
  note c = vm_ready_cur [OF s(1)]
  obtain r t where t: "vmfault 0x80025000 100 s = Inr (r, t)" "r \<noteq> 0"
    "\<forall>w<MAXVA. umem t 0x80025000 w = (if PGROUNDDOWN w = PGROUNDDOWN 100 then Some 0 else umem s 0x80025000 w)"
    using vmfault_zero_page [OF s(2) c(1,2), of 100] s(3,4) c(3) by auto
  have "PGROUNDDOWN 7 = PGROUNDDOWN 100" by (simp add: PGROUNDDOWN_def)
  then have "umem t 0x80025000 7 = Some 0" using t(3) by simp
  moreover have "umem s 0x80025000 7 = None" using s(4) by (simp add: umem_def user_pte_def)
  ultimately show ?thesis using t(1,2) by blast
qed

theorem copyout_copyin_roundtrip_witness:
  "\<exists>(s::kproc) t d. copyout 0x80025000 10 (\<lambda>i. of_nat i + 65) 0 5 s = Inr (0, t) \<and>
     copyin 0x80025000 (\<lambda>_. 0) 0 10 5 t = Inr (0, d, t) \<and> d 4 = 69"
proof -
  obtain s0 :: kproc and ps where s: "mem_only vm_boot s0" "as_inv s0 0x80025000 {0x80025000} ps" "length ps = 4"
    "\<forall>w. pt_get 2 (mem s0) 0x80025000 w = 0"
    by (rule vm_ready)
  note c = vm_ready_cur [OF s(1)]
  have "must (vmfault 0x80025000 100 s0) (\<lambda>(r, t). mem_only s0 t \<and> (\<exists>S' ps'. as_inv t 0x80025000 S' ps' \<and>
    (if r = 0 then length ps \<le> 3 \<and> (\<forall>w. umem t 0x80025000 w = umem s0 0x80025000 w)
     else \<forall>w<MAXVA. umem t 0x80025000 w = (if PGROUNDDOWN w = PGROUNDDOWN 100 then Some 0 else umem s0 0x80025000 w) \<and>
       (PGROUNDDOWN w = PGROUNDDOWN 100 \<longrightarrow> writable t 0x80025000 w))))"
    by (rule vmfault_ok [OF s(2) c(1,2)]) (use c(3) s(4) in simp_all)
  then obtain r :: uint64 and s :: kproc and S' ps' where t0: "as_inv s 0x80025000 S' ps'"
    "if r = 0 then length ps \<le> 3 \<and> (\<forall>w. umem s 0x80025000 w = umem s0 0x80025000 w)
     else \<forall>w<MAXVA. umem s 0x80025000 w = (if PGROUNDDOWN w = PGROUNDDOWN 100 then Some 0 else umem s0 0x80025000 w) \<and>
       (PGROUNDDOWN w = PGROUNDDOWN 100 \<longrightarrow> writable s 0x80025000 w)"
    unfolding must_iff split_paired_Ex prod.case by blast
  have "r \<noteq> 0" using t0(2) s(3) by (auto split: if_splits)
  then have t: "as_inv s 0x80025000 S' ps'" "\<forall>w<MAXVA. PGROUNDDOWN w = PGROUNDDOWN 100 \<longrightarrow> writable s 0x80025000 w"
    using t0 by simp_all
  have "writable s 0x80025000 (10 + of_nat i)" if "i < 5" for i
  proof -
    have u: "unat (10 + of_nat i :: uint64) = 10 + i" using that by (simp add: unat_plus_if' unat_of_nat)
    have "10 + of_nat i < (MAXVA :: uint64)" using u that by (simp add: word_less_nat_alt)
    moreover have "PGROUNDDOWN (10 + of_nat i) = PGROUNDDOWN 100" using u that by (simp add: word_unat_eq_iff unat_PGROUNDDOWN)
    ultimately show ?thesis using t(2) by blast
  qed
  then obtain u d where u: "copyout 0x80025000 10 (\<lambda>i. of_nat i + 65) 0 5 s = Inr (0, u)"
    "copyin 0x80025000 (\<lambda>_. 0) 0 10 5 u = Inr (0, d, u)" "\<forall>i<5. d i = of_nat (0 + i) + 65"
    using copyout_copyin_roundtrip [OF t(1), of 10 5 "\<lambda>i. of_nat i + 65" 0 "\<lambda>_. 0"] by auto
  have "d 4 = 69" using u(3) by simp
  then show ?thesis using u(1,2) by blast
qed

text \<open>C39. A process whose size exceeds \<open>MAXVA\<close> can stop the kernel: \<open>copyin\<close> of a user address
  between \<open>MAXVA\<close> and the size of the process gets past the test in \<open>vmfault\<close> and panics in
  \<open>walk\<close>, whatever the page table.\<close>

theorem copyin_above_MAXVA_panics:
  assumes "cur s = Inr p" and "MAXVA \<le> PGROUNDDOWN va" and "PGROUNDDOWN va < psz (procs s p)" and "0 < len"
  shows "copyin pt dst off va len s = Inl (Panic ''walk'')"
proof -
  have "walkaddr pt (PGROUNDDOWN va) s = Inr 0" using assms(2) by (simp add: walkaddr_def)
  moreover have "ismapped pt (PGROUNDDOWN va) s = Inl (Panic ''walk'')" using assms(2) by (simp add: ismapped_def walk_def)
  ultimately have "user_page pt (PGROUNDDOWN va) s = Inl (Panic ''walk'')"
    using assms(1,3) by (simp add: user_page_def vmfault_def)
  then show ?thesis using assms(4) by (subst copyin.simps) simp
qed

theorem copyin_above_MAXVA_panics_witness:
  "copyin 0x80025000 (\<lambda>_. 0) 0 MAXVA 1 (vm_boot\<lparr>procs := \<lambda>_. zero_proc\<lparr>psz := 2 ^ 40\<rparr>\<rparr>) = Inl (Panic ''walk'')"
  by (rule copyin_above_MAXVA_panics [of _ 0])
    (simp_all add: cur_def myproc_def cpuid_def vm_boot_def PGROUNDDOWN_def zero_proc_def)

end
