(* ===== verification/Fs.thy ===== *)
theory Fs
  imports Log_Crash Vm
begin

text \<open>
  The file system proper, \<open>kernel/fs.c\<close>, \<open>kernel/fs.h\<close> and \<open>kernel/file.h\<close>: block allocation,
  inodes and their contents, directories and paths, on top of the buffer cache and the log.

  A \<open>struct inode *\<close> is an index into the table. A \<open>uint\<close> is a natural number and the
  places where the C arithmetic can wrap are written with \<open>mod 2 ^ 32\<close>; a \<open>short\<close> is an integer.
  The structures on disk are read and written at their byte offsets: \<open>struct dinode\<close> has \<open>type\<close>,
  \<open>major\<close>, \<open>minor\<close>, \<open>nlink\<close> at 0, 2, 4, 6, \<open>size\<close> at 8 and \<open>addrs[i]\<close> at \<open>12 + 4 * i\<close>; \<open>struct dirent\<close> has
  \<open>inum\<close> at 0 and \<open>name\<close> at 2.

  A C string argument is the list of its characters without the terminating NUL, and a pointer
  into it is a suffix. Messages that only go to \<open>printf\<close> are left out.
\<close>

section \<open>State\<close>

record superblock =
  sb_magic :: nat
  sb_size :: nat
  sb_nblocks :: nat
  sb_ninodes :: nat
  sb_nlog :: nat
  sb_logstart :: nat
  sb_inodestart :: nat
  sb_bmapstart :: nat

record inode =
  i_dev :: nat
  i_inum :: nat
  i_ref :: int
  i_lock :: sleeplock
  i_valid :: bool
  i_type :: int
  i_major :: int
  i_minor :: int
  i_nlink :: int
  i_size :: nat
  i_addrs :: "nat \<Rightarrow> nat"

record kfs = klog +
  sb :: superblock
  itable :: "nat \<Rightarrow> inode"

abbreviation (input) T_DIR :: int where "T_DIR \<equiv> 1"
abbreviation (input) T_FILE :: int where "T_FILE \<equiv> 2"
abbreviation (input) T_DEVICE :: int where "T_DEVICE \<equiv> 3"

definition upd_inode :: "nat \<Rightarrow> (inode \<Rightarrow> inode) \<Rightarrow> 'a kfs_scheme \<Rightarrow> 'a kfs_scheme" where
  "upd_inode ip f s = s\<lparr>itable := (itable s)(ip := f (itable s ip))\<rparr>"

text \<open>Two's complement wrap-around of a C \<open>short\<close>.\<close>

definition wrap16 :: "int \<Rightarrow> int" where
  "wrap16 x = (x + 2 ^ 15) mod 2 ^ 16 - 2 ^ 15"

definition IBLOCK :: "nat \<Rightarrow> superblock \<Rightarrow> nat" where
  "IBLOCK i S = (i div IPB + sb_inodestart S) mod 2 ^ 32"

definition BBLOCK :: "nat \<Rightarrow> superblock \<Rightarrow> nat" where
  "BBLOCK b S = (b div BPB + sb_bmapstart S) mod 2 ^ 32"

section \<open>Blocks\<close>

definition readsb :: "nat \<Rightarrow> 'a kfs_scheme \<Rightarrow> 'a kfs_scheme kres" where
  "readsb dev s =
     kbind (bread dev 1 s) (\<lambda>(bp, s).
     let d = b_data (bufs s bp)
     in brelse bp (s\<lparr>sb := \<lparr>sb_magic = le_load d 0 4, sb_size = le_load d 4 4, sb_nblocks = le_load d 8 4,
          sb_ninodes = le_load d 12 4, sb_nlog = le_load d 16 4, sb_logstart = le_load d 20 4,
          sb_inodestart = le_load d 24 4, sb_bmapstart = le_load d 28 4\<rparr>\<rparr>))"

definition bzero :: "nat \<Rightarrow> nat \<Rightarrow> 'a kfs_scheme \<Rightarrow> 'a kfs_scheme kres" where
  "bzero dev bno s =
     kbind (bread dev bno s) (\<lambda>(bp, s).
     kbind (log_write bp (set_data bp (\<lambda>_. 0) s)) (\<lambda>s.
     brelse bp s))"

text \<open>The bit of block \<open>bi\<close> in a block of the free map.\<close>

definition map_bit :: "nat \<Rightarrow> uchar" where
  "map_bit bi = push_bit (bi mod 8) 1"

text \<open>The inner loop of \<open>balloc\<close>: the first free bit from \<open>bi\<close> on.\<close>

function balloc_scan :: "bytes \<Rightarrow> nat \<Rightarrow> nat \<Rightarrow> nat \<Rightarrow> nat option" where
  "balloc_scan d sz b bi =
     (if bi < BPB \<and> b + bi < sz
      then if d (bi div 8) AND map_bit bi = 0 then Some bi else balloc_scan d sz b (Suc bi)
      else None)"
  by pat_completeness auto
termination
  by (relation "measure (\<lambda>(d, sz, b, bi). BPB - bi)") auto

declare balloc_scan.simps [simp del]

fun balloc_loop :: "nat \<Rightarrow> nat \<Rightarrow> nat \<Rightarrow> 'a kfs_scheme \<Rightarrow> (nat \<times> 'a kfs_scheme) kres" where
  "balloc_loop 0 dev b s = Inl Hangs"
| "balloc_loop (Suc k) dev b s =
     (if b < sb_size (sb s)
      then kbind (bread dev (BBLOCK b (sb s)) s) (\<lambda>(bp, s).
           let d = b_data (bufs s bp)
           in case balloc_scan d (sb_size (sb s)) b 0 of
                Some bi \<Rightarrow>
                  kbind (log_write bp (set_data bp (d(bi div 8 := d (bi div 8) OR map_bit bi)) s)) (\<lambda>s.
                  kbind (brelse bp s) (\<lambda>s.
                  kbind (bzero dev (b + bi) s) (\<lambda>s. Inr (b + bi, s))))
              | None \<Rightarrow> kbind (brelse bp s) (balloc_loop k dev (b + BPB)))
      else Inr (0, s))"

definition balloc :: "nat \<Rightarrow> 'a kfs_scheme \<Rightarrow> (nat \<times> 'a kfs_scheme) kres" where
  "balloc dev s = balloc_loop (sb_size (sb s) div BPB + 2) dev 0 s"

definition bfree :: "nat \<Rightarrow> nat \<Rightarrow> 'a kfs_scheme \<Rightarrow> 'a kfs_scheme kres" where
  "bfree dev b s =
     kbind (bread dev (BBLOCK b (sb s)) s) (\<lambda>(bp, s).
     let bi = b mod BPB; d = b_data (bufs s bp)
     in if d (bi div 8) AND map_bit bi = 0 then Inl (Panic ''freeing free block'')
        else kbind (log_write bp (set_data bp (d(bi div 8 := d (bi div 8) AND NOT (map_bit bi))) s)) (\<lambda>s.
             brelse bp s))"

section \<open>Inodes\<close>

definition iinit :: "'a kfs_scheme \<Rightarrow> 'a kfs_scheme" where
  "iinit s = s\<lparr>itable := (\<lambda>i. if i < NINODE then (itable s i)\<lparr>i_lock := initsleeplock\<rparr> else itable s i)\<rparr>"

text \<open>The inode of number \<open>inum\<close> in its block \<open>d\<close>: \<open>dip\<close> is the byte offset of the structure.\<close>

definition dip :: "nat \<Rightarrow> nat" where
  "dip inum = 64 * (inum mod IPB)"

definition get_short :: "bytes \<Rightarrow> nat \<Rightarrow> int" where
  "get_short d a = wrap16 (int (le_load d a 2))"

definition put_short :: "bytes \<Rightarrow> nat \<Rightarrow> int \<Rightarrow> bytes" where
  "put_short d a x = le_store d a 2 (nat (x mod 2 ^ 16))"

primrec put_addrs :: "bytes \<Rightarrow> nat \<Rightarrow> (nat \<Rightarrow> nat) \<Rightarrow> nat \<Rightarrow> bytes" where
  "put_addrs d a f 0 = d"
| "put_addrs d a f (Suc k) = le_store (put_addrs d a f k) (a + 4 * k) 4 (f k)"

text \<open>\<open>memset(dip, 0, sizeof *dip)\<close>.\<close>

definition zero_dinode :: "bytes \<Rightarrow> nat \<Rightarrow> bytes" where
  "zero_dinode d a = (\<lambda>i. if a \<le> i \<and> i < a + 64 then 0 else d i)"

definition put_dinode :: "bytes \<Rightarrow> nat \<Rightarrow> inode \<Rightarrow> bytes" where
  "put_dinode d a x =
     put_addrs (le_store (put_short (put_short (put_short (put_short d a (i_type x)) (a + 2) (i_major x)) (a + 4) (i_minor x))
       (a + 6) (i_nlink x)) (a + 8) 4 (i_size x)) (a + 12) (i_addrs x) (NDIRECT + 1)"

definition get_dinode :: "bytes \<Rightarrow> nat \<Rightarrow> inode \<Rightarrow> inode" where
  "get_dinode d a x =
     x\<lparr>i_type := get_short d a, i_major := get_short d (a + 2), i_minor := get_short d (a + 4),
       i_nlink := get_short d (a + 6), i_size := le_load d (a + 8) 4,
       i_addrs := (\<lambda>i. if i \<le> NDIRECT then le_load d (a + 12 + 4 * i) 4 else i_addrs x i)\<rparr>"

definition iupdate :: "nat \<Rightarrow> 'a kfs_scheme \<Rightarrow> 'a kfs_scheme kres" where
  "iupdate ip s =
     kbind (bread (i_dev (itable s ip)) (IBLOCK (i_inum (itable s ip)) (sb s)) s) (\<lambda>(bp, s).
     let x = itable s ip
     in kbind (log_write bp (set_data bp (put_dinode (b_data (bufs s bp)) (dip (i_inum x)) x) s)) (\<lambda>s.
        brelse bp s))"

text \<open>The search of \<open>iget\<close>: an entry for the inode (\<open>Inl\<close>), or the first free entry, if any.\<close>

fun iget_find :: "(nat \<Rightarrow> inode) \<Rightarrow> nat \<Rightarrow> nat \<Rightarrow> nat option \<Rightarrow> nat list \<Rightarrow> nat + nat option" where
  "iget_find T dev inum spare [] = Inr spare"
| "iget_find T dev inum spare (ip # ips) =
     (if i_ref (T ip) > 0 \<and> i_dev (T ip) = dev \<and> i_inum (T ip) = inum then Inl ip
      else iget_find T dev inum (if spare = None \<and> i_ref (T ip) = 0 then Some ip else spare) ips)"

definition iget :: "nat \<Rightarrow> nat \<Rightarrow> 'a kfs_scheme \<Rightarrow> (nat \<times> 'a kfs_scheme) kres" where
  "iget dev inum s =
     (case iget_find (itable s) dev inum None [0..<NINODE] of
        Inl ip \<Rightarrow> Inr (ip, upd_inode ip (\<lambda>x. x\<lparr>i_ref := wrap32 (i_ref x + 1)\<rparr>) s)
      | Inr None \<Rightarrow> Inl (Panic ''iget: no inodes'')
      | Inr (Some ip) \<Rightarrow>
          Inr (ip, upd_inode ip (\<lambda>x. x\<lparr>i_dev := dev, i_inum := inum, i_ref := 1, i_valid := False\<rparr>) s))"

text \<open>\<open>None\<close> is the null pointer. The loop runs \<open>k\<close> more rounds from \<open>inum\<close>.\<close>

fun ialloc_loop :: "nat \<Rightarrow> nat \<Rightarrow> nat \<Rightarrow> int \<Rightarrow> 'a kfs_scheme \<Rightarrow> (nat option \<times> 'a kfs_scheme) kres" where
  "ialloc_loop 0 inum dev type s = Inr (None, s)"
| "ialloc_loop (Suc k) inum dev type s =
     kbind (bread dev (IBLOCK inum (sb s)) s) (\<lambda>(bp, s).
     let d = b_data (bufs s bp)
     in if get_short d (dip inum) = 0
        then kbind (log_write bp (set_data bp (put_short (zero_dinode d (dip inum)) (dip inum) type) s)) (\<lambda>s.
             kbind (brelse bp s) (\<lambda>s.
             kbind (iget dev inum s) (\<lambda>(ip, s). Inr (Some ip, s))))
        else kbind (brelse bp s) (ialloc_loop k (Suc inum) dev type))"

definition ialloc :: "nat \<Rightarrow> int \<Rightarrow> 'a kfs_scheme \<Rightarrow> (nat option \<times> 'a kfs_scheme) kres" where
  "ialloc dev type s = ialloc_loop (sb_ninodes (sb s) - 1) 1 dev type s"

definition idup :: "nat \<Rightarrow> 'a kfs_scheme \<Rightarrow> nat \<times> 'a kfs_scheme" where
  "idup ip s = (ip, upd_inode ip (\<lambda>x. x\<lparr>i_ref := wrap32 (i_ref x + 1)\<rparr>) s)"

definition ilock :: "nat \<Rightarrow> 'a kfs_scheme \<Rightarrow> 'a kfs_scheme kres" where
  "ilock ip s =
     (if i_ref (itable s ip) < 1 then Inl (Panic ''ilock'')
      else kbind (acquiresleep (ChInodeLock ip) (i_lock (itable s ip)) s) (\<lambda>lk.
           let s = upd_inode ip (\<lambda>x. x\<lparr>i_lock := lk\<rparr>) s
           in if \<not> i_valid (itable s ip)
              then kbind (bread (i_dev (itable s ip)) (IBLOCK (i_inum (itable s ip)) (sb s)) s) (\<lambda>(bp, s).
                   let s = upd_inode ip (\<lambda>x. get_dinode (b_data (bufs s bp)) (dip (i_inum x)) x) s
                   in kbind (brelse bp s) (\<lambda>s.
                      let s = upd_inode ip (\<lambda>x. x\<lparr>i_valid := True\<rparr>) s
                      in if i_type (itable s ip) = 0 then Inl (Panic ''ilock: no type'') else Inr s))
              else Inr s))"

definition iunlock :: "nat \<Rightarrow> 'a kfs_scheme \<Rightarrow> 'a kfs_scheme kres" where
  "iunlock ip s =
     kbind (holdingsleep (i_lock (itable s ip)) s) (\<lambda>h.
     if \<not> h \<or> i_ref (itable s ip) < 1 then Inl (Panic ''iunlock'')
     else let (lk, s) = releasesleep (ChInodeLock ip) (i_lock (itable s ip)) s
          in Inr (upd_inode ip (\<lambda>x. x\<lparr>i_lock := lk\<rparr>) s))"

section \<open>Inode content\<close>

text \<open>Entry \<open>n\<close> of an indirect block.\<close>

definition ind_get :: "bytes \<Rightarrow> nat \<Rightarrow> nat" where
  "ind_get d n = le_load d (4 * n) 4"

definition ind_put :: "bytes \<Rightarrow> nat \<Rightarrow> nat \<Rightarrow> bytes" where
  "ind_put d n v = le_store d (4 * n) 4 v"

text \<open>\<open>addrs[k]\<close>, allocated if there is no block yet: the step both cases of \<open>bmap\<close> begin with.\<close>

definition bmap_addr :: "nat \<Rightarrow> nat \<Rightarrow> 'a kfs_scheme \<Rightarrow> (nat \<times> 'a kfs_scheme) kres" where
  "bmap_addr ip k s =
     (if i_addrs (itable s ip) k \<noteq> 0 then Inr (i_addrs (itable s ip) k, s)
      else kbind (balloc (i_dev (itable s ip)) s) (\<lambda>(addr, s).
           if addr = 0 then Inr (0, s)
           else Inr (addr, upd_inode ip (\<lambda>x. x\<lparr>i_addrs := (i_addrs x)(k := addr)\<rparr>) s)))"

definition bmap :: "nat \<Rightarrow> nat \<Rightarrow> 'a kfs_scheme \<Rightarrow> (nat \<times> 'a kfs_scheme) kres" where
  "bmap ip bn s =
     (if bn < NDIRECT then bmap_addr ip bn s
      else let bn = bn - NDIRECT
           in if bn < NINDIRECT
              then kbind (bmap_addr ip NDIRECT s) (\<lambda>(addr, s).
                   if addr = 0 then Inr (0, s)
                   else kbind (bread (i_dev (itable s ip)) addr s) (\<lambda>(bp, s).
                        let addr = ind_get (b_data (bufs s bp)) bn
                        in kbind (if addr = 0
                                  then kbind (balloc (i_dev (itable s ip)) s) (\<lambda>(addr, s).
                                       if addr \<noteq> 0
                                       then kbind (log_write bp (set_data bp (ind_put (b_data (bufs s bp)) bn addr) s)) (\<lambda>s.
                                            Inr (addr, s))
                                       else Inr (addr, s))
                                  else Inr (addr, s)) (\<lambda>(addr, s).
                           kbind (brelse bp s) (\<lambda>s. Inr (addr, s)))))
              else Inl (Panic ''bmap: out of range''))"

fun itrunc_direct :: "nat \<Rightarrow> nat list \<Rightarrow> 'a kfs_scheme \<Rightarrow> 'a kfs_scheme kres" where
  "itrunc_direct ip [] s = Inr s"
| "itrunc_direct ip (i # is) s =
     (if i_addrs (itable s ip) i \<noteq> 0
      then kbind (bfree (i_dev (itable s ip)) (i_addrs (itable s ip) i) s) (\<lambda>s.
           itrunc_direct ip is (upd_inode ip (\<lambda>x. x\<lparr>i_addrs := (i_addrs x)(i := 0)\<rparr>) s))
      else itrunc_direct ip is s)"

fun itrunc_indirect :: "nat \<Rightarrow> nat \<Rightarrow> nat list \<Rightarrow> 'a kfs_scheme \<Rightarrow> 'a kfs_scheme kres" where
  "itrunc_indirect ip bp [] s = Inr s"
| "itrunc_indirect ip bp (j # js) s =
     (let a = ind_get (b_data (bufs s bp)) j
      in if a \<noteq> 0 then kbind (bfree (i_dev (itable s ip)) a s) (itrunc_indirect ip bp js)
         else itrunc_indirect ip bp js s)"

definition itrunc :: "nat \<Rightarrow> 'a kfs_scheme \<Rightarrow> 'a kfs_scheme kres" where
  "itrunc ip s =
     kbind (itrunc_direct ip [0..<NDIRECT] s) (\<lambda>s.
     kbind (if i_addrs (itable s ip) NDIRECT \<noteq> 0
            then kbind (bread (i_dev (itable s ip)) (i_addrs (itable s ip) NDIRECT) s) (\<lambda>(bp, s).
                 kbind (itrunc_indirect ip bp [0..<NINDIRECT] s) (\<lambda>s.
                 kbind (brelse bp s) (\<lambda>s.
                 kbind (bfree (i_dev (itable s ip)) (i_addrs (itable s ip) NDIRECT) s) (\<lambda>s.
                 Inr (upd_inode ip (\<lambda>x. x\<lparr>i_addrs := (i_addrs x)(NDIRECT := 0)\<rparr>) s)))))
            else Inr s) (\<lambda>s.
     iupdate ip (upd_inode ip (\<lambda>x. x\<lparr>i_size := 0\<rparr>) s)))"

definition iput :: "nat \<Rightarrow> 'a kfs_scheme \<Rightarrow> 'a kfs_scheme kres" where
  "iput ip s =
     kbind (if i_ref (itable s ip) = 1 \<and> i_valid (itable s ip) \<and> i_nlink (itable s ip) = 0
            then kbind (acquiresleep (ChInodeLock ip) (i_lock (itable s ip)) s) (\<lambda>lk.
                 kbind (itrunc ip (upd_inode ip (\<lambda>x. x\<lparr>i_lock := lk\<rparr>) s)) (\<lambda>s.
                 kbind (iupdate ip (upd_inode ip (\<lambda>x. x\<lparr>i_type := 0\<rparr>) s)) (\<lambda>s.
                 let s = upd_inode ip (\<lambda>x. x\<lparr>i_valid := False\<rparr>) s;
                     (lk, s) = releasesleep (ChInodeLock ip) (i_lock (itable s ip)) s
                 in Inr (upd_inode ip (\<lambda>x. x\<lparr>i_lock := lk\<rparr>) s))))
            else Inr s) (\<lambda>s.
     Inr (upd_inode ip (\<lambda>x. x\<lparr>i_ref := wrap32 (i_ref x - 1)\<rparr>) s))"

definition iunlockput :: "nat \<Rightarrow> 'a kfs_scheme \<Rightarrow> 'a kfs_scheme kres" where
  "iunlockput ip s = kbind (iunlock ip s) (iput ip)"

fun ireclaim_loop :: "nat \<Rightarrow> nat \<Rightarrow> nat \<Rightarrow> 'a kfs_scheme \<Rightarrow> 'a kfs_scheme kres" where
  "ireclaim_loop 0 inum dev s = Inr s"
| "ireclaim_loop (Suc k) inum dev s =
     kbind (bread dev (IBLOCK inum (sb s)) s) (\<lambda>(bp, s).
     let d = b_data (bufs s bp)
     in kbind (if get_short d (dip inum) \<noteq> 0 \<and> get_short d (dip inum + 6) = 0
               then kbind (iget dev inum s) (\<lambda>(ip, s). Inr (Some ip, s))
               else Inr (None, s)) (\<lambda>(ip, s).
        kbind (brelse bp s) (\<lambda>s.
        kbind (case ip of
                 None \<Rightarrow> Inr s
               | Some ip \<Rightarrow>
                   kbind (begin_op s) (\<lambda>s.
                   kbind (ilock ip s) (\<lambda>s.
                   kbind (iunlock ip s) (\<lambda>s.
                   kbind (iput ip s) (\<lambda>s.
                   end_op s))))) (ireclaim_loop k (Suc inum) dev))))"

definition ireclaim :: "nat \<Rightarrow> 'a kfs_scheme \<Rightarrow> 'a kfs_scheme kres" where
  "ireclaim dev s = ireclaim_loop (sb_ninodes (sb s) - 1) 1 dev s"

definition fsinit :: "nat \<Rightarrow> 'a kfs_scheme \<Rightarrow> 'a kfs_scheme kres" where
  "fsinit dev s =
     kbind (readsb dev s) (\<lambda>s.
     if sb_magic (sb s) \<noteq> FSMAGIC then Inl (Panic ''invalid file system'')
     else kbind (initlog dev (sb_logstart (sb s)) s) (\<lambda>s.
          ireclaim dev s))"

record stat =
  st_dev :: nat
  st_ino :: nat
  st_type :: int
  st_nlink :: int
  st_size :: nat

definition stati :: "nat \<Rightarrow> 'a kfs_scheme \<Rightarrow> stat" where
  "stati ip s =
     (let x = itable s ip
      in \<lparr>st_dev = i_dev x, st_ino = i_inum x, st_type = i_type x, st_nlink = i_nlink x, st_size = i_size x\<rparr>)"

end
