(* ===== verification/Fs_Blocks.thy ===== *)
theory Fs_Blocks
  imports Fs
begin

text \<open>
  The block layer of the file system on the contents that the log and the cache present
  (\<open>view\<close>): reading a block, updating one inside a transaction, and the block allocator as
  operations on the free map.
\<close>

section \<open>Reading and updating blocks in a transaction\<close>

text \<open>A transaction that holds the buffers \<open>H\<close> and may log \<open>k\<close> more blocks.\<close>

definition fs_tx :: "'a klog_scheme \<Rightarrow> nat set \<Rightarrow> nat set \<Rightarrow> nat \<Rightarrow> bool" where
  "fs_tx s H P k \<longleftrightarrow> tx_inv s H P \<and> 1 \<le> log_outstanding s \<and> card H + nat (lh_n s) + k < NBUF"

text \<open>The block numbers that the file system may write to: outside the log, and 32 bits wide.\<close>

definition home_block :: "'a klog_scheme \<Rightarrow> nat \<Rightarrow> bool" where
  "home_block s n \<longleftrightarrow> n \<notin> log_area (log_start s) \<and> n < 2 ^ 32"

lemma fs_tx_D:
  assumes "fs_tx s H P k"
  shows "tx_inv s H P" "bcache_inv s H P" "1 \<le> log_outstanding s" "lh_n s < int LOGBLOCKS" "room s H P n"
    "\<exists>i. curpid s = Some i" "finite H"
proof -
  show i: "tx_inv s H P" and "bcache_inv s H P" "1 \<le> log_outstanding s" "\<exists>i. curpid s = Some i"
    using assms by (auto simp: fs_tx_def tx_inv_def)
  have "nat (lh_n s) < LOGBLOCKS" using assms by (simp add: fs_tx_def)
  then show "lh_n s < int LOGBLOCKS" by simp
  have "H \<subseteq> {..<NBUF}" using assms unfolding fs_tx_def tx_inv_def bcache_inv_def by blast
  then show "finite H" using finite_subset by blast
  have "card (H \<union> P) \<le> card H + card P" by (rule card_Un_le)
  also have "\<dots> < NBUF" using assms card_pinned [OF i] by (simp add: fs_tx_def)
  finally show "room s H P n" by (simp add: room_def)
qed

lemma fs_tx_le: "fs_tx s H P k \<Longrightarrow> j \<le> k \<Longrightarrow> fs_tx s H P j"
  by (simp add: fs_tx_def)

lemma log_frame_eq:
  "log_frame s t \<Longrightarrow> t = s\<lparr>lh_n := lh_n t, lh_block := lh_block t, bufs := bufs t, disk := disk t, dtrace := dtrace t, procs := procs t\<rparr>"
  by (simp add: log_frame_def io_frame_def)

lemma log_frame_refl [simp]: "log_frame s s"
  by (simp add: log_frame_io)

lemma log_frame_fs:
  fixes s t :: "'a kfs_scheme"
  assumes "log_frame s t"
  shows "sb t = sb s" "itable t = itable s"
  using arg_cong [OF log_frame_eq [OF assms], of sb] arg_cong [OF log_frame_eq [OF assms], of itable] by simp_all

text \<open>\<open>bread\<close> and, with nothing changed, \<open>brelse\<close>.\<close>

lemma fs_read:
  fixes s :: "'a klog_scheme"
  assumes f: "fs_tx s H P k" and n: "n \<notin> blocks_of s H"
  obtains b t u where "bread ROOTDEV n s = Inr (b, t)" "b_data (bufs t b) = view s n" "brelse b t = Inr u"
    "fs_tx u H P k" "view u = view s" "log_frame s t" "log_frame s u" "disk u = disk s"
    "\<forall>c. c \<in> H \<longrightarrow> b_blockno (bufs u c) = b_blockno (bufs s c)"
proof -
  note F = fs_tx_D [OF f]
  obtain i where i: "curpid s = Some i" using F(6) by blast
  obtain b t where b: "bread ROOTDEV n s = Inr (b, t)" "b < NBUF" "b \<notin> H" "bcache_inv t (insert b H) P"
    "b_blockno (bufs t b) = n" "b_data (bufs t b) = view s n" "view t = view s" "t = s\<lparr>bufs := bufs t\<rparr>"
    "\<forall>c. c \<noteq> b \<longrightarrow> bufs t c = bufs s c" "blocks_of t P = blocks_of s P" "io_frame s t" "curpid t = Some i"
    "disk t = disk s" "dtrace t = dtrace s"
    by (rule breadE [OF F(2) i n F(5)])
  have "b \<in> P \<or> b_data (bufs t b) = disk t n"
  proof (cases "b \<in> P")
    case False
    have "n \<notin> blocks_of s P"
    proof
      assume "n \<in> blocks_of s P"
      then obtain c where "c \<in> P" "b_blockno (bufs t c) = n" using b(10) unfolding blocks_of_def by force
      then show False using bcache_inv_blockno_inj [OF b(4), of b c] b(5) False by auto
    qed
    then show ?thesis using view_disk [OF F(2)] n b(6,13) by auto
  qed simp
  then obtain u where u: "brelse b t = Inr u" "bcache_inv u (insert b H - {b}) P" "view u = view t" "io_frame t u"
    "disk u = disk t" "dtrace u = dtrace t" "\<forall>c. b_blockno (bufs u c) = b_blockno (bufs t c)"
    "\<forall>c. b_data (bufs u c) = b_data (bufs t c)"
    using brelseE [OF b(4), of b] b(5) by (metis insertI1)
  have H: "insert b H - {b} = H" using b(3) by auto
  have bn: "\<forall>c. c \<in> H \<longrightarrow> b_blockno (bufs u c) = b_blockno (bufs s c)" using u(7) b(3,9) by auto
  have fr: "io_frame s u" using io_frame_trans [OF b(11) u(4)] .
  have "blocks_of u P = blocks_of s P" using u(7) b(10) by (simp add: blocks_of_def)
  moreover have "log_start s \<notin> blocks_of u H"
    using F(1) bn unfolding tx_inv_def blocks_of_def by auto
  ultimately have "tx_inv u H P" using tx_inv_same_lh [OF F(1), of u H] u(2,5) b(13) fr H by simp
  then have "fs_tx u H P k" using f io_frame_log [OF fr] by (simp add: fs_tx_def)
  moreover have "view u = view s" "disk u = disk s" using u(3,5) b(7,13) by simp_all
  ultimately show thesis
    using that [OF b(1,6) u(1) _ _ log_frame_io [OF b(11)] log_frame_io [OF fr]] bn by blast
qed

text \<open>An update leaves the block numbers of the buffers held meanwhile alone.\<close>

lemma log_write_blockno: "log_write b s = Inr t \<Longrightarrow> b_blockno (bufs t c) = b_blockno (bufs s c)"
  by (auto simp: log_write_def Let_def bpin_def upd_buf_def split: if_splits)

lemma list_blockno [simp]:
  "b_blockno (list_push b B c) = b_blockno (B c)" "b_blockno (list_unlink b B c) = b_blockno (B c)"
  by (simp_all add: list_push_def list_unlink_def Let_def)

lemma brelse_blockno: "brelse b s = Inr t \<Longrightarrow> b_blockno (bufs t c) = b_blockno (bufs s c)"
  by (auto simp: brelse_def Let_def releasesleep_def wakeup_def upd_buf_def kbind_eq_Inr split: if_splits)

lemma logged_update_blockno:
  assumes f: "fs_tx s H P k" and n: "n \<notin> blocks_of s H" and t: "logged_update n g s = Inr t" and c: "c \<in> H"
  shows "b_blockno (bufs t c) = b_blockno (bufs s c)"
proof -
  note F = fs_tx_D [OF f]
  obtain i where i: "curpid s = Some i" using F(6) by blast
  obtain b u where b: "bread ROOTDEV n s = Inr (b, u)" "b \<notin> H" "\<forall>c. c \<noteq> b \<longrightarrow> bufs u c = bufs s c"
    by (rule breadE [OF F(2) i n F(5)]) blast
  obtain v where v: "log_write b (set_data b (g (b_data (bufs u b))) u) = Inr v" "brelse b v = Inr t"
    using t b(1) by (auto simp: logged_update_def kbind_eq_Inr)
  have "b_blockno (bufs t c) = b_blockno (bufs (set_data b (g (b_data (bufs u b))) u) c)"
    using brelse_blockno [OF v(2)] log_write_blockno [OF v(1)] by simp
  also have "\<dots> = b_blockno (bufs s c)" using b(2,3) c by (auto simp: set_data_bufs)
  finally show ?thesis .
qed

lemma fs_update:
  fixes s :: "'a klog_scheme"
  assumes f: "fs_tx s H P (Suc k)" and n: "n \<notin> blocks_of s H" "home_block s n"
  obtains t Q where "logged_update n g s = Inr t" "fs_tx t H Q k" "view t = (view s)(n := g (view s n))"
    "log_frame s t" "\<forall>c. c \<in> H \<longrightarrow> b_blockno (bufs t c) = b_blockno (bufs s c)" "disk t = disk s"
proof -
  note F = fs_tx_D [OF f]
  have "must (logged_update n g s) (\<lambda>t. \<exists>Q. tx_inv t H Q \<and> view t = (view s)(n := g (view s n)) \<and>
    blocks_of t Q = insert n (blocks_of s P) \<and> log_frame s t \<and> disk t = disk s \<and> dtrace t = dtrace s \<and>
    lh_n t = lh_n s + (if n \<in> blocks_of s P then 0 else 1))"
    using n by (intro logged_update_ok [OF F(1)] F) (simp_all add: home_block_def)
  then obtain t Q where t: "logged_update n g s = Inr t" "tx_inv t H Q" "view t = (view s)(n := g (view s n))"
    "log_frame s t" "disk t = disk s" "lh_n t = lh_n s + (if n \<in> blocks_of s P then 0 else 1)"
    by (auto simp: must_iff)
  have "nat (lh_n t) \<le> nat (lh_n s) + 1" using t(6) by auto
  then have "fs_tx t H Q k" using f t(2) log_frame_fields [OF t(4)] by (auto simp: fs_tx_def)
  then show thesis using that t logged_update_blockno [OF f n(1) t(1)] by blast
qed

text \<open>Holding a buffer across other operations, and logging it at the end.\<close>

lemma fs_hold:
  fixes s :: "'a klog_scheme"
  assumes f: "fs_tx s {} P (Suc k)" and n: "n \<noteq> log_start s"
  obtains b t where "bread ROOTDEV n s = Inr (b, t)" "b_blockno (bufs t b) = n" "b_data (bufs t b) = view s n"
    "fs_tx t {b} P k" "view t = view s" "log_frame s t"
proof -
  note F = fs_tx_D [OF f]
  obtain i where i: "curpid s = Some i" using F(6) by blast
  have nH: "n \<notin> blocks_of s {}" by (simp add: blocks_of_def)
  obtain b t where b: "bread ROOTDEV n s = Inr (b, t)" "b < NBUF" "b \<notin> {}" "bcache_inv t (insert b {}) P"
    "b_blockno (bufs t b) = n" "b_data (bufs t b) = view s n" "view t = view s" "t = s\<lparr>bufs := bufs t\<rparr>"
    "\<forall>c. c \<noteq> b \<longrightarrow> bufs t c = bufs s c" "blocks_of t P = blocks_of s P" "io_frame s t" "curpid t = Some i"
    "disk t = disk s" "dtrace t = dtrace s"
    by (rule breadE [OF F(2) i nH F(5)])
  have "tx_inv t {b} P" using n b by (intro tx_inv_same_lh [OF F(1)]) (auto simp: blocks_of_def)
  then have "fs_tx t {b} P k" using f io_frame_log [OF b(11)] by (simp add: fs_tx_def)
  then show thesis using that b(1,5,6,7) log_frame_io [OF b(11)] by blast
qed

lemma fs_log_held:
  fixes s :: "'a klog_scheme"
  assumes f: "fs_tx s {b} P k" and h: "home_block s (b_blockno (bufs s b))"
  obtains t u Q where "log_write b (set_data b d s) = Inr t" "brelse b t = Inr u" "fs_tx u {} Q k"
    "view u = (view s)(b_blockno (bufs s b) := d)" "log_frame s t" "log_frame s u"
proof -
  note F = fs_tx_D [OF f]
  let ?n = "b_blockno (bufs s b)" and ?s = "set_data b d s"
  have i: "bcache_inv ?s {b} P" by (rule set_data_inv [OF F(2)]) simp
  have bn: "b_blockno (bufs ?s c) = b_blockno (bufs s c)" for c by (simp add: set_data_bufs)
  have fs: "io_frame s ?s" by (rule io_frame_set_data)
  have tx: "tx_inv ?s {b} P"
    using F(1) i fs bn by (intro tx_inv_same_lh [OF F(1)]) (simp_all add: blocks_of_def tx_inv_def)
  have v: "view ?s = (view s)(?n := d)" by (rule ext) (simp add: view_set_data [OF F(2)])
  have "must (log_write b ?s) (\<lambda>t. tx_inv t {b} (insert b P) \<and> view t = view ?s \<and> disk t = disk ?s \<and> dtrace t = dtrace ?s \<and>
    lh_n t = lh_n ?s + (if b \<in> P then 0 else 1) \<and> log_outstanding t = log_outstanding ?s \<and> log_start t = log_start ?s \<and>
    (\<forall>c. b_blockno (bufs t c) = b_blockno (bufs ?s c) \<and> b_data (bufs t c) = b_data (bufs ?s c)))"
    using h io_frame_log [OF fs] F(3,4) by (intro log_write_ok [OF tx]) (simp_all add: bn home_block_def)
  then obtain t where t: "log_write b ?s = Inr t" "tx_inv t {b} (insert b P)" "view t = view ?s"
    "lh_n t = lh_n ?s + (if b \<in> P then 0 else 1)"
    by (auto simp: must_iff)
  have it: "bcache_inv t {b} (insert b P)" using t(2) by (simp add: tx_inv_def)
  obtain u where u: "brelse b t = Inr u" "bcache_inv u ({b} - {b}) (insert b P)" "view u = view t" "io_frame t u" "disk u = disk t"
    "dtrace u = dtrace t" "\<forall>c. b_blockno (bufs u c) = b_blockno (bufs t c)" "\<forall>c. b_data (bufs u c) = b_data (bufs t c)"
    by (rule brelseE [OF it, of b]) simp_all
  have "tx_inv u {} (insert b P)" using u by (intro tx_inv_same_lh [OF t(2)]) (auto simp: blocks_of_def)
  moreover have lt: "log_frame s t" using log_frame_trans [OF log_frame_io [OF fs] log_write_frame [OF t(1)]] .
  moreover have lu: "log_frame s u" using log_frame_trans [OF lt log_frame_io [OF u(4)]] .
  moreover have "nat (lh_n u) \<le> nat (lh_n s) + 1" using t(4) io_frame_log(5) [OF u(4)] io_frame_log(5) [OF fs] by auto
  ultimately have "fs_tx u {} (insert b P) k" using f log_frame_fields(3) [OF lu] by (simp add: fs_tx_def)
  then show thesis using that t(1,3) u(1,3) v lt lu by simp
qed

lemma blocks_of_cong: "\<forall>c. c \<in> H \<longrightarrow> b_blockno (bufs t c) = b_blockno (bufs s c) \<Longrightarrow> blocks_of t H = blocks_of s H"
  by (auto simp: blocks_of_def)

text \<open>The tail of an update, as the code has it after \<open>bread\<close>.\<close>

lemma update_after_read:
  "bread ROOTDEV n s = Inr (b, t) \<Longrightarrow>
   kbind (log_write b (set_data b (g (b_data (bufs t b))) t)) (\<lambda>s. kbind (brelse b s) F) = kbind (logged_update n g s) F"
  "bread ROOTDEV n s = Inr (b, t) \<Longrightarrow>
   kbind (log_write b (set_data b (g (b_data (bufs t b))) t)) (brelse b) = logged_update n g s"
  by (simp_all add: logged_update_def kbind_assoc)

lemma bzero_eq: "bzero ROOTDEV n s = logged_update n (\<lambda>_ _. 0) s"
  by (simp add: bzero_def logged_update_def)

section \<open>The free map\<close>

text \<open>The layout \<open>mkfs\<close> gives a disk: the log, the inodes, the free map and the data follow one
  another.\<close>

definition fs_layout :: "superblock \<Rightarrow> nat \<Rightarrow> bool" where
  "fs_layout S st \<longleftrightarrow> st + LOGBLOCKS < sb_inodestart S \<and> sb_inodestart S + sb_ninodes S div IPB < sb_bmapstart S \<and>
     sb_bmapstart S + sb_size S div BPB < sb_size S \<and> sb_size S < 2 ^ 31"

definition data_start :: "superblock \<Rightarrow> nat" where
  "data_start S = sb_bmapstart S + sb_size S div BPB + 1"

text \<open>The bit of block \<open>b\<close> in the contents \<open>V\<close> of the disk.\<close>

definition blk_used :: "superblock \<Rightarrow> (nat \<Rightarrow> bytes) \<Rightarrow> nat \<Rightarrow> bool" where
  "blk_used S V b \<longleftrightarrow> bit (V (sb_bmapstart S + b div BPB) (b mod BPB div 8)) (b mod 8)"

definition free_blocks :: "superblock \<Rightarrow> (nat \<Rightarrow> bytes) \<Rightarrow> nat set" where
  "free_blocks S V = {b. b < sb_size S \<and> \<not> blk_used S V b}"

text \<open>The blocks before the data area are never free.\<close>

definition meta_used :: "superblock \<Rightarrow> (nat \<Rightarrow> bytes) \<Rightarrow> bool" where
  "meta_used S V \<longleftrightarrow> (\<forall>b. b \<in> free_blocks S V \<longrightarrow> data_start S \<le> b)"

lemma map_bit_exp: "map_bit i = 2 ^ (i mod 8)"
  by (simp add: map_bit_def push_bit_eq_mult)

lemma map_bit_test: "x AND map_bit i \<noteq> 0 \<longleftrightarrow> bit x (i mod 8)"
  by (simp add: map_bit_exp and_exp_eq_0_iff_not_bit)

lemma bit_or_map_bit: "j < 8 \<Longrightarrow> bit (x OR map_bit i) j \<longleftrightarrow> bit x j \<or> j = i mod 8"
  by (auto simp: map_bit_exp bit_or_iff bit_exp_iff)

lemma bit_and_not_map_bit: "j < 8 \<Longrightarrow> bit (x AND NOT (map_bit i)) j \<longleftrightarrow> bit x j \<and> j \<noteq> i mod 8"
  by (auto simp: map_bit_exp bit_and_iff bit_not_iff bit_exp_iff)

lemma BBLOCK_eq:
  assumes "fs_layout S st" and "b < sb_size S"
  shows "BBLOCK b S = sb_bmapstart S + b div BPB" "st + LOGBLOCKS < BBLOCK b S" "BBLOCK b S < data_start S" "BBLOCK b S < 2 ^ 32"
proof -
  have "b div BPB \<le> sb_size S div BPB" using assms(2) by (simp add: div_le_mono)
  then have "sb_bmapstart S + b div BPB < 2 ^ 32" using assms(1) by (simp add: fs_layout_def)
  then show e: "BBLOCK b S = sb_bmapstart S + b div BPB" by (simp add: BBLOCK_def add.commute)
  then show "st + LOGBLOCKS < BBLOCK b S" "BBLOCK b S < data_start S" "BBLOCK b S < 2 ^ 32"
    using assms(1) \<open>b div BPB \<le> _\<close> \<open>_ < 2 ^ 32\<close> by (simp_all add: fs_layout_def data_start_def)
qed

text \<open>Setting and clearing the bit of one block.\<close>

definition mark :: "bool \<Rightarrow> nat \<Rightarrow> bytes \<Rightarrow> bytes" where
  "mark on b d = (let i = b mod BPB in
     d(i div 8 := (if on then d (i div 8) OR map_bit i else d (i div 8) AND NOT (map_bit i))))"

lemma blk_used_mark:
  "blk_used S (V(sb_bmapstart S + b div BPB := mark on b (V (sb_bmapstart S + b div BPB)))) c =
   (if c = b then on else blk_used S V c)"
proof -
  have m: "c mod 8 < 8" "c mod BPB mod 8 = c mod 8" "b mod BPB mod 8 = b mod 8" by (simp_all add: mod_mod_cancel)
  have "c = b" if "c div BPB = b div BPB" "c mod BPB div 8 = b mod BPB div 8" "c mod 8 = b mod 8"
  proof -
    have "c mod BPB = b mod BPB" using that(2,3) m(2,3) by (metis div_mult_mod_eq)
    then show ?thesis using that(1) by (metis div_mult_mod_eq)
  qed
  then show ?thesis
    using m by (cases on) (auto simp: blk_used_def mark_def Let_def bit_or_map_bit bit_and_not_map_bit)
qed

section \<open>Allocation\<close>

lemma balloc_scan_ok:
  shows "balloc_scan d sz b bi = Some i \<Longrightarrow> bi \<le> i \<and> i < BPB \<and> b + i < sz \<and> \<not> bit (d (i div 8)) (i mod 8) \<and>
      (\<forall>j. bi \<le> j \<and> j < i \<longrightarrow> bit (d (j div 8)) (j mod 8))"
    and "balloc_scan d sz b bi = None \<Longrightarrow> bi \<le> j \<Longrightarrow> j < BPB \<Longrightarrow> b + j < sz \<Longrightarrow> bit (d (j div 8)) (j mod 8)"
proof (induction d sz b bi rule: balloc_scan.induct)
  case (1 d sz b bi)
  let ?go = "bi < BPB \<and> b + bi < sz" and ?set = "bit (d (bi div 8)) (bi mod 8)"
  have step: "balloc_scan d sz b bi = (if ?go then if ?set then balloc_scan d sz b (Suc bi) else Some bi else None)"
    by (subst balloc_scan.simps) (simp add: map_bit_test [symmetric])
  have c: "?go" "d (bi div 8) AND map_bit bi \<noteq> 0" if "?go" "?set" using that by (simp_all add: map_bit_test)
  { case 1
    show ?case
    proof (cases "?go \<and> ?set")
      case True
      then have "balloc_scan d sz b (Suc bi) = Some i" using 1 step by simp
      note ih = "1.IH"(1) [OF c this]
      have "bit (d (j div 8)) (j mod 8)" if "bi \<le> j" "j < i" for j
        using ih True that by (cases "j = bi") auto
      then show ?thesis using ih True by auto
    next
      case False
      then show ?thesis using 1 step by (auto split: if_splits)
    qed }
  { case 2
    show ?case
    proof (cases "bi = j")
      case True
      then show ?thesis using 2 step by (auto split: if_splits)
    next
      case False
      then have "?go" using 2 by auto
      then have s: "?set" "balloc_scan d sz b (Suc bi) = None" using 2(1) step by (auto split: if_splits)
      show ?thesis using "1.IH"(2) [OF c [OF \<open>?go\<close> s(1)] s(2)] 2 False by simp
    qed }
qed

text \<open>The bits of one block of the free map, read as block numbers.\<close>

lemma scan_used:
  assumes "BPB dvd b" and "i < BPB" and "V (sb_bmapstart S + b div BPB) = d"
  shows "blk_used S V (b + i) = bit (d (i div 8)) (i mod 8)"
proof -
  obtain q where q: "b = BPB * q" using assms(1) by (auto simp: dvd_def)
  then have "b mod 8 = 0" by simp
  then have "(b + i) mod 8 = i mod 8" by presburger
  moreover have "(b + i) div BPB = b div BPB" "(b + i) mod BPB = i" using q assms(2) by simp_all
  ultimately show ?thesis using assms(3) by (simp add: blk_used_def)
qed

definition alloc_post :: "superblock \<Rightarrow> (nat \<Rightarrow> bytes) \<Rightarrow> nat \<Rightarrow> (nat \<Rightarrow> bytes) \<Rightarrow> bool" where
  "alloc_post S V r W \<longleftrightarrow> (if free_blocks S V = {} then r = 0 \<and> W = V
     else r = Min (free_blocks S V) \<and>
       W = V(sb_bmapstart S + r div BPB := mark True r (V (sb_bmapstart S + r div BPB)), r := (\<lambda>_. 0)))"

lemma finite_free_blocks [simp]: "finite (free_blocks S V)"
  by (simp add: free_blocks_def)

text \<open>The blocks of the buffers held meanwhile are data blocks in use.\<close>

definition held_ok :: "'a kfs_scheme \<Rightarrow> nat set \<Rightarrow> bool" where
  "held_ok s H \<longleftrightarrow> (\<forall>c. c \<in> H \<longrightarrow> data_start (sb s) \<le> b_blockno (bufs s c) \<and> b_blockno (bufs s c) < sb_size (sb s) \<and>
     blk_used (sb s) (view s) (b_blockno (bufs s c)))"

lemma balloc_hit:
  fixes s :: "'a kfs_scheme"
  assumes tx: "fs_tx s H P (Suc (Suc m))" and lay: "fs_layout (sb s) (log_start s)" and meta: "meta_used (sb s) (view s)" and held: "held_ok s H"
    and dv: "BPB dvd b" and low: "\<forall>j<b. j \<notin> free_blocks (sb s) (view s)" and True: "b < sb_size (sb s)"
    and Some: "balloc_scan (view s (sb_bmapstart (sb s) + b div BPB)) (sb_size (sb s)) b 0 = Some i"
    and r: "bread ROOTDEV (sb_bmapstart (sb s) + b div BPB) s = Inr (p, t)"
    and d: "b_data (bufs t p) = view s (sb_bmapstart (sb s) + b div BPB)" and ft: "sb t = sb s"
  shows "\<exists>r t Q. balloc_loop (Suc k) ROOTDEV b s = Inr (r, t) \<and> fs_tx t H Q m \<and> log_frame s t \<and>
    alloc_post (sb s) (view s) r (view t) \<and> (\<forall>c. c \<in> H \<longrightarrow> b_blockno (bufs t c) = b_blockno (bufs s c))"
proof -
  let ?S = "sb s" and ?V = "view s" and ?n = "sb_bmapstart (sb s) + b div BPB"
  note B = BBLOCK_eq [OF lay True] and sc = balloc_scan_ok(1) [OF Some]
  have nH: "?n \<notin> blocks_of s H" using held B(1,3) by (force simp: blocks_of_def held_ok_def)
  let ?r = "b + i"
  have i: "i < BPB" "?r < sb_size ?S" using sc by simp_all
  have rd: "?r div BPB = b div BPB" "?r mod BPB = i" using dv i(1) by (auto simp: dvd_def)
  have free: "?r \<in> free_blocks ?S ?V"
    using sc scan_used [OF dv i(1) refl, where V = ?V and S = ?S] by (simp add: free_blocks_def)
  have mn: "?r = Min (free_blocks ?S ?V)"
  proof (rule Min_eqI [symmetric])
    fix y assume y: "y \<in> free_blocks ?S ?V"
    show "?r \<le> y"
    proof (rule ccontr)
      assume ry: "\<not> ?r \<le> y"
      define j where "j = y - b"
      have "\<not> y < b" using y low by blast
      then have j: "y = b + j" "j < i" using ry by (auto simp: j_def)
      then have "blk_used ?S ?V y" using sc i(1) scan_used [OF dv _ refl, where i = j and V = ?V and S = ?S] by simp
      then show False using y by (simp add: free_blocks_def)
    qed
  qed (use free in simp_all)
  have rm: "data_start ?S \<le> ?r" using meta free by (simp add: meta_used_def)
  have home: "home_block s ?n" "home_block s ?r"
    using B lay i(2) rm by (auto simp: home_block_def log_area_def fs_layout_def data_start_def)
  obtain v Q where v: "logged_update ?n (mark True ?r) s = Inr v" "fs_tx v H Q (Suc m)" "view v = ?V(?n := mark True ?r (?V ?n))"
    "log_frame s v" "\<forall>c. c \<in> H \<longrightarrow> b_blockno (bufs v c) = b_blockno (bufs s c)" "disk v = disk s"
    by (rule fs_update [OF _ nH home(1), of P "Suc m"]) (use tx in simp_all)
  have "?r \<notin> blocks_of s H" using held free by (auto simp: blocks_of_def free_blocks_def held_ok_def)
  then have rH: "?r \<notin> blocks_of v H" "home_block v ?r"
    using blocks_of_cong [OF v(5)] home(2) log_frame_fields(1) [OF v(4)] by (simp_all add: home_block_def)
  obtain w R where w: "logged_update ?r (\<lambda>_ _. 0) v = Inr w" "fs_tx w H R m" "view w = (view v)(?r := (\<lambda>_. 0))"
    "log_frame v w" "\<forall>c. c \<in> H \<longrightarrow> b_blockno (bufs w c) = b_blockno (bufs v c)" "disk w = disk v"
    by (rule fs_update [OF _ rH, of Q m]) (use v(2) in simp_all)
  have mk: "mark True ?r d = d(i div 8 := d (i div 8) OR map_bit i)" for d by (simp add: mark_def rd)
  have "balloc_loop (Suc k) ROOTDEV b s = Inr (?r, w)"
    using True Some B(1) ft r d w(1) v(1)
    by (simp add: Let_def bzero_eq [unfolded One_nat_def] mk [symmetric]
        update_after_read(1) [OF r, of "mark True ?r", unfolded d])
  moreover have "alloc_post ?S ?V ?r (view w)" using free mn v(3) w(3) rd(1) by (auto simp: alloc_post_def)
  ultimately show ?thesis using w(2,5) v(5) log_frame_trans [OF v(4) w(4)] by auto
qed

lemma balloc_loop_ok:
  fixes s :: "'a kfs_scheme"
  assumes "fs_tx s H P (Suc (Suc m))" and "fs_layout (sb s) (log_start s)" and "meta_used (sb s) (view s)"
    and "held_ok s H"
    and "BPB dvd b" and "\<forall>j<b. j \<notin> free_blocks (sb s) (view s)" and "b < sb_size (sb s) + BPB" and "sb_size (sb s) + BPB \<le> b + k * BPB"
  shows "\<exists>r t Q. balloc_loop k ROOTDEV b s = Inr (r, t) \<and> fs_tx t H Q m \<and> log_frame s t \<and>
    alloc_post (sb s) (view s) r (view t) \<and> (\<forall>c. c \<in> H \<longrightarrow> b_blockno (bufs t c) = b_blockno (bufs s c))"
  using assms
proof (induction k arbitrary: b s)
  case 0
  then show ?case by simp
next
  case (Suc k)
  note tx = Suc.prems(1) and lay = Suc.prems(2) and meta = Suc.prems(3) and held = Suc.prems(4)
  let ?S = "sb s" and ?V = "view s"
  show ?case
  proof (cases "b < sb_size ?S")
    case False
    then have "free_blocks ?S ?V = {}" using Suc.prems(6) by (auto simp: free_blocks_def)
    then show ?thesis using False fs_tx_le [OF tx, of m] log_frame_io [OF io_frame_refl, of s] by (auto simp: alloc_post_def)
  next
    case True
    let ?n = "sb_bmapstart ?S + b div BPB"
    note B = BBLOCK_eq [OF lay True]
    have nH: "?n \<notin> blocks_of s H" using held B(1,3) by (force simp: blocks_of_def held_ok_def)
    obtain p t u where r: "bread ROOTDEV ?n s = Inr (p, t)" "b_data (bufs t p) = ?V ?n" "brelse p t = Inr u" "fs_tx u H P (Suc (Suc m))"
      "view u = ?V" "log_frame s t" "log_frame s u" "disk u = disk s" "\<forall>c. c \<in> H \<longrightarrow> b_blockno (bufs u c) = b_blockno (bufs s c)"
      by (rule fs_read [OF tx nH])
    note ft = log_frame_fs [OF r(6)] and fu = log_frame_fs [OF r(7)]
    show ?thesis
    proof (cases "balloc_scan (?V ?n) (sb_size ?S) b 0")
      case None
      have "j \<notin> free_blocks ?S ?V" if "j < b + BPB" for j
      proof (cases "j < b")
        case False
        define i where "i = j - b"
        have i: "j = b + i" "i < BPB" using that False by (auto simp: i_def)
        show ?thesis
          using balloc_scan_ok(2) [OF None _ i(2)] scan_used [OF Suc.prems(5) i(2) refl, where V = ?V and S = ?S] by (auto simp: free_blocks_def i(1))
      qed (use Suc.prems(6) in auto)
      moreover have "BPB dvd b + BPB" using Suc.prems(5) by simp
      ultimately have "\<exists>r v Q. balloc_loop k ROOTDEV (b + BPB) u = Inr (r, v) \<and> fs_tx v H Q m \<and> log_frame u v \<and>
        alloc_post (sb u) (view u) r (view v) \<and> (\<forall>c. c \<in> H \<longrightarrow> b_blockno (bufs v c) = b_blockno (bufs u c))"
        using Suc.prems True r(4,5,9) fu log_frame_fields(1) [OF r(7)] by (intro Suc.IH) (simp_all add: held_ok_def)
      then show ?thesis
        using True None r(1,2,3,5,9) B(1) ft fu log_frame_trans [OF r(7)] by fastforce
    next
      case (Some i)
      show ?thesis
        by (rule balloc_hit [OF tx lay meta held Suc.prems(5,6) True Some r(1,2) ft(1)])
    qed
  qed
qed

lemma balloc_ok:
  fixes s :: "'a kfs_scheme"
  assumes "fs_tx s H P (Suc (Suc m))" and "fs_layout (sb s) (log_start s)" and "meta_used (sb s) (view s)" and "held_ok s H"
  obtains r t Q where "balloc ROOTDEV s = Inr (r, t)" "fs_tx t H Q m" "log_frame s t" "alloc_post (sb s) (view s) r (view t)"
    "\<forall>c. c \<in> H \<longrightarrow> b_blockno (bufs t c) = b_blockno (bufs s c)"
proof -
  let ?k = "sb_size (sb s) div BPB + 2"
  have "sb_size (sb s) < BPB + sb_size (sb s) div BPB * BPB" by (rule dividend_less_div_times) simp
  then have "sb_size (sb s) + BPB \<le> 0 + ?k * BPB" by simp
  then show thesis using balloc_loop_ok [OF assms, of 0 ?k] that unfolding balloc_def by auto
qed

text \<open>What an allocation does to the set of free blocks.\<close>

lemma alloc_post_free:
  assumes p: "alloc_post S V r W" and lay: "fs_layout S st" and m: "meta_used S V" and F: "free_blocks S V \<noteq> {}"
  shows "r \<in> free_blocks S V" "\<forall>b. b \<in> free_blocks S V \<longrightarrow> r \<le> b" "free_blocks S W = free_blocks S V - {r}" "W r = (\<lambda>_. 0)"
    "n \<noteq> r \<Longrightarrow> n \<noteq> sb_bmapstart S + r div BPB \<Longrightarrow> W n = V n" "data_start S \<le> r" "r < sb_size S" "meta_used S W"
    "b < sb_size S \<Longrightarrow> blk_used S W b = (b = r \<or> blk_used S V b)"
proof -
  let ?n = "sb_bmapstart S + r div BPB"
  have r: "r = Min (free_blocks S V)" and W: "W = V(?n := mark True r (V ?n), r := (\<lambda>_. 0))"
    using p F by (simp_all add: alloc_post_def)
  show rF: "r \<in> free_blocks S V" and "\<forall>b. b \<in> free_blocks S V \<longrightarrow> r \<le> b" using F r by auto
  then show rd: "data_start S \<le> r" and rs: "r < sb_size S" using m by (auto simp: meta_used_def free_blocks_def)
  show "W r = (\<lambda>_. 0)" "n \<noteq> r \<Longrightarrow> n \<noteq> ?n \<Longrightarrow> W n = V n" using W by simp_all
  have u: "blk_used S W b = (b = r \<or> blk_used S V b)" if b: "b < sb_size S" for b
  proof -
    have "sb_bmapstart S + b div BPB \<noteq> r" using BBLOCK_eq(1,3) [OF lay b] rd by simp
    then have "blk_used S W b = blk_used S (V(?n := mark True r (V ?n))) b" using W by (simp add: blk_used_def)
    then show ?thesis by (simp add: blk_used_mark)
  qed
  show FW: "free_blocks S W = free_blocks S V - {r}" using u by (auto simp: free_blocks_def)
  then show "meta_used S W" using m by (simp add: meta_used_def)
  show "b < sb_size S \<Longrightarrow> blk_used S W b = (b = r \<or> blk_used S V b)" by (rule u)
qed

text \<open>\<open>bfree\<close>, with the panic on a block that is already free.\<close>

lemma bfree_ok:
  fixes s :: "'a kfs_scheme"
  assumes tx: "fs_tx s H P (Suc m)" and lay: "fs_layout (sb s) (log_start s)" and held: "held_ok s H" and b: "b < sb_size (sb s)"
  defines "n \<equiv> sb_bmapstart (sb s) + b div BPB"
  shows "\<not> blk_used (sb s) (view s) b \<Longrightarrow> bfree ROOTDEV b s = Inl (Panic ''freeing free block'')"
    and "blk_used (sb s) (view s) b \<Longrightarrow> \<exists>t Q. bfree ROOTDEV b s = Inr t \<and> fs_tx t H Q m \<and> log_frame s t \<and>
      view t = (view s)(n := mark False b (view s n)) \<and> (\<forall>c. c \<in> H \<longrightarrow> b_blockno (bufs t c) = b_blockno (bufs s c))"
proof -
  note B = BBLOCK_eq [OF lay b, folded n_def]
  have nH: "n \<notin> blocks_of s H" using held B(1,3) by (force simp: blocks_of_def held_ok_def)
  obtain p t u where r: "bread ROOTDEV n s = Inr (p, t)" "b_data (bufs t p) = view s n" "log_frame s t"
    by (rule fs_read [OF tx nH]) blast
  have home: "home_block s n" using B lay by (auto simp: home_block_def log_area_def fs_layout_def)
  have bit: "blk_used (sb s) (view s) b \<longleftrightarrow> view s n (b mod BPB div 8) AND map_bit (b mod BPB) \<noteq> 0"
    by (simp add: blk_used_def n_def map_bit_test mod_mod_cancel)
  have e: "bfree ROOTDEV b s = (if blk_used (sb s) (view s) b then logged_update n (mark False b) s else Inl (Panic ''freeing free block''))"
    unfolding bit using r(1,2) B(1) update_after_read(2) [OF r(1), of "mark False b", unfolded r(2)]
    by (simp add: bfree_def Let_def mark_def)
  then show "\<not> blk_used (sb s) (view s) b \<Longrightarrow> bfree ROOTDEV b s = Inl (Panic ''freeing free block'')" by simp
  show "\<exists>t Q. bfree ROOTDEV b s = Inr t \<and> fs_tx t H Q m \<and> log_frame s t \<and>
      view t = (view s)(n := mark False b (view s n)) \<and> (\<forall>c. c \<in> H \<longrightarrow> b_blockno (bufs t c) = b_blockno (bufs s c))"
    if "blk_used (sb s) (view s) b"
    by (rule fs_update [OF tx nH home, of "mark False b"]) (use e that in auto)
qed

section \<open>A concrete file system\<close>

text \<open>A disk of 1000 blocks laid out as \<open>mkfs\<close> does it, with 48 blocks in use, in a transaction
  of one operation.\<close>

definition boot_sb :: superblock where
  "boot_sb = \<lparr>sb_magic = 0x10203040, sb_size = 1000, sb_nblocks = 953, sb_ninodes = 200, sb_nlog = 31, sb_logstart = 2,
     sb_inodestart = 33, sb_bmapstart = 46\<rparr>"

lemma boot_sb_fields [simp]:
  "sb_size boot_sb = 1000" "sb_ninodes boot_sb = 200" "sb_inodestart boot_sb = 33" "sb_bmapstart boot_sb = 46"
  by (simp_all add: boot_sb_def)

definition zero_inode :: inode where
  "zero_inode = \<lparr>i_dev = 0, i_inum = 0, i_ref = 0, i_lock = initsleeplock, i_valid = False, i_type = 0, i_major = 0, i_minor = 0,
     i_nlink = 0, i_size = 0, i_addrs = (\<lambda>_. 0)\<rparr>"

definition boot_disk :: "nat \<Rightarrow> bytes" where
  "boot_disk n = (if n = 46 then (\<lambda>i. if i < 6 then 0xff else 0) else (\<lambda>_. 0))"

definition boot_fs :: kfs where
  "boot_fs = binit \<lparr>sym_end = 0x80020000, sym_etext = 0x80008000, sym_trampoline = 0x80007000, mem = (\<lambda>_. 0), freelist = 0,
     procs = (\<lambda>_. zero_proc), cpu_proc = (\<lambda>_. Some 0), hart = 0, nextpid = 2, initproc = Some 0, ticks = 0,
     bufs = (\<lambda>_. zero_buf), disk = boot_disk, dtrace = [], log_start = 2, log_dev = ROOTDEV, log_outstanding = 1,
     log_committing = False, lh_n = 0, lh_block = (\<lambda>_. 0), sb = boot_sb, itable = (\<lambda>_. zero_inode)\<rparr>"

lemma boot_fs_fields [simp]:
  "disk boot_fs = boot_disk" "log_start boot_fs = 2" "log_dev boot_fs = ROOTDEV" "log_outstanding boot_fs = 1"
  "lh_n boot_fs = 0" "curpid boot_fs = Some 0" "sb boot_fs = boot_sb" "itable boot_fs = (\<lambda>_. zero_inode)"
  by (simp_all add: boot_fs_def binit_def curpid_def myproc_def cpuid_def zero_proc_def)

lemma boot_fs_inv: "bcache_inv boot_fs {} {}"
  unfolding boot_fs_def by (rule binit_inv) (simp add: bufs_zero_def zero_buf_def)

lemma boot_fs_view: "view boot_fs = boot_disk"
  by (rule ext) (use view_disk [OF boot_fs_inv] in \<open>simp add: blocks_of_def\<close>)

lemma boot_fs_tx: "k < NBUF \<Longrightarrow> fs_tx boot_fs {} {} k"
  using boot_fs_inv by (simp add: fs_tx_def tx_inv_def hdr_n_zero boot_disk_def)

lemma boot_fs_layout: "fs_layout boot_sb 2"
  by (simp add: fs_layout_def)

lemma boot_fs_free: "free_blocks boot_sb boot_disk = {48..<1000}"
proof -
  have "blk_used boot_sb boot_disk b \<longleftrightarrow> b < 48" if "b < 1000" for b
  proof -
    have "blk_used boot_sb boot_disk b \<longleftrightarrow> b div 8 < 6 \<and> bit (0xff :: 8 word) (b mod 8)"
      using that by (simp add: blk_used_def boot_disk_def)
    also have "(0xff :: 8 word) = mask 8" by (simp add: mask_eq_exp_minus_1)
    finally show ?thesis by (auto simp: bit_mask_iff)
  qed
  then show ?thesis by (auto simp: free_blocks_def)
qed

lemma boot_fs_meta: "meta_used boot_sb boot_disk"
  by (simp add: meta_used_def boot_fs_free data_start_def)

section \<open>Properties\<close>

text \<open>C26. \<open>balloc\<close> implements allocation from a set of free blocks. Inside a transaction with room
  for two more blocks it returns; if the free map has a clear bit, the result is the
  lowest-numbered free block, which is zeroed and is free no longer, every other block but the
  one of the free map keeps its contents; if there is none the result is 0 and nothing changes.\<close>

theorem balloc_refines:
  fixes s :: "'a kfs_scheme"
  assumes "fs_tx s {} P 2" and "fs_layout (sb s) (log_start s)" and "meta_used (sb s) (view s)"
  shows "must (balloc ROOTDEV s) (\<lambda>(r, t). (\<exists>Q. fs_tx t {} Q 0) \<and> sb t = sb s \<and>
    (if free_blocks (sb s) (view s) = {} then r = 0 \<and> view t = view s
     else r = Min (free_blocks (sb s) (view s)) \<and>
       free_blocks (sb s) (view t) = free_blocks (sb s) (view s) - {r} \<and> view t r = (\<lambda>_. 0) \<and>
       (\<forall>n. n \<noteq> r \<and> n \<noteq> BBLOCK r (sb s) \<longrightarrow> view t n = view s n)))"
proof -
  obtain r t Q where t: "balloc ROOTDEV s = Inr (r, t)" "fs_tx t {} Q 0" "log_frame s t" "alloc_post (sb s) (view s) r (view t)"
    using balloc_ok [of s "{}" P 0] assms by (auto simp: held_ok_def numeral_2_eq_2)
  show ?thesis
  proof (cases "free_blocks (sb s) (view s) = {}")
    case True
    then show ?thesis using t log_frame_fs(1) [OF t(3)] by (auto simp: alloc_post_def)
  next
    case False
    note a = alloc_post_free [OF t(4) assms(2,3) False]
    have "r = Min (free_blocks (sb s) (view s))" using t(4) False by (simp add: alloc_post_def)
    then show ?thesis using t(1,2) log_frame_fs(1) [OF t(3)] a BBLOCK_eq(1) [OF assms(2) a(7)] False by auto
  qed
qed

theorem balloc_refines_witness:
  "must (balloc ROOTDEV boot_fs) (\<lambda>(r, t). r = 48 \<and> free_blocks boot_sb (view t) = {49..<1000})"
proof -
  have m: "Min {48..<1000 :: nat} = 48" by (intro Min_eqI) auto
  have "must (balloc ROOTDEV boot_fs) (\<lambda>(r, t). (\<exists>Q. fs_tx t {} Q 0) \<and> sb t = sb boot_fs \<and>
    (if free_blocks (sb boot_fs) (view boot_fs) = {} then r = 0 \<and> view t = view boot_fs
     else r = Min (free_blocks (sb boot_fs) (view boot_fs)) \<and>
       free_blocks (sb boot_fs) (view t) = free_blocks (sb boot_fs) (view boot_fs) - {r} \<and> view t r = (\<lambda>_. 0) \<and>
       (\<forall>n. n \<noteq> r \<and> n \<noteq> BBLOCK r (sb boot_fs) \<longrightarrow> view t n = view boot_fs n)))"
    by (rule balloc_refines [OF boot_fs_tx]) (simp_all add: boot_fs_layout boot_fs_view boot_fs_meta)
  then show ?thesis by (rule must_weaken) (auto simp: boot_fs_view boot_fs_free m)
qed

text \<open>C27. \<open>bfree\<close> gives a block back: inside a transaction, freeing a block that is in use adds it to
  the set of free blocks and changes nothing but its block of the free map; freeing a free
  block panics.\<close>

theorem bfree_refines:
  fixes s :: "'a kfs_scheme"
  assumes "fs_tx s {} P 1" and "fs_layout (sb s) (log_start s)" and "b < sb_size (sb s)"
  shows "if b \<in> free_blocks (sb s) (view s) then bfree ROOTDEV b s = Inl (Panic ''freeing free block'')
    else must (bfree ROOTDEV b s) (\<lambda>t. (\<exists>Q. fs_tx t {} Q 0) \<and>
      free_blocks (sb s) (view t) = insert b (free_blocks (sb s) (view s)) \<and>
      (\<forall>n. n \<noteq> BBLOCK b (sb s) \<longrightarrow> view t n = view s n))"
proof -
  have h: "held_ok s {}" by (simp add: held_ok_def)
  note f = bfree_ok [OF _ assms(2) h assms(3), of P 0, OF assms(1) [unfolded One_nat_def]]
  show ?thesis
  proof (cases "blk_used (sb s) (view s) b")
    case True
    then obtain t Q where t: "bfree ROOTDEV b s = Inr t" "fs_tx t {} Q 0"
      "view t = (view s)(sb_bmapstart (sb s) + b div BPB := mark False b (view s (sb_bmapstart (sb s) + b div BPB)))"
      using f(2) by blast
    have "free_blocks (sb s) (view t) = insert b (free_blocks (sb s) (view s))"
      using assms(3) by (auto simp: free_blocks_def t(3) blk_used_mark)
    then show ?thesis using True t BBLOCK_eq(1) [OF assms(2,3)] by (auto simp: free_blocks_def)
  qed (use f(1) assms(3) in \<open>simp add: free_blocks_def\<close>)
qed

theorem bfree_refines_witness:
  "bfree ROOTDEV 50 boot_fs = Inl (Panic ''freeing free block'') \<and>
   must (bfree ROOTDEV 47 boot_fs) (\<lambda>t. free_blocks boot_sb (view t) = {47..<1000})"
proof -
  have "insert 47 {48..<1000 :: nat} = {47..<1000}" by auto
  then show ?thesis
    using bfree_refines [OF boot_fs_tx, of 50] bfree_refines [OF boot_fs_tx, of 47]
    by (auto simp: boot_fs_layout boot_fs_view boot_fs_free must_iff)
qed

end
