(* ===== verification/Fs_Dir.thy ===== *)
theory Fs_Dir
  imports Fs
begin

text \<open>
  Reading and writing files, directories and path names: the second half of \<open>kernel/fs.c\<close>,
  with \<open>either_copyout\<close> and \<open>either_copyin\<close> of \<open>kernel/proc.c\<close>.

  The other end of a transfer is a \<open>place\<close>: a user virtual address (\<open>user_dst\<close> or \<open>user_src\<close> is
  1), a physical page (\<open>loadseg\<close>), or a local variable of the kernel with an offset into it.
\<close>

section \<open>Transfers\<close>

datatype place = User uint64 | Phys addr | Var bytes nat

definition advance :: "place \<Rightarrow> nat \<Rightarrow> place" where
  "advance p m = (case p of User a \<Rightarrow> User (a + of_nat m) | Phys a \<Rightarrow> Phys (a + of_nat m) | Var d i \<Rightarrow> Var d (i + m))"

text \<open>Copying \<open>n\<close> bytes from one array to another.\<close>

definition blit :: "bytes \<Rightarrow> nat \<Rightarrow> bytes \<Rightarrow> nat \<Rightarrow> nat \<Rightarrow> bytes" where
  "blit dst i src j n = (\<lambda>k. if i \<le> k \<and> k < i + n then src (j + (k - i)) else dst k)"

definition either_copyout :: "place \<Rightarrow> bytes \<Rightarrow> nat \<Rightarrow> nat \<Rightarrow> 'a kproc_scheme \<Rightarrow> (int \<times> place \<times> 'a kproc_scheme) kres" where
  "either_copyout dst src off len s =
     (case dst of
        User a \<Rightarrow>
          kbind (cur s) (\<lambda>p.
          kbind (copyout (ppagetable (procs s p)) a src off len s) (\<lambda>(r, s). Inr (r, dst, s)))
      | Phys a \<Rightarrow> Inr (0, dst, s\<lparr>mem := array_to_mem (mem s) a src off len\<rparr>)
      | Var d i \<Rightarrow> Inr (0, Var (blit d i src off len) i, s))"

definition either_copyin :: "bytes \<Rightarrow> nat \<Rightarrow> place \<Rightarrow> nat \<Rightarrow> 'a kproc_scheme \<Rightarrow> (int \<times> bytes \<times> 'a kproc_scheme) kres" where
  "either_copyin dst off src len s =
     (case src of
        User a \<Rightarrow> kbind (cur s) (\<lambda>p. copyin (ppagetable (procs s p)) dst off a len s)
      | Phys a \<Rightarrow> Inr (0, mem_to_array (mem s) a dst off len, s)
      | Var d i \<Rightarrow> Inr (0, blit dst off d i len, s))"

section \<open>Files\<close>

text \<open>\<open>m\<close> of the loops of \<open>readi\<close> and \<open>writei\<close>: the bytes wanted in the block of \<open>off\<close>.\<close>

definition span :: "nat \<Rightarrow> nat \<Rightarrow> nat" where
  "span rest off = min rest (BSIZE - off mod BSIZE)"

lemma span_pos: "0 < rest \<Longrightarrow> 0 < span rest off"
proof -
  have "off mod 1024 < 1024" by simp
  then show "0 < rest \<Longrightarrow> 0 < span rest off" by (simp add: span_def)
qed

text \<open>The loop of \<open>readi\<close>, with \<open>rest = n - tot\<close>; the result is \<open>tot\<close>, or -1 after a failed copy.\<close>

function readi_loop :: "nat \<Rightarrow> place \<Rightarrow> nat \<Rightarrow> nat \<Rightarrow> nat \<Rightarrow> 'a kfs_scheme \<Rightarrow> (int \<times> place \<times> 'a kfs_scheme) kres" where
  "readi_loop ip dst off tot rest s =
     (if rest = 0 then Inr (int tot, dst, s)
      else kbind (bmap ip (off div BSIZE) s) (\<lambda>(addr, s).
           if addr = 0 then Inr (int tot, dst, s)
           else kbind (bread (i_dev (itable s ip)) addr s) (\<lambda>(bp, s).
                let m = span rest off
                in kbind (either_copyout dst (b_data (bufs s bp)) (off mod BSIZE) m s) (\<lambda>(r, dst, s).
                   kbind (brelse bp s) (\<lambda>s.
                   if r = - 1 then Inr (- 1, dst, s)
                   else readi_loop ip (advance dst m) (off + m) (tot + m) (rest - m) s)))))"
  by pat_completeness auto
termination
  by (relation "measure (\<lambda>(ip, dst, off, tot, rest, s). rest)") (use span_pos in auto)

declare readi_loop.simps [simp del]

text \<open>The result also carries the destination, which holds the data when it is a variable. The
  \<open>uint\<close> count is returned as an \<open>int\<close>.\<close>

definition readi :: "nat \<Rightarrow> place \<Rightarrow> nat \<Rightarrow> nat \<Rightarrow> 'a kfs_scheme \<Rightarrow> (int \<times> place \<times> 'a kfs_scheme) kres" where
  "readi ip dst off n s =
     (let sz = i_size (itable s ip)
      in if off > sz \<or> (off + n) mod 2 ^ 32 < off then Inr (0, dst, s)
         else let n = (if off + n > sz then sz - off else n)
              in kbind (readi_loop ip dst off 0 n s) (\<lambda>(tot, dst, s). Inr (wrap32 tot, dst, s)))"

text \<open>The loop of \<open>writei\<close> returns \<open>tot\<close> and the \<open>off\<close> it reached. A failed copy leaves what it
  copied in the buffer, which is released without \<open>log_write\<close>.\<close>

function writei_loop :: "nat \<Rightarrow> place \<Rightarrow> nat \<Rightarrow> nat \<Rightarrow> nat \<Rightarrow> 'a kfs_scheme \<Rightarrow> (nat \<times> nat \<times> 'a kfs_scheme) kres" where
  "writei_loop ip src off tot rest s =
     (if rest = 0 then Inr (tot, off, s)
      else kbind (bmap ip (off div BSIZE) s) (\<lambda>(addr, s).
           if addr = 0 then Inr (tot, off, s)
           else kbind (bread (i_dev (itable s ip)) addr s) (\<lambda>(bp, s).
                let m = span rest off
                in kbind (either_copyin (b_data (bufs s bp)) (off mod BSIZE) src m s) (\<lambda>(r, d, s).
                   let s = set_data bp d s
                   in if r = - 1 then kbind (brelse bp s) (\<lambda>s. Inr (tot, off, s))
                      else kbind (log_write bp s) (\<lambda>s.
                           kbind (brelse bp s) (\<lambda>s.
                           writei_loop ip (advance src m) (off + m) (tot + m) (rest - m) s))))))"
  by pat_completeness auto
termination
  by (relation "measure (\<lambda>(ip, src, off, tot, rest, s). rest)") (use span_pos in auto)

declare writei_loop.simps [simp del]

definition writei :: "nat \<Rightarrow> place \<Rightarrow> nat \<Rightarrow> nat \<Rightarrow> 'a kfs_scheme \<Rightarrow> (int \<times> 'a kfs_scheme) kres" where
  "writei ip src off n s =
     (if off > i_size (itable s ip) \<or> (off + n) mod 2 ^ 32 < off then Inr (- 1, s)
      else if off + n > MAXFILE * BSIZE then Inr (- 1, s)
      else kbind (writei_loop ip src off 0 n s) (\<lambda>(tot, off, s).
           let s = (if off > i_size (itable s ip) then upd_inode ip (\<lambda>x. x\<lparr>i_size := off\<rparr>) s else s)
           in kbind (iupdate ip s) (\<lambda>s. Inr (wrap32 (int tot), s))))"

section \<open>Directories\<close>

definition de_inum :: "bytes \<Rightarrow> nat" where
  "de_inum de = le_load de 0 2"

definition namecmp :: "bytes \<Rightarrow> nat \<Rightarrow> bytes \<Rightarrow> nat \<Rightarrow> int" where
  "namecmp f i g j = strncmp f i g j DIRSIZ"

text \<open>Reading the entry at \<open>off\<close> into the local variable \<open>de\<close>.\<close>

definition read_dirent :: "string \<Rightarrow> nat \<Rightarrow> nat \<Rightarrow> bytes \<Rightarrow> 'a kfs_scheme \<Rightarrow> (bytes \<times> 'a kfs_scheme) kres" where
  "read_dirent msg dp off de s =
     kbind (readi dp (Var de 0) off 16 s) (\<lambda>(r, dst, s).
     if r \<noteq> 16 then Inl (Panic msg) else Inr (case dst of Var de i \<Rightarrow> de | _ \<Rightarrow> de, s))"

text \<open>The result is the inode found and the offset of its entry, or \<open>None\<close>. The loop runs \<open>k\<close>
  more rounds; there is an entry at each multiple of 16 below the size.\<close>

fun dirlookup_loop :: "nat \<Rightarrow> nat \<Rightarrow> bytes \<Rightarrow> bytes \<Rightarrow> nat \<Rightarrow> 'a kfs_scheme \<Rightarrow> ((nat \<times> nat) option \<times> 'a kfs_scheme) kres" where
  "dirlookup_loop 0 dp name de off s = Inl Hangs"
| "dirlookup_loop (Suc k) dp name de off s =
     (if off < i_size (itable s dp)
      then kbind (read_dirent ''dirlookup read'' dp off de s) (\<lambda>(de, s).
           if de_inum de = 0 then dirlookup_loop k dp name de (off + 16) s
           else if namecmp name 0 de 2 = 0
           then kbind (iget (i_dev (itable s dp)) (de_inum de) s) (\<lambda>(ip, s). Inr (Some (ip, off), s))
           else dirlookup_loop k dp name de (off + 16) s)
      else Inr (None, s))"

definition dirlookup :: "nat \<Rightarrow> bytes \<Rightarrow> 'a kfs_scheme \<Rightarrow> ((nat \<times> nat) option \<times> 'a kfs_scheme) kres" where
  "dirlookup dp name s =
     (if i_type (itable s dp) \<noteq> T_DIR then Inl (Panic ''dirlookup not DIR'')
      else dirlookup_loop (i_size (itable s dp) div 16 + 2) dp name (\<lambda>_. 0) 0 s)"

fun dirlink_find :: "nat \<Rightarrow> nat \<Rightarrow> bytes \<Rightarrow> nat \<Rightarrow> 'a kfs_scheme \<Rightarrow> (nat \<times> bytes \<times> 'a kfs_scheme) kres" where
  "dirlink_find 0 dp de off s = Inl Hangs"
| "dirlink_find (Suc k) dp de off s =
     (if off < i_size (itable s dp)
      then kbind (read_dirent ''dirlink read'' dp off de s) (\<lambda>(de, s).
           if de_inum de = 0 then Inr (off, de, s) else dirlink_find k dp de (off + 16) s)
      else Inr (off, de, s))"

definition dirlink :: "nat \<Rightarrow> bytes \<Rightarrow> nat \<Rightarrow> 'a kfs_scheme \<Rightarrow> (int \<times> 'a kfs_scheme) kres" where
  "dirlink dp name inum s =
     kbind (dirlookup dp name s) (\<lambda>(r, s).
     case r of
       Some (ip, _) \<Rightarrow> kbind (iput ip s) (\<lambda>s. Inr (- 1, s))
     | None \<Rightarrow>
         kbind (dirlink_find (i_size (itable s dp) div 16 + 2) dp (\<lambda>_. 0) 0 s) (\<lambda>(off, de, s).
         let de = le_store (strncpy de 2 name 0 DIRSIZ) 0 2 inum
         in kbind (writei dp (Var de 0) off 16 s) (\<lambda>(r, s).
            Inr (if r \<noteq> 16 then - 1 else 0, s))))"

section \<open>Paths\<close>

abbreviation (input) slash :: uchar where "slash \<equiv> 47"

text \<open>Storing the characters of \<open>cs\<close> at the start of an array.\<close>

definition put_chars :: "bytes \<Rightarrow> uchar list \<Rightarrow> bytes" where
  "put_chars d cs = (\<lambda>i. if i < length cs then cs ! i else d i)"

definition skipelem :: "uchar list \<Rightarrow> bytes \<Rightarrow> (uchar list \<times> bytes) option" where
  "skipelem path name =
     (let path = dropWhile (\<lambda>c. c = slash) path
      in if path = [] then None
         else let elem = takeWhile (\<lambda>c. c \<noteq> slash) path;
                  name = (if length elem \<ge> DIRSIZ then put_chars name (take DIRSIZ elem)
                          else (put_chars name elem)(length elem := 0))
              in Some (dropWhile (\<lambda>c. c = slash) (dropWhile (\<lambda>c. c \<noteq> slash) path), name))"

lemma skipelem_shorter: "skipelem path name = Some (rest, name') \<Longrightarrow> length rest < length path"
proof -
  assume a: "skipelem path name = Some (rest, name')"
  define p where "p = dropWhile (\<lambda>c. c = slash) path"
  have p: "p \<noteq> []" "rest = dropWhile (\<lambda>c. c = slash) (dropWhile (\<lambda>c. c \<noteq> slash) p)"
    using a by (auto simp: skipelem_def p_def Let_def split: if_splits)
  then have "hd p \<noteq> slash" using hd_dropWhile [of "\<lambda>c. c = slash" path] by (simp add: p_def)
  then have "length (dropWhile (\<lambda>c. c \<noteq> slash) p) < length p"
    using p(1) by (cases p) (auto simp: le_imp_less_Suc length_dropWhile_le)
  moreover have "length rest \<le> length (dropWhile (\<lambda>c. c \<noteq> slash) p)" using p(2) by (simp add: length_dropWhile_le)
  moreover have "length p \<le> length path" by (simp add: p_def length_dropWhile_le)
  ultimately show ?thesis by simp
qed

text \<open>The loop of \<open>namex\<close>; the result is the inode or \<open>None\<close>, and the last name.\<close>

function namex_loop :: "nat \<Rightarrow> uchar list \<Rightarrow> bool \<Rightarrow> bytes \<Rightarrow> 'a kfs_scheme \<Rightarrow> (nat option \<times> bytes \<times> 'a kfs_scheme) kres" where
  "namex_loop ip path nameiparent name s =
     (case skipelem path name of
        None \<Rightarrow>
          if nameiparent then kbind (iput ip s) (\<lambda>s. Inr (None, name, s)) else Inr (Some ip, name, s)
      | Some (path', name) \<Rightarrow>
          kbind (ilock ip s) (\<lambda>s.
          if i_type (itable s ip) \<noteq> T_DIR then kbind (iunlockput ip s) (\<lambda>s. Inr (None, name, s))
          else if nameiparent \<and> path' = [] then kbind (iunlock ip s) (\<lambda>s. Inr (Some ip, name, s))
          else kbind (dirlookup ip name s) (\<lambda>(r, s).
               kbind (iunlockput ip s) (\<lambda>s.
               case r of
                 None \<Rightarrow> Inr (None, name, s)
               | Some (next, _) \<Rightarrow> namex_loop next path' nameiparent name s))))"
  by pat_completeness auto
termination
  by (relation "measure (\<lambda>(ip, path, nameiparent, name, s). length path)") (auto simp: skipelem_shorter)

declare namex_loop.simps [simp del]

definition namex :: "uchar list \<Rightarrow> bool \<Rightarrow> bytes \<Rightarrow> 'a kfs_scheme \<Rightarrow> (nat option \<times> bytes \<times> 'a kfs_scheme) kres" where
  "namex path nameiparent name s =
     (if path \<noteq> [] \<and> hd path = slash
      then kbind (iget ROOTDEV ROOTINO s) (\<lambda>(ip, s). namex_loop ip path nameiparent name s)
      else kbind (cur s) (\<lambda>p.
           case pcwd (procs s p) of
             None \<Rightarrow> Inl (Fault ''cwd'')
           | Some cwd \<Rightarrow> let (ip, s) = idup cwd s in namex_loop ip path nameiparent name s))"

definition namei :: "uchar list \<Rightarrow> 'a kfs_scheme \<Rightarrow> (nat option \<times> 'a kfs_scheme) kres" where
  "namei path s = kbind (namex path False (\<lambda>_. 0) s) (\<lambda>(ip, name, s). Inr (ip, s))"

definition nameiparent :: "uchar list \<Rightarrow> bytes \<Rightarrow> 'a kfs_scheme \<Rightarrow> (nat option \<times> bytes \<times> 'a kfs_scheme) kres" where
  "nameiparent path name s = namex path True name s"

end
