(* ===== verification/Fs_File.thy ===== *)
theory Fs_File
  imports Fs_Blocks Fs_Dir
begin

text \<open>
  The contents of a file: an inode with its block map stands for an array of bytes, and
  \<open>bmap\<close>, \<open>readi\<close> and \<open>writei\<close> are read and write on that array.
\<close>

section \<open>The block map\<close>

text \<open>The block of index \<open>bn\<close>, 0 if there is none, in the contents \<open>V\<close> of the disk.\<close>

definition blk_of :: "(nat \<Rightarrow> bytes) \<Rightarrow> inode \<Rightarrow> nat \<Rightarrow> nat" where
  "blk_of V x bn = (if bn < NDIRECT then i_addrs x bn
     else if i_addrs x NDIRECT = 0 then 0 else ind_get (V (i_addrs x NDIRECT)) (bn - NDIRECT))"



definition fbyte :: "(nat \<Rightarrow> bytes) \<Rightarrow> inode \<Rightarrow> nat \<Rightarrow> uchar" where
  "fbyte V x j = V (blk_of V x (j div BSIZE)) (j mod BSIZE)"







text \<open>Frame of the file operations: what changes is the cache, the header in memory, and one
  entry of the inode table.\<close>

definition fs_frame :: "nat \<Rightarrow> 'a kfs_scheme \<Rightarrow> 'a kfs_scheme \<Rightarrow> bool" where
  "fs_frame ip s t \<longleftrightarrow> log_frame (s\<lparr>itable := itable t\<rparr>) t \<and> (\<forall>j. j \<noteq> ip \<longrightarrow> itable t j = itable s j)"

lemma fs_frame_log: "log_frame s t \<Longrightarrow> fs_frame ip s t"
  using log_frame_fs(2) [of s t] by (simp add: fs_frame_def)

lemma fs_frame_refl [simp]: "fs_frame ip s s"
  by (simp add: fs_frame_log log_frame_io)





lemma upd_inode_fields [simp]:
  "view (upd_inode ip f s) = view s" "sb (upd_inode ip f s) = sb s" "bufs (upd_inode ip f s) = bufs s"
  "log_start (upd_inode ip f s) = log_start s" "itable (upd_inode ip f s) = (itable s)(ip := f (itable s ip))"
  using view_same [of "upd_inode ip f s" s] by (simp_all add: upd_inode_def)

lemma fs_tx_upd_inode [simp]: "fs_tx (upd_inode ip f s) H P k = fs_tx s H P k"
  by (simp add: fs_tx_def tx_inv_def upd_inode_def bcache_inv_def buf_unique_def buf_wf_def curpid_def myproc_def cpuid_def
      blocks_of_def Let_def cong: if_cong)

section \<open>bmap\<close>












section \<open>readi\<close>







section \<open>writei\<close>









section \<open>Inodes on disk\<close>











section \<open>Files as lists of bytes\<close>

definition contents :: "(nat \<Rightarrow> bytes) \<Rightarrow> inode \<Rightarrow> uchar list" where
  "contents V x = map (fbyte V x) [0..<i_size x]"



lemma contents_length [simp]: "length (contents V x) = i_size x"
  by (simp add: contents_def)









section \<open>A concrete file\<close>

text \<open>The file system of \<open>boot_fs\<close> with an empty file open in entry 3 of the inode table.\<close>

definition boot_file :: kfs where
  "boot_file = boot_fs\<lparr>itable := (\<lambda>_. zero_inode)(3 := zero_inode\<lparr>i_dev := ROOTDEV, i_inum := 7, i_ref := 1, i_valid := True,
     i_type := T_FILE, i_nlink := 1\<rparr>)\<rparr>"

lemma boot_file_upd: "boot_file = upd_inode 3 (\<lambda>_. itable boot_file 3) boot_fs"
  by (simp add: boot_file_def upd_inode_def)

lemma boot_file_fields [simp]: "view boot_file = boot_disk" "sb boot_file = boot_sb" "log_start boot_file = 2"
  by (subst boot_file_upd, simp add: boot_fs_view)+


section \<open>Properties\<close>





end
