(* ===== verification/Ring.thy ===== *)
theory Ring
  imports Memory
begin

text \<open>
  Bounded byte queues. The pipe and the console keep their bytes in an array indexed by free-running
  32-bit counters taken modulo the size of the array. \<open>ring_items\<close> is the list of bytes between
  two such counters; the locale \<open>byte_queue\<close> is the contract the code above a queue relies on.
\<close>

section \<open>Counters\<close>

definition gap32 :: "nat \<Rightarrow> nat \<Rightarrow> nat" where
  "gap32 r w = (w + 2 ^ 32 - r) mod 2 ^ 32"

definition ring_items :: "nat \<Rightarrow> bytes \<Rightarrow> nat \<Rightarrow> nat \<Rightarrow> uchar list" where
  "ring_items N d r w = map (\<lambda>i. d ((r + i) mod N)) [0..<gap32 r w]"

lemma length_ring_items [simp]: "length (ring_items N d r w) = gap32 r w"
  by (simp add: ring_items_def)

lemma gap32_less: "gap32 r w < 2 ^ 32"
  by (simp add: gap32_def)

lemma inc32_less [simp]: "inc32 n < 2 ^ 32"
  by (simp add: inc32_def)

lemma dec32_less [simp]: "dec32 n < 2 ^ 32"
  by (simp add: dec32_def)

lemma counter_less [simp]: "inc32 n < 4294967296" "dec32 n < 4294967296"
  using inc32_less [of n] dec32_less [of n] by simp_all

lemma gap32_eq_0: "r < 2 ^ 32 \<Longrightarrow> w < 2 ^ 32 \<Longrightarrow> gap32 r w = 0 \<longleftrightarrow> r = w"
  by (cases "r \<le> w") (auto simp: gap32_def mod_if split: if_splits)

lemma gap32_self [simp]: "gap32 r r = 0"
  by (simp add: gap32_def)

lemma gap32_cases:
  assumes "r < 2 ^ 32" and "w < 2 ^ 32"
  shows "gap32 r w = (if r \<le> w then w - r else w + 4294967296 - r)"
  using assms by (auto simp: gap32_def mod_if)

lemma inc32_cases: "n < 2 ^ 32 \<Longrightarrow> inc32 n = (if n = 4294967295 then 0 else n + 1)"
  by (auto simp: inc32_def mod_if)

lemma dec32_cases: "n < 2 ^ 32 \<Longrightarrow> dec32 n = (if n = 0 then 4294967295 else n - 1)"
  by (auto simp: dec32_def mod_if)

lemma gap32_inc_right:
  assumes "r < 2 ^ 32" and "w < 2 ^ 32" and "gap32 r w < 4294967295"
  shows "gap32 r (inc32 w) = Suc (gap32 r w)"
  using assms gap32_cases [OF assms(1,2)] gap32_cases [OF assms(1) inc32_less, of w]
  by (auto simp: inc32_cases split: if_splits)

lemma gap32_inc_left:
  assumes "r < 2 ^ 32" and "w < 2 ^ 32" and "r \<noteq> w"
  shows "gap32 r w = Suc (gap32 (inc32 r) w)"
  using assms gap32_cases [OF assms(1,2)] gap32_cases [OF inc32_less assms(2), of r]
  by (auto simp: inc32_cases split: if_splits)

lemma gap32_dec_right:
  assumes "r < 2 ^ 32" and "w < 2 ^ 32" and "r \<noteq> w"
  shows "gap32 r w = Suc (gap32 r (dec32 w))"
  using assms gap32_cases [OF assms(1,2)] gap32_cases [OF assms(1) dec32_less, of w]
  by (auto simp: dec32_cases split: if_splits)

text \<open>A size that divides \<open>2 ^ 32\<close> does not see the counters wrap.\<close>

lemma inc32_mod: "N dvd 2 ^ 32 \<Longrightarrow> inc32 n mod N = (n + 1) mod N"
  by (simp add: inc32_def mod_mod_cancel)

lemma counter_mod:
  assumes "N dvd 2 ^ 32" and "r < 2 ^ 32" and "w < 2 ^ 32"
  shows "(r + gap32 r w) mod N = w mod N"
proof (cases "r \<le> w")
  case True
  then show ?thesis using gap32_cases [OF assms(2,3)] by simp
next
  case False
  then have "r + gap32 r w = w + 4294967296" using gap32_cases [OF assms(2,3)] assms(2) by simp
  moreover have "N dvd 4294967296" using assms(1) by simp
  ultimately show ?thesis by (metis mod_add_right_eq dvd_imp_mod_0 add.right_neutral)
qed

lemma ring_items_pop:
  assumes "N dvd 2 ^ 32" and "r < 2 ^ 32" and "w < 2 ^ 32" and "r \<noteq> w"
  shows "ring_items N d r w = d (r mod N) # ring_items N d (inc32 r) w"
proof -
  have g: "gap32 r w = Suc (gap32 (inc32 r) w)" by (rule gap32_inc_left [OF assms(2-4)])
  have e: "(inc32 r + i) mod N = (r + Suc i) mod N" for i
    using inc32_mod [OF assms(1), of r] by (metis add.assoc mod_add_left_eq plus_1_eq_Suc)
  show ?thesis unfolding ring_items_def g
    by (simp add: e upt_conv_Cons map_Suc_upt [symmetric] del: upt_Suc)
qed

lemma ring_items_push:
  assumes "N dvd 2 ^ 32" and "N < 2 ^ 32" and "r < 2 ^ 32" and "w < 2 ^ 32" and "gap32 r w < N"
  shows "ring_items N (d(w mod N := c)) r (inc32 w) = ring_items N d r w @ [c]"
proof -
  have g: "gap32 r (inc32 w) = Suc (gap32 r w)" using assms by (intro gap32_inc_right) auto
  have last: "(r + gap32 r w) mod N = w mod N" by (rule counter_mod [OF assms(1,3,4)])
  have "(r + i) mod N \<noteq> w mod N" if i: "i < gap32 r w" for i
  proof
    assume "(r + i) mod N = w mod N"
    then have "(r + i) mod N = (r + gap32 r w) mod N" using last by simp
    then have "N dvd gap32 r w - i" using mod_eq_dvd_iff_nat [of "r + i" "r + gap32 r w" N] i by simp
    then have "N \<le> gap32 r w - i" using i by (intro dvd_imp_le) simp_all
    then show False using assms(5) by simp
  qed
  then show ?thesis unfolding ring_items_def g using last by simp
qed

section \<open>The contract of a byte queue\<close>

locale byte_queue =
  fixes ok :: "'q \<Rightarrow> bool" and items :: "'q \<Rightarrow> uchar list" and cap :: nat
    and is_full :: "'q \<Rightarrow> bool" and is_empty :: "'q \<Rightarrow> bool"
    and put :: "uchar \<Rightarrow> 'q \<Rightarrow> 'q" and get :: "'q \<Rightarrow> uchar \<times> 'q"
  assumes bounded: "ok q \<Longrightarrow> length (items q) \<le> cap"
    and full_iff: "ok q \<Longrightarrow> is_full q \<longleftrightarrow> length (items q) = cap"
    and empty_iff: "ok q \<Longrightarrow> is_empty q \<longleftrightarrow> items q = []"
    and put_ok: "ok q \<Longrightarrow> \<not> is_full q \<Longrightarrow> ok (put c q)"
    and put_items: "ok q \<Longrightarrow> \<not> is_full q \<Longrightarrow> items (put c q) = items q @ [c]"
    and get_ok: "ok q \<Longrightarrow> \<not> is_empty q \<Longrightarrow> ok (snd (get q))"
    and get_items: "ok q \<Longrightarrow> \<not> is_empty q \<Longrightarrow> items q = fst (get q) # items (snd (get q))"
begin

text \<open>Putting bytes until the queue is full, and taking bytes until it is empty.\<close>

fun put_all :: "uchar list \<Rightarrow> 'q \<Rightarrow> 'q" where
  "put_all [] q = q"
| "put_all (c # cs) q = (if is_full q then q else put_all cs (put c q))"

fun get_upto :: "nat \<Rightarrow> 'q \<Rightarrow> uchar list \<times> 'q" where
  "get_upto 0 q = ([], q)"
| "get_upto (Suc n) q =
     (if is_empty q then ([], q) else let (c, q) = get q; (cs, q) = get_upto n q in (c # cs, q))"

lemma put_all_items:
  "ok q \<Longrightarrow> ok (put_all cs q) \<and> items (put_all cs q) = items q @ take (cap - length (items q)) cs"
proof (induction cs arbitrary: q)
  case (Cons c cs)
  show ?case
  proof (cases "is_full q")
    case True
    then show ?thesis using Cons.prems full_iff [OF Cons.prems] by simp
  next
    case False
    have l: "length (items q) < cap" using False bounded [OF Cons.prems] full_iff [OF Cons.prems] by simp
    note p = put_ok [OF Cons.prems False, of c] put_items [OF Cons.prems False, of c]
    have "take (cap - length (items q)) (c # cs) = c # take (cap - length (items (put c q))) cs"
      using l p(2) by (simp add: take_Cons' Suc_diff_Suc)
    then show ?thesis using Cons.IH [OF p(1)] False p(2) by simp
  qed
qed simp

lemma get_upto_items:
  "ok q \<Longrightarrow> ok (snd (get_upto n q)) \<and> fst (get_upto n q) = take n (items q) \<and> items (snd (get_upto n q)) = drop n (items q)"
proof (induction n arbitrary: q)
  case (Suc n)
  show ?case
  proof (cases "is_empty q")
    case True
    then show ?thesis using Suc.prems empty_iff [OF Suc.prems] by simp
  next
    case False
    obtain c r where g: "get q = (c, r)" by (cases "get q")
    have r: "ok r" "items q = c # items r" using get_ok [OF Suc.prems False] get_items [OF Suc.prems False] g by simp_all
    obtain cs t where t: "get_upto n r = (cs, t)" by (cases "get_upto n r")
    show ?thesis using Suc.IH [OF r(1)] False g r(2) t by simp
  qed
qed simp

text \<open>First in, first out: what is taken from a queue that was empty is the start of what was put.\<close>

lemma fifo:
  assumes "ok q" and "is_empty q" and "length cs \<le> cap"
  shows "fst (get_upto n (put_all cs q)) = take n cs"
proof -
  have "items (put_all cs q) = cs" "ok (put_all cs q)"
    using put_all_items [OF assms(1), of cs] empty_iff [OF assms(1)] assms by simp_all
  then show ?thesis using get_upto_items [of "put_all cs q" n] by simp
qed

end

end
