(* ===== verification/Pipe.thy ===== *)
theory Pipe
  imports Ring Fs_Dir
begin

text \<open>
  Open files and pipes: the file table of \<open>kernel/file.c\<close> and \<open>kernel/pipe.c\<close>.

  A \<open>struct file *\<close> is an index into the table. A \<open>struct pipe\<close> fills a page from \<open>kalloc\<close>; the
  pipe of the page at \<open>pi\<close> is \<open>pipes s pi\<close>.

  \<open>pipewrite\<close>, \<open>piperead\<close> and the console loop around \<open>sleep\<close>. Their models run up to the point
  where the call returns (\<open>Ret r\<close>) or has to sleep (\<open>Wait c i\<close>, with the progress \<open>i\<close> made so
  far), and are called again with that progress when the process is woken. The outcome of
  \<open>exit\<close>, which does not return, is \<open>Exits\<close>.
\<close>

section \<open>State\<close>

datatype outcome = Ret int | Wait chan int | Exits

datatype filetype = FD_NONE | FD_PIPE | FD_INODE | FD_DEVICE

record kfile =
  f_type :: filetype
  f_ref :: int
  f_readable :: bool
  f_writable :: bool
  f_pipe :: addr
  f_ip :: nat
  f_off :: nat
  f_major :: int

record pipe =
  pi_data :: bytes
  pi_nread :: nat
  pi_nwrite :: nat
  pi_readopen :: bool
  pi_writeopen :: bool

record kpipe = kfs +
  ftable :: "nat \<Rightarrow> kfile"
  pipes :: "addr \<Rightarrow> pipe"

abbreviation (input) PIPESIZE :: nat where "PIPESIZE \<equiv> 512"

definition upd_file :: "nat \<Rightarrow> (kfile \<Rightarrow> kfile) \<Rightarrow> 'a kpipe_scheme \<Rightarrow> 'a kpipe_scheme" where
  "upd_file f g s = s\<lparr>ftable := (ftable s)(f := g (ftable s f))\<rparr>"

definition upd_pipe :: "addr \<Rightarrow> (pipe \<Rightarrow> pipe) \<Rightarrow> 'a kpipe_scheme \<Rightarrow> 'a kpipe_scheme" where
  "upd_pipe p g s = s\<lparr>pipes := (pipes s)(p := g (pipes s p))\<rparr>"

abbreviation (input) ch_nread :: "addr \<Rightarrow> chan" where "ch_nread p \<equiv> ChPipeRead (unat p)"
abbreviation (input) ch_nwrite :: "addr \<Rightarrow> chan" where "ch_nwrite p \<equiv> ChPipeWrite (unat p)"

section \<open>The file table\<close>

fun find_file :: "(nat \<Rightarrow> kfile) \<Rightarrow> nat list \<Rightarrow> nat option" where
  "find_file F [] = None"
| "find_file F (f # fs) = (if f_ref (F f) = 0 then Some f else find_file F fs)"

definition filealloc :: "'a kpipe_scheme \<Rightarrow> nat option \<times> 'a kpipe_scheme" where
  "filealloc s =
     (case find_file (ftable s) [0..<NFILE] of
        None \<Rightarrow> (None, s)
      | Some f \<Rightarrow> (Some f, upd_file f (\<lambda>x. x\<lparr>f_ref := 1\<rparr>) s))"

definition filedup :: "nat \<Rightarrow> 'a kpipe_scheme \<Rightarrow> (nat \<times> 'a kpipe_scheme) kres" where
  "filedup f s =
     (if f_ref (ftable s f) < 1 then Inl (Panic ''filedup'')
      else Inr (f, upd_file f (\<lambda>x. x\<lparr>f_ref := wrap32 (f_ref x + 1)\<rparr>) s))"

section \<open>Pipes\<close>

definition pipe_full :: "pipe \<Rightarrow> bool" where
  "pipe_full p \<longleftrightarrow> pi_nwrite p = (pi_nread p + PIPESIZE) mod 2 ^ 32"

definition pipe_empty :: "pipe \<Rightarrow> bool" where
  "pipe_empty p \<longleftrightarrow> pi_nread p = pi_nwrite p"

definition pipe_put :: "uchar \<Rightarrow> pipe \<Rightarrow> pipe" where
  "pipe_put ch p = p\<lparr>pi_data := (pi_data p)(pi_nwrite p mod PIPESIZE := ch), pi_nwrite := inc32 (pi_nwrite p)\<rparr>"

definition pipe_get :: "pipe \<Rightarrow> uchar \<times> pipe" where
  "pipe_get p = (pi_data p (pi_nread p mod PIPESIZE), p\<lparr>pi_nread := inc32 (pi_nread p)\<rparr>)"

definition pipeclose :: "addr \<Rightarrow> bool \<Rightarrow> 'a kpipe_scheme \<Rightarrow> 'a kpipe_scheme kres" where
  "pipeclose p writable s =
     (let s = (if writable
               then wakeup (ch_nread p) (upd_pipe p (\<lambda>x. x\<lparr>pi_writeopen := False\<rparr>) s)
               else wakeup (ch_nwrite p) (upd_pipe p (\<lambda>x. x\<lparr>pi_readopen := False\<rparr>) s))
      in if \<not> pi_readopen (pipes s p) \<and> \<not> pi_writeopen (pipes s p) then kfree p s else Inr s)"

definition fileclose :: "nat \<Rightarrow> 'a kpipe_scheme \<Rightarrow> 'a kpipe_scheme kres" where
  "fileclose f s =
     (if f_ref (ftable s f) < 1 then Inl (Panic ''fileclose'')
      else let s = upd_file f (\<lambda>x. x\<lparr>f_ref := f_ref x - 1\<rparr>) s
           in if f_ref (ftable s f) > 0 then Inr s
              else let ff = ftable s f; s = upd_file f (\<lambda>x. x\<lparr>f_ref := 0, f_type := FD_NONE\<rparr>) s
                   in if f_type ff = FD_PIPE then pipeclose (f_pipe ff) (f_writable ff) s
                      else if f_type ff = FD_INODE \<or> f_type ff = FD_DEVICE
                      then kbind (begin_op s) (\<lambda>s.
                           kbind (iput (f_ip ff) s) (\<lambda>s.
                           end_op s))
                      else Inr s)"

text \<open>\<open>Some (f0, f1)\<close> is success with the read end and the write end.\<close>

definition pipealloc :: "'a kpipe_scheme \<Rightarrow> ((nat \<times> nat) option \<times> 'a kpipe_scheme) kres" where
  "pipealloc s =
     (case filealloc s of
        (None, s) \<Rightarrow> Inr (None, s)
      | (Some f0, s) \<Rightarrow>
          (case filealloc s of
             (None, s) \<Rightarrow> kbind (fileclose f0 s) (\<lambda>s. Inr (None, s))
           | (Some f1, s) \<Rightarrow>
               (let (p, s) = kalloc s
                in if p = 0
                   then kbind (fileclose f0 s) (\<lambda>s.
                        kbind (fileclose f1 s) (\<lambda>s. Inr (None, s)))
                   else let s = upd_pipe p (\<lambda>x. x\<lparr>pi_readopen := True, pi_writeopen := True, pi_nwrite := 0, pi_nread := 0\<rparr>) s;
                            s = upd_file f0 (\<lambda>x. x\<lparr>f_type := FD_PIPE, f_readable := True, f_writable := False, f_pipe := p\<rparr>) s;
                            s = upd_file f1 (\<lambda>x. x\<lparr>f_type := FD_PIPE, f_readable := False, f_writable := True, f_pipe := p\<rparr>) s
                        in Inr (Some (f0, f1), s))))"

text \<open>Sleeping when the pipe is full leaves \<open>i\<close> bytes written; the loop goes on there when the
  writer wakes.\<close>

function pipewrite_loop :: "addr \<Rightarrow> uint64 \<Rightarrow> int \<Rightarrow> int \<Rightarrow> 'a kpipe_scheme \<Rightarrow> (outcome \<times> 'a kpipe_scheme) kres" where
  "pipewrite_loop p addr n i s =
     (if i < n
      then kbind (cur s) (\<lambda>pr.
           if \<not> pi_readopen (pipes s p) \<or> killed pr s then Inr (Ret (- 1), s)
           else if pipe_full (pipes s p) then Inr (Wait (ch_nwrite p) i, wakeup (ch_nread p) s)
           else kbind (copyin (ppagetable (procs s pr)) (\<lambda>_. 0) 0 (addr + of_int i) 1 s) (\<lambda>(r, ch, s).
                if r = - 1 then Inr (Ret i, wakeup (ch_nread p) s)
                else pipewrite_loop p addr n (i + 1) (upd_pipe p (pipe_put (ch 0)) s)))
      else Inr (Ret i, wakeup (ch_nread p) s))"
  by pat_completeness auto
termination
  by (relation "measure (\<lambda>(p, addr, n, i, s). nat (n - i))") auto

declare pipewrite_loop.simps [simp del]

definition pipewrite :: "addr \<Rightarrow> uint64 \<Rightarrow> int \<Rightarrow> 'a kpipe_scheme \<Rightarrow> (outcome \<times> 'a kpipe_scheme) kres" where
  "pipewrite p addr n s = pipewrite_loop p addr n 0 s"

function piperead_loop :: "addr \<Rightarrow> uint64 \<Rightarrow> int \<Rightarrow> int \<Rightarrow> 'a kpipe_scheme \<Rightarrow> (outcome \<times> 'a kpipe_scheme) kres" where
  "piperead_loop p addr n i s =
     (if i < n \<and> \<not> pipe_empty (pipes s p)
      then kbind (cur s) (\<lambda>pr.
           let (ch, x) = pipe_get (pipes s p); s = upd_pipe p (\<lambda>_. x) s
           in kbind (copyout (ppagetable (procs s pr)) (addr + of_int i) (\<lambda>_. ch) 0 1 s) (\<lambda>(r, s).
              if r = - 1 then Inr (Ret i, wakeup (ch_nwrite p) s)
              else piperead_loop p addr n (i + 1) s))
      else Inr (Ret i, wakeup (ch_nwrite p) s))"
  by pat_completeness auto
termination
  by (relation "measure (\<lambda>(p, addr, n, i, s). nat (n - i))") auto

declare piperead_loop.simps [simp del]

definition piperead :: "addr \<Rightarrow> uint64 \<Rightarrow> int \<Rightarrow> 'a kpipe_scheme \<Rightarrow> (outcome \<times> 'a kpipe_scheme) kres" where
  "piperead p addr n s =
     (if pipe_empty (pipes s p) \<and> pi_writeopen (pipes s p)
      then kbind (cur s) (\<lambda>pr.
           if killed pr s then Inr (Ret (- 1), s) else Inr (Wait (ch_nread p) 0, s))
      else piperead_loop p addr n 0 s)"

section \<open>A pipe is a byte queue\<close>

definition pipe_ok :: "pipe \<Rightarrow> bool" where
  "pipe_ok p \<longleftrightarrow> pi_nread p < 2 ^ 32 \<and> pi_nwrite p < 2 ^ 32 \<and> gap32 (pi_nread p) (pi_nwrite p) \<le> PIPESIZE"

definition pipe_items :: "pipe \<Rightarrow> uchar list" where
  "pipe_items p = ring_items PIPESIZE (pi_data p) (pi_nread p) (pi_nwrite p)"

lemma pipe_full_gap:
  assumes "pipe_ok p"
  shows "pipe_full p \<longleftrightarrow> gap32 (pi_nread p) (pi_nwrite p) = PIPESIZE"
  using assms gap32_cases [of "pi_nread p" "pi_nwrite p"] by (auto simp: pipe_ok_def pipe_full_def mod_if split: if_splits)

interpretation pq: byte_queue pipe_ok pipe_items PIPESIZE pipe_full pipe_empty pipe_put pipe_get
proof
  fix p c assume ok: "pipe_ok p"
  then show "length (pipe_items p) \<le> PIPESIZE" by (simp add: pipe_ok_def pipe_items_def)
  show "pipe_full p = (length (pipe_items p) = PIPESIZE)" using pipe_full_gap [OF ok] by (simp add: pipe_items_def)
  have r: "pi_nread p < 2 ^ 32" "pi_nwrite p < 2 ^ 32" "gap32 (pi_nread p) (pi_nwrite p) \<le> 512" using ok by (simp_all add: pipe_ok_def)
  show "pipe_empty p = (pipe_items p = [])"
    using gap32_eq_0 [OF r(1,2)] by (simp add: pipe_empty_def pipe_items_def ring_items_def)
  show "pipe_ok (pipe_put c p)" if "\<not> pipe_full p"
    using r that pipe_full_gap [OF ok] gap32_inc_right [OF r(1,2)] by (simp add: pipe_ok_def pipe_put_def)
  show "pipe_items (pipe_put c p) = pipe_items p @ [c]" if "\<not> pipe_full p"
    using r that pipe_full_gap [OF ok] ring_items_push [of PIPESIZE "pi_nread p" "pi_nwrite p" "pi_data p" c]
    by (simp add: pipe_items_def pipe_put_def)
  show "pipe_ok (snd (pipe_get p))" if "\<not> pipe_empty p"
    using r that gap32_inc_left [OF r(1,2)] by (simp add: pipe_ok_def pipe_get_def pipe_empty_def)
  show "pipe_items p = fst (pipe_get p) # pipe_items (snd (pipe_get p))" if "\<not> pipe_empty p"
    using r that ring_items_pop [of PIPESIZE "pi_nread p" "pi_nwrite p" "pi_data p"]
    by (simp add: pipe_items_def pipe_get_def pipe_empty_def)
qed

end
