(* ===== verification/Console.thy ===== *)
theory Console
  imports Pipe
begin

text \<open>
  The serial line and the console: \<open>kernel/uart.c\<close> and \<open>kernel/console.c\<close>.

  The 16550 is seen through its registers: \<open>uart_in\<close> are the received bytes waiting in \<open>RHR\<close>,
  \<open>uart_out\<close> is every byte written to \<open>THR\<close>, \<open>uart_idle\<close> is the bit \<open>LSR_TX_IDLE\<close>, and
  \<open>uart_regs\<close> lists the writes to the control registers, oldest first. The device drains \<open>THR\<close>,
  so the polling loop of \<open>uartputc_sync\<close> ends; it is modelled by its last round.
\<close>

section \<open>State\<close>

record kcons = kpipe +
  uart_in :: "uchar list"
  uart_out :: "uchar list"
  uart_idle :: bool
  uart_regs :: "(nat \<times> uchar) list"
  tx_busy :: bool
  panicking :: bool
  panicked :: bool
  cons_buf :: bytes
  cons_r :: nat
  cons_w :: nat
  cons_e :: nat
  dev_read :: "nat \<Rightarrow> bool"
  dev_write :: "nat \<Rightarrow> bool"

abbreviation (input) INPUT_BUF_SIZE :: nat where "INPUT_BUF_SIZE \<equiv> 128"
abbreviation (input) CONSOLE :: nat where "CONSOLE \<equiv> 1"
abbreviation (input) ctrl_D :: uchar where "ctrl_D \<equiv> 4"
abbreviation (input) ctrl_H :: uchar where "ctrl_H \<equiv> 8"
abbreviation (input) newline :: uchar where "newline \<equiv> 10"
abbreviation (input) carriage_return :: uchar where "carriage_return \<equiv> 13"
abbreviation (input) ctrl_P :: uchar where "ctrl_P \<equiv> 16"
abbreviation (input) ctrl_U :: uchar where "ctrl_U \<equiv> 21"
abbreviation (input) delete_key :: uchar where "delete_key \<equiv> 127"

section \<open>The UART\<close>

definition WriteReg :: "nat \<Rightarrow> uchar \<Rightarrow> 'a kcons_scheme \<Rightarrow> 'a kcons_scheme" where
  "WriteReg reg v s = s\<lparr>uart_regs := uart_regs s @ [(reg, v)]\<rparr>"

definition WriteTHR :: "uchar \<Rightarrow> 'a kcons_scheme \<Rightarrow> 'a kcons_scheme" where
  "WriteTHR c s = s\<lparr>uart_out := uart_out s @ [c]\<rparr>"

definition uartinit :: "'a kcons_scheme \<Rightarrow> 'a kcons_scheme" where
  "uartinit s =
     (let s = WriteReg 1 0x00 s; s = WriteReg 3 0x80 s; s = WriteReg 0 0x03 s; s = WriteReg 1 0x00 s;
          s = WriteReg 3 0x03 s; s = WriteReg 2 0x07 s
      in WriteReg 1 0x03 s)"

text \<open>From \<open>buf[i]\<close> on; the writer sleeps with \<open>i\<close> bytes sent while the UART is busy.\<close>

fun uartwrite_loop :: "nat \<Rightarrow> bytes \<Rightarrow> nat \<Rightarrow> 'a kcons_scheme \<Rightarrow> outcome \<times> 'a kcons_scheme" where
  "uartwrite_loop 0 buf i s = (Ret (int i), s)"
| "uartwrite_loop (Suc k) buf i s =
     (if tx_busy s then (Wait ChTx (int i), s)
      else uartwrite_loop k buf (Suc i) (WriteTHR (buf i) s\<lparr>tx_busy := True\<rparr>))"

definition uartwrite :: "bytes \<Rightarrow> int \<Rightarrow> 'a kcons_scheme \<Rightarrow> outcome \<times> 'a kcons_scheme" where
  "uartwrite buf n s = uartwrite_loop (nat n) buf 0 s"

definition uartputc_sync :: "uchar \<Rightarrow> 'a kcons_scheme \<Rightarrow> 'a kcons_scheme kres" where
  "uartputc_sync c s = (if panicked s then Inl Hangs else Inr (WriteTHR c s))"

definition uartgetc :: "'a kcons_scheme \<Rightarrow> int \<times> 'a kcons_scheme" where
  "uartgetc s = (case uart_in s of [] \<Rightarrow> (- 1, s) | c # cs \<Rightarrow> (int (unat c), s\<lparr>uart_in := cs\<rparr>))"

section \<open>The console\<close>

text \<open>\<open>None\<close> is \<open>BACKSPACE\<close>.\<close>

definition consputc :: "uchar option \<Rightarrow> 'a kcons_scheme \<Rightarrow> 'a kcons_scheme kres" where
  "consputc c s =
     (case c of
        None \<Rightarrow> kbind (uartputc_sync 8 s) (\<lambda>s. kbind (uartputc_sync 32 s) (uartputc_sync 8))
      | Some c \<Rightarrow> uartputc_sync c s)"

text \<open>The bytes are copied in pieces of 32 and handed to \<open>uartwrite\<close>. A writer that has to wait
  goes on with the byte after the last one sent.\<close>

function consolewrite_loop :: "place \<Rightarrow> int \<Rightarrow> int \<Rightarrow> 'a kcons_scheme \<Rightarrow> (outcome \<times> 'a kcons_scheme) kres" where
  "consolewrite_loop src n i s =
     (if i < n
      then let nn = min 32 (n - i)
           in kbind (either_copyin (\<lambda>_. 0) 0 (advance src (nat i)) (nat nn) s) (\<lambda>(r, buf, s).
              if r = - 1 then Inr (Ret i, s)
              else case uartwrite buf nn s of
                     (Wait c j, s) \<Rightarrow> Inr (Wait c (i + j), s)
                   | (Ret j, s) \<Rightarrow> consolewrite_loop src n (i + nn) s)
      else Inr (Ret i, s))"
  by pat_completeness auto
termination
  by (relation "measure (\<lambda>(src, n, i, s). nat (n - i))") auto

declare consolewrite_loop.simps [simp del]

definition consolewrite :: "place \<Rightarrow> int \<Rightarrow> 'a kcons_scheme \<Rightarrow> (outcome \<times> 'a kcons_scheme) kres" where
  "consolewrite src n s = consolewrite_loop src n 0 s"

text \<open>\<open>n\<close> bytes are still wanted of \<open>target\<close>.\<close>

function consoleread_loop :: "place \<Rightarrow> int \<Rightarrow> int \<Rightarrow> 'a kcons_scheme \<Rightarrow> (outcome \<times> place \<times> 'a kcons_scheme) kres" where
  "consoleread_loop dst target n s =
     (if n > 0
      then if cons_r s = cons_w s
           then kbind (cur s) (\<lambda>p.
                if killed p s then Inr (Ret (- 1), dst, s) else Inr (Wait ChConsR (target - n), dst, s))
           else let c = cons_buf s (cons_r s mod INPUT_BUF_SIZE); s = s\<lparr>cons_r := inc32 (cons_r s)\<rparr>
                in if c = ctrl_D
                   then Inr (Ret (target - n), dst, if n < target then s\<lparr>cons_r := dec32 (cons_r s)\<rparr> else s)
                   else kbind (either_copyout dst (\<lambda>_. c) 0 1 s) (\<lambda>(r, dst, s).
                        if r = - 1 then Inr (Ret (target - n), dst, s)
                        else let dst = advance dst 1; n = n - 1
                             in if c = newline then Inr (Ret (target - n), dst, s)
                                else consoleread_loop dst target n s)
      else Inr (Ret (target - n), dst, s))"
  by pat_completeness auto
termination
  by (relation "measure (\<lambda>(dst, target, n, s). nat n)") auto

declare consoleread_loop.simps [simp del]

definition consoleread :: "place \<Rightarrow> int \<Rightarrow> 'a kcons_scheme \<Rightarrow> (outcome \<times> place \<times> 'a kcons_scheme) kres" where
  "consoleread dst n s = consoleread_loop dst n n s"

text \<open>Control-U: the loop can erase at most the \<open>INPUT_BUF_SIZE\<close> bytes of the buffer; the bound
  \<open>k\<close> on its rounds is shown to be enough below.\<close>

fun kill_line :: "nat \<Rightarrow> 'a kcons_scheme \<Rightarrow> 'a kcons_scheme kres" where
  "kill_line 0 s = Inl Hangs"
| "kill_line (Suc k) s =
     (if cons_e s \<noteq> cons_w s \<and> cons_buf s (dec32 (cons_e s) mod INPUT_BUF_SIZE) \<noteq> newline
      then kbind (consputc None (s\<lparr>cons_e := dec32 (cons_e s)\<rparr>)) (kill_line k)
      else Inr s)"

definition cons_store :: "uchar \<Rightarrow> 'a kcons_scheme \<Rightarrow> 'a kcons_scheme" where
  "cons_store c s = s\<lparr>cons_buf := (cons_buf s)(cons_e s mod INPUT_BUF_SIZE := c), cons_e := inc32 (cons_e s)\<rparr>"

text \<open>Control-P prints the process table, which is left out.\<close>

definition consoleintr :: "uchar \<Rightarrow> 'a kcons_scheme \<Rightarrow> 'a kcons_scheme kres" where
  "consoleintr c s =
     (if c = ctrl_P then Inr s
      else if c = ctrl_U then kill_line (Suc (gap32 (cons_w s) (cons_e s))) s
      else if c = ctrl_H \<or> c = delete_key
      then if cons_e s \<noteq> cons_w s then consputc None (s\<lparr>cons_e := dec32 (cons_e s)\<rparr>) else Inr s
      else if c \<noteq> 0 \<and> gap32 (cons_r s) (cons_e s) < INPUT_BUF_SIZE
      then let c = (if c = carriage_return then newline else c)
           in kbind (consputc (Some c) s) (\<lambda>s.
              let s = cons_store c s
              in Inr (if c = newline \<or> c = ctrl_D \<or> gap32 (cons_r s) (cons_e s) = INPUT_BUF_SIZE
                      then wakeup ChConsR (s\<lparr>cons_w := cons_e s\<rparr>) else s))
      else Inr s)"

text \<open>Received bytes are handled until none is waiting, at most \<open>k\<close> of them.\<close>

fun uartintr_loop :: "nat \<Rightarrow> 'a kcons_scheme \<Rightarrow> 'a kcons_scheme kres" where
  "uartintr_loop 0 s = Inl Hangs"
| "uartintr_loop (Suc k) s =
     (let (c, s) = uartgetc s
      in if c = - 1 then Inr s else kbind (consoleintr (of_int c) s) (uartintr_loop k))"

definition uartintr :: "'a kcons_scheme \<Rightarrow> 'a kcons_scheme kres" where
  "uartintr s =
     (let s = (if uart_idle s then wakeup ChTx (s\<lparr>tx_busy := False\<rparr>) else s)
      in uartintr_loop (Suc (length (uart_in s))) s)"

definition consoleinit :: "'a kcons_scheme \<Rightarrow> 'a kcons_scheme" where
  "consoleinit s =
     (let s = uartinit s
      in s\<lparr>dev_read := (dev_read s)(CONSOLE := True), dev_write := (dev_write s)(CONSOLE := True)\<rparr>)"

section \<open>Invariant of the input buffer\<close>

text \<open>The reader is behind the last complete line, which is behind the edit point, and the edit
  point is at most a whole buffer ahead of the reader.\<close>

definition cons_ok :: "'a kcons_scheme \<Rightarrow> bool" where
  "cons_ok s \<longleftrightarrow> cons_r s < 2 ^ 32 \<and> cons_w s < 2 ^ 32 \<and> cons_e s < 2 ^ 32 \<and>
     gap32 (cons_r s) (cons_e s) = gap32 (cons_r s) (cons_w s) + gap32 (cons_w s) (cons_e s) \<and>
     gap32 (cons_r s) (cons_e s) \<le> INPUT_BUF_SIZE"

text \<open>The bytes a reader may take, and the bytes of the line being edited.\<close>

definition cons_lines :: "'a kcons_scheme \<Rightarrow> uchar list" where
  "cons_lines s = ring_items INPUT_BUF_SIZE (cons_buf s) (cons_r s) (cons_w s)"

definition cons_edit :: "'a kcons_scheme \<Rightarrow> uchar list" where
  "cons_edit s = ring_items INPUT_BUF_SIZE (cons_buf s) (cons_w s) (cons_e s)"

end
