(* ===== verification/File.thy ===== *)
theory File
  imports Console
begin

text \<open>
  Operations on open files, the second half of \<open>kernel/file.c\<close>: \<open>fileread\<close>, \<open>filewrite\<close> and
  \<open>filestat\<close>. The device switch \<open>devsw\<close> has one driver, the console; \<open>dev_read\<close> and \<open>dev_write\<close>
  say for which major numbers \<open>consoleinit\<close> has installed it.
\<close>

definition fileread :: "nat \<Rightarrow> uint64 \<Rightarrow> int \<Rightarrow> 'a kcons_scheme \<Rightarrow> (outcome \<times> 'a kcons_scheme) kres" where
  "fileread f addr n s =
     (let x = ftable s f
      in if \<not> f_readable x then Inr (Ret (- 1), s)
         else case f_type x of
           FD_PIPE \<Rightarrow> piperead (f_pipe x) addr n s
         | FD_DEVICE \<Rightarrow>
             if f_major x < 0 \<or> f_major x \<ge> int NDEV \<or> \<not> dev_read s (nat (f_major x)) then Inr (Ret (- 1), s)
             else kbind (consoleread (User addr) n s) (\<lambda>(r, dst, s). Inr (r, s))
         | FD_INODE \<Rightarrow>
             kbind (ilock (f_ip x) s) (\<lambda>s.
             kbind (readi (f_ip x) (User addr) (f_off x) (nat (n mod 2 ^ 32)) s) (\<lambda>(r, dst, s).
             let s = (if r > 0 then upd_file f (\<lambda>x. x\<lparr>f_off := (f_off x + nat r) mod 2 ^ 32\<rparr>) s else s)
             in kbind (iunlock (f_ip x) s) (\<lambda>s. Inr (Ret r, s))))
         | FD_NONE \<Rightarrow> Inl (Panic ''fileread''))"

text \<open>The most a single transaction writes: the inode, an indirect block, allocation blocks and two
  blocks of slop for an unaligned write must fit in \<open>MAXOPBLOCKS\<close>.\<close>

definition write_max :: nat where
  "write_max = (MAXOPBLOCKS - 1 - 1 - 2) div 2 * BSIZE"

text \<open>From byte \<open>i\<close> on; waiting for log space before a chunk keeps the progress made. A chunk that
  writes nothing at all, or not everything, ends the loop.\<close>

function filewrite_loop :: "nat \<Rightarrow> uint64 \<Rightarrow> int \<Rightarrow> int \<Rightarrow> 'a kcons_scheme \<Rightarrow> (outcome \<times> 'a kcons_scheme) kres" where
  "filewrite_loop f addr n i s =
     (if i < n
      then let n1 = min (n - i) (int write_max); ip = f_ip (ftable s f)
           in case begin_op s of
                Inl (Sleeps c) \<Rightarrow> Inr (Wait c i, s)
              | Inl e \<Rightarrow> Inl e
              | Inr s \<Rightarrow>
                  kbind (ilock ip s) (\<lambda>s.
                  kbind (writei ip (User (addr + of_int i)) (f_off (ftable s f)) (nat n1) s) (\<lambda>(r, s).
                  let s = (if r > 0 then upd_file f (\<lambda>x. x\<lparr>f_off := (f_off x + nat r) mod 2 ^ 32\<rparr>) s else s)
                  in kbind (iunlock ip s) (\<lambda>s.
                     kbind (end_op s) (\<lambda>s.
                     if r \<noteq> n1 then Inr (Ret (- 1), s)
                     else filewrite_loop f addr n (i + r) s))))
      else Inr (Ret (if i = n then n else - 1), s))"
  by pat_completeness auto
termination
  by (relation "measure (\<lambda>(f, addr, n, i, s). nat (n - i))") (auto simp: write_max_def)

declare filewrite_loop.simps [simp del]

definition filewrite :: "nat \<Rightarrow> uint64 \<Rightarrow> int \<Rightarrow> 'a kcons_scheme \<Rightarrow> (outcome \<times> 'a kcons_scheme) kres" where
  "filewrite f addr n s =
     (let x = ftable s f
      in if \<not> f_writable x then Inr (Ret (- 1), s)
         else case f_type x of
           FD_PIPE \<Rightarrow> pipewrite (f_pipe x) addr n s
         | FD_DEVICE \<Rightarrow>
             if f_major x < 0 \<or> f_major x \<ge> int NDEV \<or> \<not> dev_write s (nat (f_major x)) then Inr (Ret (- 1), s)
             else consolewrite (User addr) n s
         | FD_INODE \<Rightarrow> filewrite_loop f addr n 0 s
         | FD_NONE \<Rightarrow> Inl (Panic ''filewrite''))"

text \<open>The bytes of a \<open>struct stat\<close> over the contents \<open>st0\<close> of the uninitialised variable: \<open>dev\<close> at
  0, \<open>ino\<close> at 4, \<open>type\<close> at 8, \<open>nlink\<close> at 10, \<open>size\<close> at 16; bytes 12 to 15 are padding.\<close>

definition stat_bytes :: "bytes \<Rightarrow> stat \<Rightarrow> bytes" where
  "stat_bytes st0 st =
     le_store (put_short (put_short (le_store (le_store st0 0 4 (st_dev st)) 4 4 (st_ino st)) 8 (st_type st)) 10 (st_nlink st))
       16 8 (st_size st)"

definition filestat :: "bytes \<Rightarrow> nat \<Rightarrow> uint64 \<Rightarrow> 'a kcons_scheme \<Rightarrow> (int \<times> 'a kcons_scheme) kres" where
  "filestat st0 f addr s =
     kbind (cur s) (\<lambda>p.
     let x = ftable s f
     in if f_type x = FD_INODE \<or> f_type x = FD_DEVICE
        then kbind (ilock (f_ip x) s) (\<lambda>s.
             let st = stati (f_ip x) s
             in kbind (iunlock (f_ip x) s) (\<lambda>s.
                kbind (copyout (ppagetable (procs s p)) addr (stat_bytes st0 st) 0 24 s) (\<lambda>(r, s).
                Inr (if r < 0 then - 1 else 0, s))))
        else Inr (- 1, s))"

end
