(* ===== verification/Proc_Life.thy ===== *)
theory Proc_Life
  imports File
begin

text \<open>
  The life of a process, \<open>kernel/proc.c\<close>: allocation and release of a process slot, user page
  tables, \<open>fork\<close>, \<open>exit\<close> and \<open>wait\<close>.

  A \<open>struct proc *\<close> is an index into the process table, and \<open>Some p\<close> or \<open>None\<close> where the code
  tests for null. The trapframe is the page at \<open>ptrapframe\<close>; its fields are read and written at
  their byte offsets. \<open>kexit\<close> ends with the switch to the scheduler, so its result is the state
  at that point. A \<open>kwait\<close> that has to sleep has the outcome \<open>Wait\<close>.
\<close>

section \<open>State\<close>

record klife = kcons +
  sym_forkret :: uint64

text \<open>The offsets of the trapframe's fields.\<close>

abbreviation (input) tf_kernel_satp :: uint64 where "tf_kernel_satp \<equiv> 0"
abbreviation (input) tf_kernel_sp :: uint64 where "tf_kernel_sp \<equiv> 8"
abbreviation (input) tf_kernel_trap :: uint64 where "tf_kernel_trap \<equiv> 16"
abbreviation (input) tf_epc :: uint64 where "tf_epc \<equiv> 24"
abbreviation (input) tf_kernel_hartid :: uint64 where "tf_kernel_hartid \<equiv> 32"
abbreviation (input) tf_sp :: uint64 where "tf_sp \<equiv> 48"
abbreviation (input) tf_a0 :: uint64 where "tf_a0 \<equiv> 112"
abbreviation (input) tf_a1 :: uint64 where "tf_a1 \<equiv> 120"
abbreviation (input) tf_a7 :: uint64 where "tf_a7 \<equiv> 168"

definition tf_get :: "nat \<Rightarrow> uint64 \<Rightarrow> 'a kproc_scheme \<Rightarrow> uint64" where
  "tf_get p off s = load64 (mem s) (ptrapframe (procs s p) + off)"

definition tf_put :: "nat \<Rightarrow> uint64 \<Rightarrow> uint64 \<Rightarrow> 'a kproc_scheme \<Rightarrow> 'a kproc_scheme" where
  "tf_put p off v s = s\<lparr>mem := store64 (mem s) (ptrapframe (procs s p) + off) v\<rparr>"

section \<open>Page tables of a process\<close>

definition proc_pagetable :: "nat \<Rightarrow> 'a kproc_scheme \<Rightarrow> (addr \<times> 'a kproc_scheme) kres" where
  "proc_pagetable p s =
     (let (pagetable, s) = uvmcreate s
      in if pagetable = 0 then Inr (0, s)
         else kbind (mappages pagetable TRAMPOLINE PGSIZE (sym_trampoline s) (PTE_R OR PTE_X) s) (\<lambda>(r, s).
              if r < 0 then kbind (uvmfree pagetable 0 s) (\<lambda>s. Inr (0, s))
              else kbind (mappages pagetable TRAPFRAME PGSIZE (ptrapframe (procs s p)) (PTE_R OR PTE_W) s) (\<lambda>(r, s).
                   if r < 0
                   then kbind (uvmunmap pagetable TRAMPOLINE 1 False s) (\<lambda>s.
                        kbind (uvmfree pagetable 0 s) (\<lambda>s. Inr (0, s)))
                   else Inr (pagetable, s))))"

definition proc_freepagetable :: "addr \<Rightarrow> uint64 \<Rightarrow> 'a kproc_scheme \<Rightarrow> 'a kproc_scheme kres" where
  "proc_freepagetable pagetable sz s =
     kbind (uvmunmap pagetable TRAMPOLINE 1 False s) (\<lambda>s.
     kbind (uvmunmap pagetable TRAPFRAME 1 False s) (\<lambda>s.
     uvmfree pagetable sz s))"

section \<open>Slots\<close>

definition freeproc :: "nat \<Rightarrow> 'a kproc_scheme \<Rightarrow> 'a kproc_scheme kres" where
  "freeproc p s =
     kbind (if ptrapframe (procs s p) \<noteq> 0 then kfree (ptrapframe (procs s p)) s else Inr s) (\<lambda>s.
     let s = upd_proc p (\<lambda>q. q\<lparr>ptrapframe := 0\<rparr>) s
     in kbind (if ppagetable (procs s p) \<noteq> 0
               then proc_freepagetable (ppagetable (procs s p)) (psz (procs s p)) s else Inr s) (\<lambda>s.
        Inr (upd_proc p (\<lambda>q. q\<lparr>ppagetable := 0, psz := 0, ppid := 0, pparent := None, pname := (pname q)(0 := 0),
          pchan := None, pkilled := False, pxstate := 0, pstate := UNUSED\<rparr>) s)))"

fun find_unused :: "(nat \<Rightarrow> proc) \<Rightarrow> nat list \<Rightarrow> nat option" where
  "find_unused ps [] = None"
| "find_unused ps (p # rest) = (if pstate (ps p) = UNUSED then Some p else find_unused ps rest)"

definition allocproc :: "'a klife_scheme \<Rightarrow> (nat option \<times> 'a klife_scheme) kres" where
  "allocproc s =
     (case find_unused (procs s) [0..<NPROC] of
        None \<Rightarrow> Inr (None, s)
      | Some p \<Rightarrow>
          let (pid, s) = allocpid s;
              s = upd_proc p (\<lambda>q. q\<lparr>ppid := pid, pstate := USED\<rparr>) s;
              (tf, s) = kalloc s;
              s = upd_proc p (\<lambda>q. q\<lparr>ptrapframe := tf\<rparr>) s
          in if tf = 0 then kbind (freeproc p s) (\<lambda>s. Inr (None, s))
             else kbind (proc_pagetable p s) (\<lambda>(pt, s).
                  let s = upd_proc p (\<lambda>q. q\<lparr>ppagetable := pt\<rparr>) s
                  in if pt = 0 then kbind (freeproc p s) (\<lambda>s. Inr (None, s))
                     else Inr (Some p, upd_proc p (\<lambda>q. q\<lparr>pcontext :=
                       zero_context\<lparr>ctx_ra := sym_forkret s, ctx_sp := pkstack q + PGSIZE\<rparr>\<rparr>) s)))"

definition userinit :: "'a klife_scheme \<Rightarrow> 'a klife_scheme kres" where
  "userinit s =
     kbind (allocproc s) (\<lambda>(r, s).
     case r of
       None \<Rightarrow> Inl (Fault ''userinit'')
     | Some p \<Rightarrow>
         kbind (namei [slash] (s\<lparr>initproc := Some p\<rparr>)) (\<lambda>(ip, s).
         Inr (upd_proc p (\<lambda>q. q\<lparr>pcwd := ip, pstate := RUNNABLE\<rparr>) s)))"

section \<open>Memory\<close>

definition growproc :: "int \<Rightarrow> 'a kproc_scheme \<Rightarrow> (int \<times> 'a kproc_scheme) kres" where
  "growproc n s =
     kbind (cur s) (\<lambda>p.
     let sz = psz (procs s p)
     in if n > 0
        then kbind (uvmalloc (ppagetable (procs s p)) sz (sz + of_int n) PTE_W s) (\<lambda>(sz, s).
             if sz = 0 then Inr (- 1, s) else Inr (0, upd_proc p (\<lambda>q. q\<lparr>psz := sz\<rparr>) s))
        else if n < 0
        then kbind (uvmdealloc (ppagetable (procs s p)) sz (sz + of_int n) s) (\<lambda>(sz, s).
             Inr (0, upd_proc p (\<lambda>q. q\<lparr>psz := sz\<rparr>) s))
        else Inr (0, s))"

section \<open>fork\<close>

fun dup_files :: "nat \<Rightarrow> nat \<Rightarrow> nat list \<Rightarrow> 'a kpipe_scheme \<Rightarrow> 'a kpipe_scheme kres" where
  "dup_files p np [] s = Inr s"
| "dup_files p np (i # is) s =
     (case pofile (procs s p) i of
        None \<Rightarrow> dup_files p np is s
      | Some f \<Rightarrow>
          kbind (filedup f s) (\<lambda>(f, s).
          dup_files p np is (upd_proc np (\<lambda>q. q\<lparr>pofile := (pofile q)(i \<mapsto> f)\<rparr>) s)))"

definition kfork :: "'a klife_scheme \<Rightarrow> (int \<times> 'a klife_scheme) kres" where
  "kfork s =
     kbind (cur s) (\<lambda>p.
     kbind (allocproc s) (\<lambda>(r, s).
     case r of
       None \<Rightarrow> Inr (- 1, s)
     | Some np \<Rightarrow>
         kbind (uvmcopy (ppagetable (procs s p)) (ppagetable (procs s np)) (psz (procs s p)) s) (\<lambda>(r, s).
         if r < 0 then kbind (freeproc np s) (\<lambda>s. Inr (- 1, s))
         else let s = upd_proc np (\<lambda>q. q\<lparr>psz := psz (procs s p)\<rparr>) s;
                  s = s\<lparr>mem := memmove (mem s) (ptrapframe (procs s np)) (ptrapframe (procs s p)) 288\<rparr>;
                  s = tf_put np tf_a0 0 s
              in kbind (dup_files p np [0..<NOFILE] s) (\<lambda>s.
                 case pcwd (procs s p) of
                   None \<Rightarrow> Inl (Fault ''idup'')
                 | Some cwd \<Rightarrow>
                     let (cwd, s) = idup cwd s;
                         s = upd_proc np (\<lambda>q. q\<lparr>pcwd := Some cwd, pname := safestrcpy (pname q) 0 (pname (procs s p)) 0 16\<rparr>) s;
                         pid = ppid (procs s np);
                         s = upd_proc np (\<lambda>q. q\<lparr>pparent := Some p\<rparr>) s
                     in Inr (pid, upd_proc np (\<lambda>q. q\<lparr>pstate := RUNNABLE\<rparr>) s)))))"

section \<open>exit and wait\<close>

fun close_files :: "nat \<Rightarrow> nat list \<Rightarrow> 'a kpipe_scheme \<Rightarrow> 'a kpipe_scheme kres" where
  "close_files p [] s = Inr s"
| "close_files p (fd # fds) s =
     (case pofile (procs s p) fd of
        None \<Rightarrow> close_files p fds s
      | Some f \<Rightarrow>
          kbind (fileclose f s) (\<lambda>s.
          close_files p fds (upd_proc p (\<lambda>q. q\<lparr>pofile := (pofile q)(fd := None)\<rparr>) s)))"

definition kexit :: "int \<Rightarrow> 'a klife_scheme \<Rightarrow> 'a klife_scheme kres" where
  "kexit status s =
     kbind (cur s) (\<lambda>p.
     if initproc s = Some p then Inl (Panic ''init exiting'')
     else kbind (close_files p [0..<NOFILE] s) (\<lambda>s.
          kbind (begin_op s) (\<lambda>s.
          kbind (case pcwd (procs s p) of None \<Rightarrow> Inl (Fault ''iput'') | Some cwd \<Rightarrow> iput cwd s) (\<lambda>s.
          kbind (end_op s) (\<lambda>s.
          let s = upd_proc p (\<lambda>q. q\<lparr>pcwd := None\<rparr>) s;
              s = reparent p s;
              s = (case pparent (procs s p) of None \<Rightarrow> s | Some pp \<Rightarrow> wakeup (ChProc pp) s)
          in Inr (upd_proc p (\<lambda>q. q\<lparr>pxstate := status, pstate := ZOMBIE\<rparr>) s))))))"

text \<open>The scan of \<open>kwait\<close>: a child that has exited is reaped and ends the call; otherwise the
  result is whether there are children.\<close>

fun kwait_scan :: "nat \<Rightarrow> uint64 \<Rightarrow> nat list \<Rightarrow> bool \<Rightarrow> 'a kproc_scheme \<Rightarrow> ((int + bool) \<times> 'a kproc_scheme) kres" where
  "kwait_scan p addr [] havekids s = Inr (Inr havekids, s)"
| "kwait_scan p addr (pp # rest) havekids s =
     (if pparent (procs s pp) = Some p
      then if pstate (procs s pp) = ZOMBIE
           then let pid = ppid (procs s pp)
                in kbind (if addr \<noteq> 0
                          then copyout (ppagetable (procs s p)) addr
                                 (le_store (\<lambda>_. 0) 0 4 (nat (pxstate (procs s pp) mod 2 ^ 32))) 0 4 s
                          else Inr (0, s)) (\<lambda>(r, s).
                   if r < 0 then Inr (Inl (- 1), s)
                   else kbind (freeproc pp s) (\<lambda>s. Inr (Inl pid, s)))
           else kwait_scan p addr rest True s
      else kwait_scan p addr rest havekids s)"

definition kwait :: "uint64 \<Rightarrow> 'a kproc_scheme \<Rightarrow> (outcome \<times> 'a kproc_scheme) kres" where
  "kwait addr s =
     kbind (cur s) (\<lambda>p.
     kbind (kwait_scan p addr [0..<NPROC] False s) (\<lambda>(r, s).
     case r of
       Inl pid \<Rightarrow> Inr (Ret pid, s)
     | Inr havekids \<Rightarrow>
         if \<not> havekids \<or> killed p s then Inr (Ret (- 1), s) else Inr (Wait (ChProc p) 0, s)))"

end
