(* ===== verification/Exec.thy ===== *)
theory Exec
  imports Proc_Life
begin

text \<open>
  \<open>kernel/exec.c\<close>: replacing the image of the running process by a program file.

  The ELF structures are read into local variables and taken apart at their byte offsets. The
  argument strings are lists of characters; the kernel pages that hold them belong to \<open>sys_exec\<close>.
  A failure after the executable has been opened releases what was acquired, as the label \<open>bad\<close> does.
\<close>

abbreviation (input) ELF_MAGIC :: nat where "ELF_MAGIC \<equiv> 0x464C457F"
abbreviation (input) ELF_PROG_LOAD :: nat where "ELF_PROG_LOAD \<equiv> 1"

record elfhdr =
  e_magic :: nat
  e_entry :: uint64
  e_phoff :: uint64
  e_phnum :: nat

record proghdr =
  ph_type :: nat
  ph_flags :: nat
  ph_off :: uint64
  ph_vaddr :: uint64
  ph_filesz :: uint64
  ph_memsz :: uint64

definition get_elfhdr :: "bytes \<Rightarrow> elfhdr" where
  "get_elfhdr d = \<lparr>e_magic = le_load d 0 4, e_entry = of_nat (le_load d 24 8), e_phoff = of_nat (le_load d 32 8),
     e_phnum = le_load d 56 2\<rparr>"

definition get_proghdr :: "bytes \<Rightarrow> proghdr" where
  "get_proghdr d = \<lparr>ph_type = le_load d 0 4, ph_flags = le_load d 4 4, ph_off = of_nat (le_load d 8 8),
     ph_vaddr = of_nat (le_load d 16 8), ph_filesz = of_nat (le_load d 32 8), ph_memsz = of_nat (le_load d 40 8)\<rparr>"

definition flags2perm :: "nat \<Rightarrow> uint64" where
  "flags2perm flags =
     (let perm = (if bit flags 0 then PTE_X else 0)
      in if bit flags 1 then perm OR PTE_W else perm)"

text \<open>From \<open>i\<close> on; \<open>offset\<close>, \<open>sz\<close> and \<open>i\<close> are \<open>uint\<close>s. A size so close to \<open>2 ^ 32\<close> that \<open>i\<close> would wrap
  before reaching it is the case \<open>Hangs\<close>.\<close>

fun loadseg_loop :: "nat \<Rightarrow> addr \<Rightarrow> uint64 \<Rightarrow> nat \<Rightarrow> nat \<Rightarrow> nat \<Rightarrow> nat \<Rightarrow> 'a kfs_scheme \<Rightarrow> (int \<times> 'a kfs_scheme) kres" where
  "loadseg_loop 0 pagetable va ip offset sz i s = Inl Hangs"
| "loadseg_loop (Suc k) pagetable va ip offset sz i s =
     (if i < sz
      then kbind (walkaddr pagetable (va + of_nat i) s) (\<lambda>pa.
           if pa = 0 then Inl (Panic ''loadseg: address should exist'')
           else let n = (if sz - i < PGSIZE then sz - i else PGSIZE)
                in kbind (readi ip (Phys pa) ((offset + i) mod 2 ^ 32) n s) (\<lambda>(r, dst, s).
                   if r \<noteq> int n then Inr (- 1, s)
                   else loadseg_loop k pagetable va ip offset sz ((i + PGSIZE) mod 2 ^ 32) s))
      else Inr (0, s))"

definition loadseg :: "addr \<Rightarrow> uint64 \<Rightarrow> nat \<Rightarrow> nat \<Rightarrow> nat \<Rightarrow> 'a kfs_scheme \<Rightarrow> (int \<times> 'a kfs_scheme) kres" where
  "loadseg pagetable va ip offset sz s = loadseg_loop (sz div 4096 + 2) pagetable va ip offset sz 0 s"

text \<open>The loop over the program headers: \<open>False\<close> is the jump to \<open>bad\<close>; the size reached so far is
  part of the result in both cases.\<close>

fun load_segments ::
  "nat \<Rightarrow> int \<Rightarrow> addr \<Rightarrow> nat \<Rightarrow> uint64 \<Rightarrow> bytes \<Rightarrow> 'a kfs_scheme \<Rightarrow> (bool \<times> uint64 \<times> 'a kfs_scheme) kres"
where
  "load_segments 0 off pagetable ip sz ph0 s = Inr (True, sz, s)"
| "load_segments (Suc k) off pagetable ip sz ph0 s =
     kbind (readi ip (Var ph0 0) (nat (off mod 2 ^ 32)) 56 s) (\<lambda>(r, dst, s).
     if r \<noteq> 56 then Inr (False, sz, s)
     else let ph0 = (case dst of Var d i \<Rightarrow> d | _ \<Rightarrow> ph0); ph = get_proghdr ph0; off = wrap32 (off + 56)
          in if ph_type ph \<noteq> ELF_PROG_LOAD then load_segments k off pagetable ip sz ph0 s
             else if ph_memsz ph < ph_filesz ph then Inr (False, sz, s)
             else if ph_vaddr ph + ph_memsz ph < ph_vaddr ph then Inr (False, sz, s)
             else if ph_vaddr ph mod PGSIZE \<noteq> 0 then Inr (False, sz, s)
             else kbind (uvmalloc pagetable sz (ph_vaddr ph + ph_memsz ph) (flags2perm (ph_flags ph)) s) (\<lambda>(sz1, s).
                  if sz1 = 0 then Inr (False, sz, s)
                  else kbind (loadseg pagetable (ph_vaddr ph) ip (unat (ph_off ph) mod 2 ^ 32) (unat (ph_filesz ph) mod 2 ^ 32) s) (\<lambda>(r, s).
                       if r < 0 then Inr (False, sz1, s)
                       else load_segments k off pagetable ip sz1 ph0 s)))"

text \<open>Pushing the argument strings: \<open>None\<close> is the jump to \<open>bad\<close>. The addresses of the strings are
  collected in \<open>ustack\<close>.\<close>

fun push_args ::
  "uchar list list \<Rightarrow> addr \<Rightarrow> uint64 \<Rightarrow> uint64 \<Rightarrow> uint64 list \<Rightarrow> 'a kproc_scheme \<Rightarrow> ((uint64 \<times> uint64 list) option \<times> 'a kproc_scheme) kres"
where
  "push_args [] pagetable stackbase sp ustack s = Inr (Some (sp, ustack), s)"
| "push_args (a # as) pagetable stackbase sp ustack s =
     (if length ustack \<ge> MAXARG then Inr (None, s)
      else let sp = sp - of_nat (length a + 1); sp = sp - sp mod 16
           in if sp < stackbase then Inr (None, s)
              else kbind (copyout pagetable sp (put_chars (\<lambda>_. 0) a) 0 (length a + 1) s) (\<lambda>(r, s).
                   if r < 0 then Inr (None, s)
                   else push_args as pagetable stackbase sp (ustack @ [sp]) s))"

text \<open>The array \<open>ustack\<close> as bytes.\<close>

primrec words_bytes :: "uint64 list \<Rightarrow> nat \<Rightarrow> bytes \<Rightarrow> bytes" where
  "words_bytes [] a d = d"
| "words_bytes (w # ws) a d = words_bytes ws (a + 8) (le_store d a 8 (unat w))"

text \<open>The name shown for a process: what follows the last slash of the path.\<close>

fun last_elem :: "uchar list \<Rightarrow> uchar list \<Rightarrow> uchar list" where
  "last_elem alast [] = alast"
| "last_elem alast (c # cs) = (if c = slash then last_elem cs cs else last_elem alast cs)"

definition exec_bad :: "addr \<Rightarrow> uint64 \<Rightarrow> nat option \<Rightarrow> 'a klife_scheme \<Rightarrow> (int \<times> 'a klife_scheme) kres" where
  "exec_bad pagetable sz ip s =
     kbind (if pagetable \<noteq> 0 then proc_freepagetable pagetable sz s else Inr s) (\<lambda>s.
     kbind (case ip of None \<Rightarrow> Inr s | Some ip \<Rightarrow> kbind (iunlockput ip s) (\<lambda>s. end_op s)) (\<lambda>s.
     Inr (- 1, s)))"

text \<open>The second half of \<open>kexec\<close>: the stack, the arguments and the switch to the new image.\<close>

definition exec_image :: "uchar list \<Rightarrow> uchar list list \<Rightarrow> nat \<Rightarrow> addr \<Rightarrow> uint64 \<Rightarrow> uint64 \<Rightarrow> 'a klife_scheme \<Rightarrow> (int \<times> 'a klife_scheme) kres" where
  "exec_image path argv p pagetable sz entry s =
     (let oldsz = psz (procs s p); sz = PGROUNDUP sz
      in kbind (uvmalloc pagetable sz (sz + (of_nat USERSTACK + 1) * PGSIZE) PTE_W s) (\<lambda>(sz1, s).
         if sz1 = 0 then exec_bad pagetable sz None s
         else let sz = sz1
              in kbind (uvmclear pagetable (sz - (of_nat USERSTACK + 1) * PGSIZE) s) (\<lambda>s.
                 let stackbase = sz - of_nat USERSTACK * PGSIZE
                 in kbind (push_args argv pagetable stackbase sz [] s) (\<lambda>(r, s).
                    case r of
                      None \<Rightarrow> exec_bad pagetable sz None s
                    | Some (sp, ustack) \<Rightarrow>
                        let argc = length ustack;
                            sp = sp - of_nat ((argc + 1) * 8);
                            sp = sp - sp mod 16
                        in if sp < stackbase then exec_bad pagetable sz None s
                           else kbind (copyout pagetable sp (words_bytes (ustack @ [0]) 0 (\<lambda>_. 0)) 0 ((argc + 1) * 8) s) (\<lambda>(r, s).
                                if r < 0 then exec_bad pagetable sz None s
                                else let s = tf_put p tf_a1 sp s;
                                         s = upd_proc p (\<lambda>q. q\<lparr>pname := safestrcpy (pname q) 0 (put_chars (\<lambda>_. 0) (last_elem path path)) 0 16\<rparr>) s;
                                         oldpagetable = ppagetable (procs s p);
                                         s = upd_proc p (\<lambda>q. q\<lparr>ppagetable := pagetable, psz := sz\<rparr>) s;
                                         s = tf_put p tf_epc entry s;
                                         s = tf_put p tf_sp sp s
                                     in kbind (proc_freepagetable oldpagetable oldsz s) (\<lambda>s. Inr (int argc, s)))))))"

definition kexec :: "uchar list \<Rightarrow> uchar list list \<Rightarrow> 'a klife_scheme \<Rightarrow> (int \<times> 'a klife_scheme) kres" where
  "kexec path argv s =
     kbind (cur s) (\<lambda>p.
     kbind (begin_op s) (\<lambda>s.
     kbind (namei path s) (\<lambda>(r, s).
     case r of
       None \<Rightarrow> kbind (end_op s) (\<lambda>s. Inr (- 1, s))
     | Some ip \<Rightarrow>
         kbind (ilock ip s) (\<lambda>s.
         kbind (readi ip (Var (\<lambda>_. 0) 0) 0 64 s) (\<lambda>(r, dst, s).
         let elf = get_elfhdr (case dst of Var d i \<Rightarrow> d | _ \<Rightarrow> (\<lambda>_. 0))
         in if r \<noteq> 64 then exec_bad 0 0 (Some ip) s
            else if e_magic elf \<noteq> ELF_MAGIC then exec_bad 0 0 (Some ip) s
            else kbind (proc_pagetable p s) (\<lambda>(pagetable, s).
                 if pagetable = 0 then exec_bad 0 0 (Some ip) s
                 else kbind (load_segments (e_phnum elf) (wrap32 (uint (e_phoff elf))) pagetable ip 0 (\<lambda>_. 0) s) (\<lambda>(ok, sz, s).
                      if \<not> ok then exec_bad pagetable sz (Some ip) s
                      else kbind (iunlockput ip s) (\<lambda>s.
                           kbind (end_op s) (\<lambda>s.
                           exec_image path argv p pagetable sz (e_entry elf) s)))))))))"

end
