(* ===== verification/Sysfile.thy ===== *)
theory Sysfile
  imports Exec
begin

text \<open>
  System calls: fetching arguments (\<open>kernel/syscall.c\<close>) and the calls on files
  (\<open>kernel/sysfile.c\<close>). A system call takes its arguments from the trapframe of the running
  process and gives an outcome: a result for register \<open>a0\<close>, or a wait.
\<close>

section \<open>Arguments\<close>

definition argraw :: "nat \<Rightarrow> 'a kproc_scheme \<Rightarrow> uint64 kres" where
  "argraw n s =
     kbind (cur s) (\<lambda>p.
     if n < 6 then Inr (tf_get p (tf_a0 + 8 * of_nat n) s) else Inl (Panic ''argraw''))"

definition argint :: "nat \<Rightarrow> 'a kproc_scheme \<Rightarrow> int kres" where
  "argint n s = kbind (argraw n s) (\<lambda>x. Inr (wrap32 (uint x)))"

definition argaddr :: "nat \<Rightarrow> 'a kproc_scheme \<Rightarrow> uint64 kres" where
  "argaddr n s = argraw n s"

definition fetchaddr :: "uint64 \<Rightarrow> 'a kproc_scheme \<Rightarrow> (uint64 option \<times> 'a kproc_scheme) kres" where
  "fetchaddr addr s =
     kbind (cur s) (\<lambda>p.
     if addr \<ge> psz (procs s p) \<or> addr + 8 > psz (procs s p) then Inr (None, s)
     else kbind (copyin (ppagetable (procs s p)) (\<lambda>_. 0) 0 addr 8 s) (\<lambda>(r, d, s).
          if r \<noteq> 0 then Inr (None, s) else Inr (Some (of_nat (le_load d 0 8)), s)))"

text \<open>The string fetched, or \<open>None\<close> for -1.\<close>

definition fetchstr :: "uint64 \<Rightarrow> nat \<Rightarrow> 'a kproc_scheme \<Rightarrow> uchar list option kres" where
  "fetchstr addr mx s =
     kbind (cur s) (\<lambda>p.
     kbind (copyinstr (ppagetable (procs s p)) (\<lambda>_. 0) 0 addr mx s) (\<lambda>(r, buf).
     if r < 0 then Inr None
     else case strlen buf 0 of None \<Rightarrow> Inl Hangs | Some n \<Rightarrow> Inr (Some (map buf [0..<n]))))"

definition argstr :: "nat \<Rightarrow> nat \<Rightarrow> 'a kproc_scheme \<Rightarrow> uchar list option kres" where
  "argstr n mx s = kbind (argaddr n s) (\<lambda>addr. fetchstr addr mx s)"

section \<open>Descriptors\<close>

definition argfd :: "nat \<Rightarrow> 'a kproc_scheme \<Rightarrow> (nat \<times> nat) option kres" where
  "argfd n s =
     kbind (argint n s) (\<lambda>fd.
     kbind (cur s) (\<lambda>p.
     if fd < 0 \<or> fd \<ge> int NOFILE then Inr None
     else case pofile (procs s p) (nat fd) of None \<Rightarrow> Inr None | Some f \<Rightarrow> Inr (Some (nat fd, f))))"

fun find_fd :: "(nat \<Rightarrow> nat option) \<Rightarrow> nat list \<Rightarrow> nat option" where
  "find_fd F [] = None"
| "find_fd F (fd # fds) = (if F fd = None then Some fd else find_fd F fds)"

definition fdalloc :: "nat \<Rightarrow> 'a kproc_scheme \<Rightarrow> (nat option \<times> 'a kproc_scheme) kres" where
  "fdalloc f s =
     kbind (cur s) (\<lambda>p.
     case find_fd (pofile (procs s p)) [0..<NOFILE] of
       None \<Rightarrow> Inr (None, s)
     | Some fd \<Rightarrow> Inr (Some fd, upd_proc p (\<lambda>q. q\<lparr>pofile := (pofile q)(fd \<mapsto> f)\<rparr>) s))"

definition ret :: "int \<Rightarrow> 'a \<Rightarrow> (outcome \<times> 'a) kres" where
  "ret r s = Inr (Ret r, s)"

definition sys_dup :: "'a klife_scheme \<Rightarrow> (outcome \<times> 'a klife_scheme) kres" where
  "sys_dup s =
     kbind (argfd 0 s) (\<lambda>r.
     case r of
       None \<Rightarrow> ret (- 1) s
     | Some (_, f) \<Rightarrow>
         kbind (fdalloc f s) (\<lambda>(r, s).
         case r of
           None \<Rightarrow> ret (- 1) s
         | Some fd \<Rightarrow> kbind (filedup f s) (\<lambda>(f, s). ret (int fd) s)))"

definition sys_read :: "'a klife_scheme \<Rightarrow> (outcome \<times> 'a klife_scheme) kres" where
  "sys_read s =
     kbind (argaddr 1 s) (\<lambda>p.
     kbind (argint 2 s) (\<lambda>n.
     kbind (argfd 0 s) (\<lambda>r.
     case r of None \<Rightarrow> ret (- 1) s | Some (_, f) \<Rightarrow> fileread f p n s)))"

definition sys_write :: "'a klife_scheme \<Rightarrow> (outcome \<times> 'a klife_scheme) kres" where
  "sys_write s =
     kbind (argaddr 1 s) (\<lambda>p.
     kbind (argint 2 s) (\<lambda>n.
     kbind (argfd 0 s) (\<lambda>r.
     case r of None \<Rightarrow> ret (- 1) s | Some (_, f) \<Rightarrow> filewrite f p n s)))"

definition clear_fd :: "nat \<Rightarrow> nat \<Rightarrow> 'a kproc_scheme \<Rightarrow> 'a kproc_scheme" where
  "clear_fd p fd s = upd_proc p (\<lambda>q. q\<lparr>pofile := (pofile q)(fd := None)\<rparr>) s"

definition sys_close :: "'a klife_scheme \<Rightarrow> (outcome \<times> 'a klife_scheme) kres" where
  "sys_close s =
     kbind (argfd 0 s) (\<lambda>r.
     case r of
       None \<Rightarrow> ret (- 1) s
     | Some (fd, f) \<Rightarrow>
         kbind (cur s) (\<lambda>p.
         kbind (fileclose f (clear_fd p fd s)) (ret 0)))"

definition sys_fstat :: "bytes \<Rightarrow> 'a klife_scheme \<Rightarrow> (outcome \<times> 'a klife_scheme) kres" where
  "sys_fstat st0 s =
     kbind (argaddr 1 s) (\<lambda>st.
     kbind (argfd 0 s) (\<lambda>r.
     case r of
       None \<Rightarrow> ret (- 1) s
     | Some (_, f) \<Rightarrow> kbind (filestat st0 f st s) (\<lambda>(r, s). ret r s)))"

section \<open>Names\<close>

text \<open>Ending the transaction and returning \<open>r\<close>.\<close>

definition end_ret :: "int \<Rightarrow> 'a klife_scheme \<Rightarrow> (outcome \<times> 'a klife_scheme) kres" where
  "end_ret r s = kbind (end_op s) (ret r)"

definition add_nlink :: "nat \<Rightarrow> int \<Rightarrow> 'a kfs_scheme \<Rightarrow> 'a kfs_scheme kres" where
  "add_nlink ip d s = iupdate ip (upd_inode ip (\<lambda>x. x\<lparr>i_nlink := wrap16 (i_nlink x + d)\<rparr>) s)"

definition sys_link :: "'a klife_scheme \<Rightarrow> (outcome \<times> 'a klife_scheme) kres" where
  "sys_link s =
     kbind (argstr 0 MAXPATH s) (\<lambda>old.
     case old of
       None \<Rightarrow> ret (- 1) s
     | Some old \<Rightarrow>
         kbind (argstr 1 MAXPATH s) (\<lambda>new.
         case new of
           None \<Rightarrow> ret (- 1) s
         | Some new \<Rightarrow>
             kbind (begin_op s) (\<lambda>s.
             kbind (namei old s) (\<lambda>(r, s).
             case r of
               None \<Rightarrow> end_ret (- 1) s
             | Some ip \<Rightarrow>
                 kbind (ilock ip s) (\<lambda>s.
                 if i_type (itable s ip) = T_DIR then kbind (iunlockput ip s) (end_ret (- 1))
                 else kbind (add_nlink ip 1 s) (\<lambda>s.
                      kbind (iunlock ip s) (\<lambda>s.
                      kbind (nameiparent new (\<lambda>_. 0) s) (\<lambda>(dp, name, s).
                      let bad = (\<lambda>s. kbind (ilock ip s) (\<lambda>s.
                                      kbind (add_nlink ip (- 1) s) (\<lambda>s.
                                      kbind (iunlockput ip s) (end_ret (- 1)))))
                      in case dp of
                           None \<Rightarrow> bad s
                         | Some dp \<Rightarrow>
                             kbind (ilock dp s) (\<lambda>s.
                             kbind (if i_dev (itable s dp) \<noteq> i_dev (itable s ip) then Inr (- 1, s)
                                    else dirlink dp name (i_inum (itable s ip)) s) (\<lambda>(r, s).
                             kbind (iunlockput dp s) (\<lambda>s.
                             if r < 0 then bad s
                             else kbind (iput ip s) (end_ret 0))))))))))))"

fun isdirempty_loop :: "nat \<Rightarrow> nat \<Rightarrow> bytes \<Rightarrow> nat \<Rightarrow> 'a kfs_scheme \<Rightarrow> (bool \<times> 'a kfs_scheme) kres" where
  "isdirempty_loop 0 dp de off s = Inl Hangs"
| "isdirempty_loop (Suc k) dp de off s =
     (if off < i_size (itable s dp)
      then kbind (read_dirent ''isdirempty: readi'' dp off de s) (\<lambda>(de, s).
           if de_inum de \<noteq> 0 then Inr (False, s) else isdirempty_loop k dp de (off + 16) s)
      else Inr (True, s))"

definition isdirempty :: "nat \<Rightarrow> 'a kfs_scheme \<Rightarrow> (bool \<times> 'a kfs_scheme) kres" where
  "isdirempty dp s = isdirempty_loop (i_size (itable s dp) div 16 + 2) dp (\<lambda>_. 0) 32 s"

abbreviation (input) dot :: bytes where "dot \<equiv> put_chars (\<lambda>_. 0) [46]"
abbreviation (input) dotdot :: bytes where "dotdot \<equiv> put_chars (\<lambda>_. 0) [46, 46]"

definition sys_unlink :: "'a klife_scheme \<Rightarrow> (outcome \<times> 'a klife_scheme) kres" where
  "sys_unlink s =
     kbind (argstr 0 MAXPATH s) (\<lambda>path.
     case path of
       None \<Rightarrow> ret (- 1) s
     | Some path \<Rightarrow>
         kbind (begin_op s) (\<lambda>s.
         kbind (nameiparent path (\<lambda>_. 0) s) (\<lambda>(dp, name, s).
         case dp of
           None \<Rightarrow> end_ret (- 1) s
         | Some dp \<Rightarrow>
             let bad = (\<lambda>s. kbind (iunlockput dp s) (end_ret (- 1)))
             in kbind (ilock dp s) (\<lambda>s.
                if namecmp name 0 dot 0 = 0 \<or> namecmp name 0 dotdot 0 = 0 then bad s
                else kbind (dirlookup dp name s) (\<lambda>(r, s).
                     case r of
                       None \<Rightarrow> bad s
                     | Some (ip, off) \<Rightarrow>
                         kbind (ilock ip s) (\<lambda>s.
                         if i_nlink (itable s ip) < 1 then Inl (Panic ''unlink: nlink < 1'')
                         else kbind (if i_type (itable s ip) = T_DIR then isdirempty ip s else Inr (True, s)) (\<lambda>(e, s).
                              if \<not> e then kbind (iunlockput ip s) bad
                              else kbind (writei dp (Var (\<lambda>_. 0) 0) off 16 s) (\<lambda>(r, s).
                                   if r \<noteq> 16 then Inl (Panic ''unlink: writei'')
                                   else kbind (if i_type (itable s ip) = T_DIR then add_nlink dp (- 1) s else Inr s) (\<lambda>s.
                                        kbind (iunlockput dp s) (\<lambda>s.
                                        kbind (add_nlink ip (- 1) s) (\<lambda>s.
                                        kbind (iunlockput ip s) (end_ret 0))))))))))))"

text \<open>\<open>create\<close> returns the inode locked.\<close>

definition create :: "uchar list \<Rightarrow> int \<Rightarrow> int \<Rightarrow> int \<Rightarrow> 'a kfs_scheme \<Rightarrow> (nat option \<times> 'a kfs_scheme) kres" where
  "create path type major minor s =
     kbind (nameiparent path (\<lambda>_. 0) s) (\<lambda>(dp, name, s).
     case dp of
       None \<Rightarrow> Inr (None, s)
     | Some dp \<Rightarrow>
         kbind (ilock dp s) (\<lambda>s.
         kbind (dirlookup dp name s) (\<lambda>(r, s).
         case r of
           Some (ip, _) \<Rightarrow>
             kbind (iunlockput dp s) (\<lambda>s.
             kbind (ilock ip s) (\<lambda>s.
             if type = T_FILE \<and> (i_type (itable s ip) = T_FILE \<or> i_type (itable s ip) = T_DEVICE) then Inr (Some ip, s)
             else kbind (iunlockput ip s) (\<lambda>s. Inr (None, s))))
         | None \<Rightarrow>
             kbind (ialloc (i_dev (itable s dp)) type s) (\<lambda>(r, s).
             case r of
               None \<Rightarrow> kbind (iunlockput dp s) (\<lambda>s. Inr (None, s))
             | Some ip \<Rightarrow>
                 kbind (ilock ip s) (\<lambda>s.
                 let s = upd_inode ip (\<lambda>x. x\<lparr>i_major := major, i_minor := minor, i_nlink := 1\<rparr>) s;
                     fail = (\<lambda>s. kbind (iupdate ip (upd_inode ip (\<lambda>x. x\<lparr>i_nlink := 0\<rparr>) s)) (\<lambda>s.
                                 kbind (iunlockput ip s) (\<lambda>s.
                                 kbind (iunlockput dp s) (\<lambda>s. Inr (None, s)))))
                 in kbind (iupdate ip s) (\<lambda>s.
                    kbind (if type = T_DIR
                           then kbind (dirlink ip dot (i_inum (itable s ip)) s) (\<lambda>(r, s).
                                if r < 0 then Inr (r, s) else dirlink ip dotdot (i_inum (itable s dp)) s)
                           else Inr (0, s)) (\<lambda>(r, s).
                    if r < 0 then fail s
                    else kbind (dirlink dp name (i_inum (itable s ip)) s) (\<lambda>(r, s).
                         if r < 0 then fail s
                         else kbind (if type = T_DIR then add_nlink dp 1 s else Inr s) (\<lambda>s.
                              kbind (iunlockput dp s) (\<lambda>s. Inr (Some ip, s)))))))))))"

abbreviation (input) O_RDONLY :: int where "O_RDONLY \<equiv> 0"
abbreviation (input) O_WRONLY :: int where "O_WRONLY \<equiv> 1"
abbreviation (input) O_RDWR :: int where "O_RDWR \<equiv> 2"
abbreviation (input) O_CREATE :: int where "O_CREATE \<equiv> 0x200"
abbreviation (input) O_TRUNC :: int where "O_TRUNC \<equiv> 0x400"

text \<open>The rest of \<open>sys_open\<close> once \<open>ip\<close> is found and locked.\<close>

definition open_inode :: "nat \<Rightarrow> int \<Rightarrow> 'a klife_scheme \<Rightarrow> (outcome \<times> 'a klife_scheme) kres" where
  "open_inode ip omode s =
     (if i_type (itable s ip) = T_DEVICE \<and> (i_major (itable s ip) < 0 \<or> i_major (itable s ip) \<ge> int NDEV)
      then kbind (iunlockput ip s) (end_ret (- 1))
      else case filealloc s of
             (None, s) \<Rightarrow> kbind (iunlockput ip s) (end_ret (- 1))
           | (Some f, s) \<Rightarrow>
               kbind (fdalloc f s) (\<lambda>(r, s).
               case r of
                 None \<Rightarrow> kbind (fileclose f s) (\<lambda>s. kbind (iunlockput ip s) (end_ret (- 1)))
               | Some fd \<Rightarrow>
                   let s = (if i_type (itable s ip) = T_DEVICE
                            then upd_file f (\<lambda>x. x\<lparr>f_type := FD_DEVICE, f_major := i_major (itable s ip)\<rparr>) s
                            else upd_file f (\<lambda>x. x\<lparr>f_type := FD_INODE, f_off := 0\<rparr>) s);
                       s = upd_file f (\<lambda>x. x\<lparr>f_ip := ip, f_readable := (omode AND O_WRONLY = 0),
                             f_writable := (omode AND O_WRONLY \<noteq> 0 \<or> omode AND O_RDWR \<noteq> 0)\<rparr>) s
                   in kbind (if omode AND O_TRUNC \<noteq> 0 \<and> i_type (itable s ip) = T_FILE then itrunc ip s else Inr s) (\<lambda>s.
                      kbind (iunlock ip s) (end_ret (int fd)))))"

definition sys_open :: "'a klife_scheme \<Rightarrow> (outcome \<times> 'a klife_scheme) kres" where
  "sys_open s =
     kbind (argint 1 s) (\<lambda>omode.
     kbind (argstr 0 MAXPATH s) (\<lambda>path.
     case path of
       None \<Rightarrow> ret (- 1) s
     | Some path \<Rightarrow>
         kbind (begin_op s) (\<lambda>s.
         if omode AND O_CREATE \<noteq> 0
         then kbind (create path T_FILE 0 0 s) (\<lambda>(r, s).
              case r of None \<Rightarrow> end_ret (- 1) s | Some ip \<Rightarrow> open_inode ip omode s)
         else kbind (namei path s) (\<lambda>(r, s).
              case r of
                None \<Rightarrow> end_ret (- 1) s
              | Some ip \<Rightarrow>
                  kbind (ilock ip s) (\<lambda>s.
                  if i_type (itable s ip) = T_DIR \<and> omode \<noteq> O_RDONLY then kbind (iunlockput ip s) (end_ret (- 1))
                  else open_inode ip omode s)))))"

text \<open>\<open>sys_mkdir\<close> and \<open>sys_mknod\<close> after the path has been fetched.\<close>

definition make_node :: "uchar list option \<Rightarrow> int \<Rightarrow> int \<Rightarrow> int \<Rightarrow> 'a klife_scheme \<Rightarrow> (outcome \<times> 'a klife_scheme) kres" where
  "make_node path type major minor s =
     (case path of
        None \<Rightarrow> end_ret (- 1) s
      | Some path \<Rightarrow>
          kbind (create path type major minor s) (\<lambda>(r, s).
          case r of
            None \<Rightarrow> end_ret (- 1) s
          | Some ip \<Rightarrow> kbind (iunlockput ip s) (end_ret 0)))"

definition sys_mkdir :: "'a klife_scheme \<Rightarrow> (outcome \<times> 'a klife_scheme) kres" where
  "sys_mkdir s =
     kbind (begin_op s) (\<lambda>s.
     kbind (argstr 0 MAXPATH s) (\<lambda>path.
     make_node path T_DIR 0 0 s))"

definition sys_mknod :: "'a klife_scheme \<Rightarrow> (outcome \<times> 'a klife_scheme) kres" where
  "sys_mknod s =
     kbind (begin_op s) (\<lambda>s.
     kbind (argint 1 s) (\<lambda>major.
     kbind (argint 2 s) (\<lambda>minor.
     kbind (argstr 0 MAXPATH s) (\<lambda>path.
     make_node path T_DEVICE (wrap16 major) (wrap16 minor) s))))"

definition sys_chdir :: "'a klife_scheme \<Rightarrow> (outcome \<times> 'a klife_scheme) kres" where
  "sys_chdir s =
     kbind (cur s) (\<lambda>p.
     kbind (begin_op s) (\<lambda>s.
     kbind (argstr 0 MAXPATH s) (\<lambda>path.
     case path of
       None \<Rightarrow> end_ret (- 1) s
     | Some path \<Rightarrow>
         kbind (namei path s) (\<lambda>(r, s).
         case r of
           None \<Rightarrow> end_ret (- 1) s
         | Some ip \<Rightarrow>
             kbind (ilock ip s) (\<lambda>s.
             if i_type (itable s ip) \<noteq> T_DIR then kbind (iunlockput ip s) (end_ret (- 1))
             else kbind (iunlock ip s) (\<lambda>s.
                  kbind (case pcwd (procs s p) of None \<Rightarrow> Inl (Fault ''iput'') | Some cwd \<Rightarrow> iput cwd s) (\<lambda>s.
                  kbind (end_op s) (\<lambda>s.
                  ret 0 (upd_proc p (\<lambda>q. q\<lparr>pcwd := Some ip\<rparr>) s)))))))))"

text \<open>Fetching \<open>argv\<close>: each string has a page of its own. The result has the pages to free and,
  unless there was an error, the strings. The strings are values here: the page a string is
  copied to is read by \<open>kexec\<close> only and overwritten when it is freed.\<close>

fun fetch_argv ::
  "nat \<Rightarrow> nat \<Rightarrow> uint64 \<Rightarrow> addr list \<Rightarrow> uchar list list \<Rightarrow> 'a kproc_scheme \<Rightarrow>
    (addr list \<times> uchar list list option \<times> 'a kproc_scheme) kres"
where
  "fetch_argv 0 i uargv pages strs s = Inr (pages, None, s)"
| "fetch_argv (Suc k) i uargv pages strs s =
     kbind (fetchaddr (uargv + 8 * of_nat i) s) (\<lambda>(r, s).
     case r of
       None \<Rightarrow> Inr (pages, None, s)
     | Some uarg \<Rightarrow>
         if uarg = 0 then Inr (pages, Some strs, s)
         else let (p, s) = kalloc s
              in if p = 0 then Inr (pages, None, s)
                 else kbind (fetchstr uarg PGSIZE s) (\<lambda>r.
                      case r of
                        None \<Rightarrow> Inr (pages @ [p], None, s)
                      | Some str \<Rightarrow> fetch_argv k (Suc i) uargv (pages @ [p]) (strs @ [str]) s))"

fun free_pages :: "addr list \<Rightarrow> 'a kmem_scheme \<Rightarrow> 'a kmem_scheme kres" where
  "free_pages [] s = Inr s"
| "free_pages (p # ps) s = kbind (kfree p s) (free_pages ps)"

definition sys_exec :: "'a klife_scheme \<Rightarrow> (outcome \<times> 'a klife_scheme) kres" where
  "sys_exec s =
     kbind (argaddr 1 s) (\<lambda>uargv.
     kbind (argstr 0 MAXPATH s) (\<lambda>path.
     case path of
       None \<Rightarrow> ret (- 1) s
     | Some path \<Rightarrow>
         kbind (fetch_argv MAXARG 0 uargv [] [] s) (\<lambda>(pages, argv, s).
         case argv of
           None \<Rightarrow> kbind (free_pages pages s) (ret (- 1))
         | Some argv \<Rightarrow>
             kbind (kexec path argv s) (\<lambda>(r, s).
             kbind (free_pages pages s) (ret r)))))"

definition sys_pipe :: "'a klife_scheme \<Rightarrow> (outcome \<times> 'a klife_scheme) kres" where
  "sys_pipe s =
     kbind (cur s) (\<lambda>p.
     kbind (argaddr 0 s) (\<lambda>fdarray.
     kbind (pipealloc s) (\<lambda>(r, s).
     case r of
       None \<Rightarrow> ret (- 1) s
     | Some (frd, fwr) \<Rightarrow>
         let close_both = (\<lambda>s. kbind (fileclose frd s) (\<lambda>s. kbind (fileclose fwr s) (ret (- 1))))
         in kbind (fdalloc frd s) (\<lambda>(r, s).
            case r of
              None \<Rightarrow> close_both s
            | Some fd0 \<Rightarrow>
                kbind (fdalloc fwr s) (\<lambda>(r, s).
                case r of
                  None \<Rightarrow> close_both (clear_fd p fd0 s)
                | Some fd1 \<Rightarrow>
                    kbind (copyout (ppagetable (procs s p)) fdarray (le_store (\<lambda>_. 0) 0 4 fd0) 0 4 s) (\<lambda>(r, s).
                    kbind (if r < 0 then Inr (r, s)
                           else copyout (ppagetable (procs s p)) (fdarray + 4) (le_store (\<lambda>_. 0) 0 4 fd1) 0 4 s) (\<lambda>(r, s).
                    if r < 0 then close_both (clear_fd p fd1 (clear_fd p fd0 s))
                    else ret 0 s)))))))"

end
