(* ===== verification/Syscall.thy ===== *)
theory Syscall
  imports Sysfile
begin

text \<open>
  The system calls on processes (\<open>kernel/sysproc.c\<close>) and the dispatcher of
  \<open>kernel/syscall.c\<close>, which takes the call number from \<open>a7\<close> and puts the result into \<open>a0\<close>.
  A call that has to sleep has the outcome \<open>Wait\<close>, and \<open>exit\<close> has the outcome \<open>Exits\<close>; in both
  cases \<open>a0\<close> is not written.
\<close>

section \<open>Processes\<close>

definition sys_exit :: "'a klife_scheme \<Rightarrow> (outcome \<times> 'a klife_scheme) kres" where
  "sys_exit s =
     kbind (argint 0 s) (\<lambda>n.
     kbind (kexit n s) (\<lambda>s. Inr (Exits, s)))"

definition sys_getpid :: "'a klife_scheme \<Rightarrow> (outcome \<times> 'a klife_scheme) kres" where
  "sys_getpid s = kbind (cur s) (\<lambda>p. ret (ppid (procs s p)) s)"

definition sys_fork :: "'a klife_scheme \<Rightarrow> (outcome \<times> 'a klife_scheme) kres" where
  "sys_fork s = kbind (kfork s) (\<lambda>(r, s). ret r s)"

definition sys_wait :: "'a klife_scheme \<Rightarrow> (outcome \<times> 'a klife_scheme) kres" where
  "sys_wait s = kbind (argaddr 0 s) (\<lambda>p. kwait p s)"

abbreviation (input) SBRK_EAGER :: int where "SBRK_EAGER \<equiv> 1"

definition sys_sbrk :: "'a klife_scheme \<Rightarrow> (outcome \<times> 'a klife_scheme) kres" where
  "sys_sbrk s =
     kbind (argint 0 s) (\<lambda>n.
     kbind (argint 1 s) (\<lambda>t.
     kbind (cur s) (\<lambda>p.
     let addr = psz (procs s p)
     in if t = SBRK_EAGER \<or> n < 0
        then kbind (growproc n s) (\<lambda>(r, s). if r < 0 then ret (- 1) s else ret (uint addr) s)
        else if addr + of_int n < addr then ret (- 1) s
        else ret (uint addr) (upd_proc p (\<lambda>q. q\<lparr>psz := psz q + of_int n\<rparr>) s))))"

text \<open>One test of the loop of \<open>sys_pause\<close>, which began at \<open>ticks0\<close>.\<close>

definition pause_test :: "uint32 \<Rightarrow> int \<Rightarrow> 'a klife_scheme \<Rightarrow> (outcome \<times> 'a klife_scheme) kres" where
  "pause_test ticks0 n s =
     (if ticks s - ticks0 < of_int n
      then kbind (cur s) (\<lambda>p. if killed p s then ret (- 1) s else Inr (Wait ChTicks (uint ticks0), s))
      else ret 0 s)"

definition sys_pause :: "'a klife_scheme \<Rightarrow> (outcome \<times> 'a klife_scheme) kres" where
  "sys_pause s = kbind (argint 0 s) (\<lambda>n. pause_test (ticks s) (if n < 0 then 0 else n) s)"

definition sys_kill :: "'a klife_scheme \<Rightarrow> (outcome \<times> 'a klife_scheme) kres" where
  "sys_kill s = kbind (argint 0 s) (\<lambda>pid. let (r, s) = kkill pid s in ret r s)"

definition sys_uptime :: "'a klife_scheme \<Rightarrow> (outcome \<times> 'a klife_scheme) kres" where
  "sys_uptime s = ret (uint (ticks s)) s"

section \<open>The dispatcher\<close>

text \<open>The table of \<open>kernel/syscall.h\<close> numbers; \<open>st0\<close> is what the stack holds where
  \<open>filestat\<close> puts its \<open>struct stat\<close>.\<close>

definition syscalls :: "bytes \<Rightarrow> int \<Rightarrow> ('a klife_scheme \<Rightarrow> (outcome \<times> 'a klife_scheme) kres) option" where
  "syscalls st0 num =
     (if num = 1 then Some sys_fork
      else if num = 2 then Some sys_exit
      else if num = 3 then Some sys_wait
      else if num = 4 then Some sys_pipe
      else if num = 5 then Some sys_read
      else if num = 6 then Some sys_kill
      else if num = 7 then Some sys_exec
      else if num = 8 then Some (sys_fstat st0)
      else if num = 9 then Some sys_chdir
      else if num = 10 then Some sys_dup
      else if num = 11 then Some sys_getpid
      else if num = 12 then Some sys_sbrk
      else if num = 13 then Some sys_pause
      else if num = 14 then Some sys_uptime
      else if num = 15 then Some sys_open
      else if num = 16 then Some sys_write
      else if num = 17 then Some sys_mknod
      else if num = 18 then Some sys_unlink
      else if num = 19 then Some sys_link
      else if num = 20 then Some sys_mkdir
      else if num = 21 then Some sys_close
      else None)"

definition syscall :: "bytes \<Rightarrow> 'a klife_scheme \<Rightarrow> (outcome \<times> 'a klife_scheme) kres" where
  "syscall st0 s =
     kbind (cur s) (\<lambda>p.
     let num = wrap32 (uint (tf_get p tf_a7 s))
     in case (if 0 < num \<and> num < 22 then syscalls st0 num else None) of
          Some f \<Rightarrow>
            kbind (f s) (\<lambda>(out, s).
            Inr (out, case out of Ret r \<Rightarrow> tf_put p tf_a0 (of_int r) s | _ \<Rightarrow> s))
        | None \<Rightarrow> Inr (Ret (- 1), tf_put p tf_a0 (- 1) s))"

end
