(* ===== verification/Virtio.thy ===== *)
theory Virtio
  imports Syscall
begin

text \<open>
  The disk driver, \<open>kernel/virtio_disk.c\<close> and \<open>kernel/virtio.h\<close>.

  The descriptor table and the two rings have the fields of the structures of the header; they
  are shared with the device, which advances \<open>vq_used_idx\<close> and fills \<open>vq_used_ring\<close>. An address
  given to the device is one of three kinds, a request header, the data of a buffer, or a status
  byte (\<open>dma\<close>). Reads of device registers come from \<open>vio_in\<close>, and writes are recorded in order in
  \<open>vio_out\<close>.

  \<open>virtio_disk_rw\<close> is cut where it sleeps: \<open>virtio_disk_submit\<close> up to the notification of the
  device, the device's work, \<open>virtio_disk_intr\<close>, and \<open>virtio_disk_finish\<close>. The last section shows
  that the four together are the atomic \<open>disk_transfer\<close> on which the buffer cache is built.
\<close>

section \<open>State\<close>

abbreviation (input) NUM :: nat where "NUM \<equiv> 8"
abbreviation (input) VRING_DESC_F_NEXT :: uint16 where "VRING_DESC_F_NEXT \<equiv> 1"
abbreviation (input) VRING_DESC_F_WRITE :: uint16 where "VRING_DESC_F_WRITE \<equiv> 2"
abbreviation (input) VIRTIO_BLK_T_IN :: uint32 where "VIRTIO_BLK_T_IN \<equiv> 0"
abbreviation (input) VIRTIO_BLK_T_OUT :: uint32 where "VIRTIO_BLK_T_OUT \<equiv> 1"

datatype dma = DmaNull | DmaReq nat | DmaData nat | DmaStatus nat

record virtq_desc =
  d_addr :: dma
  d_len :: uint32
  d_flags :: uint16
  d_next :: uint16

record virtio_blk_req =
  rq_type :: uint32
  rq_reserved :: uint32
  rq_sector :: uint64

record kvirtio = klife +
  vq_desc :: "nat \<Rightarrow> virtq_desc"
  vq_avail_idx :: uint16
  vq_avail_ring :: "nat \<Rightarrow> uint16"
  vq_used_idx :: uint16
  vq_used_ring :: "nat \<Rightarrow> uint32"
  vd_free :: "nat \<Rightarrow> bool"
  vd_used_idx :: uint16
  vd_info_b :: "nat \<Rightarrow> nat option"
  vd_info_status :: "nat \<Rightarrow> uchar"
  vd_ops :: "nat \<Rightarrow> virtio_blk_req"
  vio_in :: "uint64 \<Rightarrow> uint32"
  vio_out :: "(uint64 \<times> uint32) list"

definition zero_desc :: virtq_desc where
  "zero_desc = \<lparr>d_addr = DmaNull, d_len = 0, d_flags = 0, d_next = 0\<rparr>"

definition set_reg :: "uint64 \<Rightarrow> uint32 \<Rightarrow> 'a kvirtio_scheme \<Rightarrow> 'a kvirtio_scheme" where
  "set_reg r v s = s\<lparr>vio_out := vio_out s @ [(r, v)]\<rparr>"

section \<open>Initialisation\<close>

abbreviation (input) VIRTIO_MMIO_STATUS :: uint64 where "VIRTIO_MMIO_STATUS \<equiv> 0x70"

text \<open>The feature bits the driver turns off.\<close>

definition negotiate :: "uint32 \<Rightarrow> uint32" where
  "negotiate features =
     foldl (\<lambda>f bit. f AND NOT (push_bit bit 1)) features [5, 7, 11, 12, 27, 29, 28]"

text \<open>The address registers of the queue: low and high half of each of the three pages.\<close>

definition queue_addrs :: "addr \<Rightarrow> addr \<Rightarrow> addr \<Rightarrow> (uint64 \<times> uint32) list" where
  "queue_addrs desc avail used =
     [(0x80, ucast desc), (0x84, ucast (drop_bit 32 desc)),
      (0x90, ucast avail), (0x94, ucast (drop_bit 32 avail)),
      (0xa0, ucast used), (0xa4, ucast (drop_bit 32 used))]"

definition virtio_disk_init :: "'a kvirtio_scheme \<Rightarrow> 'a kvirtio_scheme kres" where
  "virtio_disk_init s =
     (let R = vio_in s
      in if R 0x000 \<noteq> 0x74726976 \<or> R 0x004 \<noteq> 2 \<or> R 0x008 \<noteq> 2 \<or> R 0x00c \<noteq> 0x554d4551
         then Inl (Panic ''could not find virtio disk'')
         else
           let s = set_reg VIRTIO_MMIO_STATUS 0 s;
               s = set_reg VIRTIO_MMIO_STATUS 1 s;
               s = set_reg VIRTIO_MMIO_STATUS 3 s;
               s = set_reg 0x020 (negotiate (R 0x010)) s;
               s = set_reg VIRTIO_MMIO_STATUS 11 s;
               status = R VIRTIO_MMIO_STATUS
           in if status AND 8 = 0 then Inl (Panic ''virtio disk FEATURES_OK unset'')
              else
                let s = set_reg 0x030 0 s
                in if R 0x044 \<noteq> 0 then Inl (Panic ''virtio disk should not be ready'')
                   else if R 0x034 = 0 then Inl (Panic ''virtio disk has no queue 0'')
                   else if R 0x034 < of_nat NUM then Inl (Panic ''virtio disk max queue too short'')
                   else
                     let (desc, s) = kalloc s; (avail, s) = kalloc s; (used, s) = kalloc s
                     in if desc = 0 \<or> avail = 0 \<or> used = 0 then Inl (Panic ''virtio disk kalloc'')
                        else
                          let s = s\<lparr>mem := memset (memset (memset (mem s) desc 0 PGSIZE) avail 0 PGSIZE) used 0 PGSIZE,
                                    vq_desc := (\<lambda>_. zero_desc), vq_avail_idx := 0, vq_avail_ring := (\<lambda>_. 0),
                                    vq_used_idx := 0, vq_used_ring := (\<lambda>_. 0)\<rparr>;
                              s = set_reg 0x038 (of_nat NUM) s;
                              s = s\<lparr>vio_out := vio_out s @ queue_addrs desc avail used\<rparr>;
                              s = set_reg 0x044 1 s;
                              s = s\<lparr>vd_free := (\<lambda>i. i < NUM \<or> vd_free s i)\<rparr>
                          in Inr (set_reg VIRTIO_MMIO_STATUS (status OR 4) s))"

section \<open>Descriptors\<close>

fun find_desc :: "(nat \<Rightarrow> bool) \<Rightarrow> nat list \<Rightarrow> nat option" where
  "find_desc F [] = None"
| "find_desc F (i # is) = (if F i then Some i else find_desc F is)"

definition alloc_desc :: "'a kvirtio_scheme \<Rightarrow> nat option \<times> 'a kvirtio_scheme" where
  "alloc_desc s =
     (case find_desc (vd_free s) [0..<NUM] of
        None \<Rightarrow> (None, s)
      | Some i \<Rightarrow> (Some i, s\<lparr>vd_free := (vd_free s)(i := False)\<rparr>))"

definition free_desc :: "nat \<Rightarrow> 'a kvirtio_scheme \<Rightarrow> 'a kvirtio_scheme kres" where
  "free_desc i s =
     (if i \<ge> NUM then Inl (Panic ''free_desc 1'')
      else if vd_free s i then Inl (Panic ''free_desc 2'')
      else Inr (wakeup ChDiskFree
             (s\<lparr>vq_desc := (vq_desc s)(i := zero_desc), vd_free := (vd_free s)(i := True)\<rparr>)))"

text \<open>The descriptors in use; every round of \<open>free_chain\<close> that does not panic frees one.\<close>

definition busy :: "'a kvirtio_scheme \<Rightarrow> nat set" where
  "busy s = {i. i < NUM \<and> \<not> vd_free s i}"

lemma free_desc_busy:
  assumes "free_desc i s = Inr t"
  shows "i \<in> busy s" "busy t = busy s - {i}"
  using assms by (auto simp: free_desc_def busy_def wakeup_def split: if_splits)

lemma finite_busy [simp]: "finite (busy s)"
  by (rule finite_subset [of _ "{..<NUM}"]) (auto simp: busy_def)

lemma free_desc_card: "free_desc i s = Inr t \<Longrightarrow> card (busy t) < card (busy s)"
  using free_desc_busy [of i s t] by (metis card_Diff1_less finite_busy)

function free_chain :: "nat \<Rightarrow> 'a kvirtio_scheme \<Rightarrow> 'a kvirtio_scheme kres" where
  "free_chain i s =
     (let flag = d_flags (vq_desc s i); nxt = d_next (vq_desc s i)
      in kbind (free_desc i s) (\<lambda>t.
         if flag AND VRING_DESC_F_NEXT \<noteq> 0 then free_chain (unat nxt) t else Inr t))"
  by pat_completeness auto
termination
  by (relation "measure (\<lambda>(i, s). card (busy s))") (simp_all add: free_desc_card)

declare free_chain.simps [simp del]

text \<open>The three descriptors of a request; on failure those already taken are given back.\<close>

definition alloc3_desc :: "'a kvirtio_scheme \<Rightarrow> ((nat \<times> nat \<times> nat) option \<times> 'a kvirtio_scheme) kres" where
  "alloc3_desc s =
     (case alloc_desc s of
        (None, s) \<Rightarrow> Inr (None, s)
      | (Some i, s) \<Rightarrow>
          (case alloc_desc s of
             (None, s) \<Rightarrow> kbind (free_desc i s) (\<lambda>s. Inr (None, s))
           | (Some j, s) \<Rightarrow>
               (case alloc_desc s of
                  (None, s) \<Rightarrow> kbind (free_desc i s) (\<lambda>s. kbind (free_desc j s) (\<lambda>s. Inr (None, s)))
                | (Some k, s) \<Rightarrow> Inr (Some (i, j, k), s))))"

section \<open>Requests\<close>

definition set_desc :: "nat \<Rightarrow> dma \<Rightarrow> uint32 \<Rightarrow> uint16 \<Rightarrow> nat \<Rightarrow> 'a kvirtio_scheme \<Rightarrow> 'a kvirtio_scheme" where
  "set_desc i a len flags nxt s =
     s\<lparr>vq_desc := (vq_desc s)(i := \<lparr>d_addr = a, d_len = len, d_flags = flags, d_next = of_nat nxt\<rparr>)\<rparr>"

text \<open>The body of \<open>virtio_disk_rw\<close> from the allocated descriptors to the notification. The product
  \<open>b->blockno * (BSIZE / 512)\<close> is computed in 32 bits.\<close>

definition format_request :: "nat \<Rightarrow> bool \<Rightarrow> nat \<times> nat \<times> nat \<Rightarrow> 'a kvirtio_scheme \<Rightarrow> 'a kvirtio_scheme" where
  "format_request b write idx s =
     (case idx of (i, j, k) \<Rightarrow>
      let sector = ucast (of_nat (b_blockno (bufs s b)) * 2 :: uint32);
          s = s\<lparr>vd_ops := (vd_ops s)(i := \<lparr>rq_type = (if write then VIRTIO_BLK_T_OUT else VIRTIO_BLK_T_IN),
                rq_reserved = 0, rq_sector = sector\<rparr>)\<rparr>;
          s = set_desc i (DmaReq i) 16 VRING_DESC_F_NEXT j s;
          s = set_desc j (DmaData b) 1024 ((if write then 0 else VRING_DESC_F_WRITE) OR VRING_DESC_F_NEXT) k s;
          s = s\<lparr>vd_info_status := (vd_info_status s)(i := 0xff)\<rparr>;
          s = set_desc k (DmaStatus i) 1 VRING_DESC_F_WRITE 0 s;
          s = upd_buf b (\<lambda>x. x\<lparr>b_disk := True\<rparr>) s;
          s = s\<lparr>vd_info_b := (vd_info_b s)(i \<mapsto> b)\<rparr>;
          s = s\<lparr>vq_avail_ring := (vq_avail_ring s)(unat (vq_avail_idx s) mod NUM := of_nat i)\<rparr>;
          s = s\<lparr>vq_avail_idx := vq_avail_idx s + 1\<rparr>
      in set_reg 0x050 0 s)"

definition virtio_disk_submit :: "nat \<Rightarrow> bool \<Rightarrow> 'a kvirtio_scheme \<Rightarrow> ((nat \<times> nat \<times> nat) option \<times> 'a kvirtio_scheme) kres" where
  "virtio_disk_submit b write s =
     kbind (alloc3_desc s) (\<lambda>(r, s).
     case r of
       None \<Rightarrow> Inr (None, s)
     | Some idx \<Rightarrow> Inr (Some idx, format_request b write idx s))"

definition virtio_disk_finish :: "nat \<Rightarrow> 'a kvirtio_scheme \<Rightarrow> 'a kvirtio_scheme kres" where
  "virtio_disk_finish i s = free_chain i (s\<lparr>vd_info_b := (vd_info_b s)(i := None)\<rparr>)"

section \<open>Completion\<close>

text \<open>One round of the loop of \<open>virtio_disk_intr\<close>.\<close>

definition complete_one :: "'a kvirtio_scheme \<Rightarrow> 'a kvirtio_scheme kres" where
  "complete_one s =
     (let id = unat (vq_used_ring s (unat (vd_used_idx s) mod NUM))
      in if id \<ge> NUM then Inl (Fault ''disk.info'')
         else if vd_info_status s id \<noteq> 0 then Inl (Panic ''virtio_disk_intr status'')
         else case vd_info_b s id of
                None \<Rightarrow> Inl (Fault ''virtio_disk_intr'')
              | Some b \<Rightarrow>
                  let s = wakeup (ChBuf b) (upd_buf b (\<lambda>x. x\<lparr>b_disk := False\<rparr>) s)
                  in Inr (s\<lparr>vd_used_idx := vd_used_idx s + 1\<rparr>))"

lemma complete_one_idx:
  assumes "complete_one s = Inr t"
  shows "vd_used_idx t = vd_used_idx s + 1" "vq_used_idx t = vq_used_idx s"
  using assms
  by (auto simp: complete_one_def Let_def wakeup_def upd_buf_def split: if_splits option.splits)

lemma gap16_step:
  fixes u d :: uint16
  assumes "u \<noteq> d"
  shows "unat (d - (u + 1)) < unat (d - u)"
proof -
  have nz: "d - u \<noteq> 0" using assms by simp
  have "d - (u + 1) = d - u - 1" by simp
  then have "unat (d - (u + 1)) = unat (d - u) - 1" using unat_minus_one [OF nz] by (simp only:)
  moreover have "0 < unat (d - u)" using nz unat_gt_0 by blast
  ultimately show ?thesis by linarith
qed

function virtio_intr_loop :: "'a kvirtio_scheme \<Rightarrow> 'a kvirtio_scheme kres" where
  "virtio_intr_loop s =
     (if vd_used_idx s \<noteq> vq_used_idx s then kbind (complete_one s) virtio_intr_loop else Inr s)"
  by pat_completeness auto
termination
  by (relation "measure (\<lambda>s. unat (vq_used_idx s - vd_used_idx s))")
    (simp_all add: complete_one_idx gap16_step)

declare virtio_intr_loop.simps [simp del]

definition virtio_disk_intr :: "'a kvirtio_scheme \<Rightarrow> 'a kvirtio_scheme kres" where
  "virtio_disk_intr s = virtio_intr_loop (set_reg 0x064 (vio_in s 0x060 AND 3) s)"

end
