(* ===== verification/Trap.thy ===== *)
theory Trap
  imports Virtio
begin

text \<open>
  Traps and start-up: \<open>kernel/trap.c\<close>, \<open>kernel/plic.c\<close>, \<open>kernel/start.c\<close>, \<open>kernel/main.c\<close>, and
  the parts of \<open>kernel/proc.c\<close> that return to user space.

  The control registers of the hart are fields; \<open>csr_sepc\<close>, \<open>csr_scause\<close> and \<open>csr_stval\<close> are
  what the hardware left there at the trap, and \<open>csr_time\<close> is the time read. Interrupts
  taken while a handler runs are not part of its step. PLIC registers are read from \<open>plic_in\<close>
  and writes recorded in \<open>plic_out\<close>. The \<open>sym_\<close> fields are addresses of code, which the linker
  chooses.

  A trap from user space ends in one of four ways: back in user space with a page table for
  \<open>satp\<close>, asleep in a system call, gone for good, or off the CPU after a timer interrupt, in which
  case \<open>usertrap_return\<close> is what remains to be done when the process is scheduled again.
\<close>

section \<open>State\<close>

record ktrap = kvirtio +
  csr_sstatus :: uint64
  csr_sepc :: uint64
  csr_scause :: uint64
  csr_stval :: uint64
  csr_stvec :: uint64
  csr_satp :: uint64
  csr_time :: uint64
  csr_stimecmp :: uint64
  plic_in :: "uint64 \<Rightarrow> uint32"
  plic_out :: "(uint64 \<times> uint32) list"
  sym_kernelvec :: uint64
  sym_uservec :: uint64
  sym_userret :: uint64
  sym_usertrap :: uint64
  kernel_pagetable :: addr
  started :: bool
  first_ret :: bool

datatype trap_out = ToUser uint64 | Asleep chan int | Gone | Preempted

section \<open>kernel/plic.c\<close>

definition PLIC_SENABLE :: "nat \<Rightarrow> uint64" where
  "PLIC_SENABLE h = PLIC + 0x2080 + of_nat h * 0x100"

definition PLIC_SPRIORITY :: "nat \<Rightarrow> uint64" where
  "PLIC_SPRIORITY h = PLIC + 0x201000 + of_nat h * 0x2000"

definition PLIC_SCLAIM :: "nat \<Rightarrow> uint64" where
  "PLIC_SCLAIM h = PLIC + 0x201004 + of_nat h * 0x2000"

definition plic_set :: "uint64 \<Rightarrow> uint32 \<Rightarrow> 'a ktrap_scheme \<Rightarrow> 'a ktrap_scheme" where
  "plic_set r v s = s\<lparr>plic_out := plic_out s @ [(r, v)]\<rparr>"

definition plicinit :: "'a ktrap_scheme \<Rightarrow> 'a ktrap_scheme" where
  "plicinit s = plic_set (PLIC + of_nat VIRTIO0_IRQ * 4) 1 (plic_set (PLIC + of_nat UART0_IRQ * 4) 1 s)"

definition plicinithart :: "'a ktrap_scheme \<Rightarrow> 'a ktrap_scheme" where
  "plicinithart s =
     plic_set (PLIC_SPRIORITY (cpuid s)) 0
       (plic_set (PLIC_SENABLE (cpuid s)) (push_bit UART0_IRQ 1 OR push_bit VIRTIO0_IRQ 1) s)"

definition plic_claim :: "'a ktrap_scheme \<Rightarrow> int" where
  "plic_claim s = wrap32 (uint (plic_in s (PLIC_SCLAIM (cpuid s))))"

definition plic_complete :: "int \<Rightarrow> 'a ktrap_scheme \<Rightarrow> 'a ktrap_scheme" where
  "plic_complete irq s = plic_set (PLIC_SCLAIM (cpuid s)) (of_int irq) s"

section \<open>Device interrupts\<close>

definition trapinithart :: "'a ktrap_scheme \<Rightarrow> 'a ktrap_scheme" where
  "trapinithart s = s\<lparr>csr_stvec := sym_kernelvec s\<rparr>"

definition clockintr :: "'a ktrap_scheme \<Rightarrow> 'a ktrap_scheme" where
  "clockintr s =
     (let s = (if cpuid s = 0 then wakeup ChTicks (s\<lparr>ticks := ticks s + 1\<rparr>) else s)
      in s\<lparr>csr_stimecmp := csr_time s + 1000000\<rparr>)"

definition devintr :: "'a ktrap_scheme \<Rightarrow> (int \<times> 'a ktrap_scheme) kres" where
  "devintr s =
     (if csr_scause s = 0x8000000000000009
      then let irq = plic_claim s
           in kbind (if irq = int UART0_IRQ then uartintr s
                     else if irq = int VIRTIO0_IRQ then virtio_disk_intr s
                     else Inr s) (\<lambda>s.
              Inr (1, if irq \<noteq> 0 then plic_complete irq s else s))
      else if csr_scause s = 0x8000000000000005 then Inr (2, clockintr s)
      else Inr (0, s))"

section \<open>Traps from user space\<close>

definition prepare_return :: "'a ktrap_scheme \<Rightarrow> 'a ktrap_scheme kres" where
  "prepare_return s =
     kbind (cur s) (\<lambda>p.
     let s = s\<lparr>csr_sstatus := intr_off (csr_sstatus s)\<rparr>;
         s = s\<lparr>csr_stvec := TRAMPOLINE + (sym_uservec s - sym_trampoline s)\<rparr>;
         s = tf_put p tf_kernel_satp (csr_satp s) s;
         s = tf_put p tf_kernel_sp (pkstack (procs s p) + PGSIZE) s;
         s = tf_put p tf_kernel_trap (sym_usertrap s) s;
         s = tf_put p tf_kernel_hartid (of_nat (hart s)) s;
         x = csr_sstatus s AND NOT SSTATUS_SPP;
         x = x OR SSTATUS_SPIE
     in Inr (s\<lparr>csr_sstatus := x, csr_sepc := tf_get p tf_epc s\<rparr>))"

definition usertrap_return :: "'a ktrap_scheme \<Rightarrow> (trap_out \<times> 'a ktrap_scheme) kres" where
  "usertrap_return s =
     kbind (cur s) (\<lambda>p.
     kbind (prepare_return s) (\<lambda>s.
     Inr (ToUser (MAKE_SATP (ppagetable (procs s p))), s)))"

definition exit_killed :: "'a ktrap_scheme \<Rightarrow> (trap_out \<times> 'a ktrap_scheme) kres" where
  "exit_killed s = kbind (kexit (- 1) s) (\<lambda>s. Inr (Gone, s))"

definition usertrap_tail :: "int \<Rightarrow> 'a ktrap_scheme \<Rightarrow> (trap_out \<times> 'a ktrap_scheme) kres" where
  "usertrap_tail which_dev s =
     kbind (cur s) (\<lambda>p.
     if killed p s then exit_killed s
     else if which_dev = 2 then kbind (yield_enter s) (\<lambda>s. Inr (Preempted, s))
     else usertrap_return s)"

definition usertrap :: "bytes \<Rightarrow> 'a ktrap_scheme \<Rightarrow> (trap_out \<times> 'a ktrap_scheme) kres" where
  "usertrap st0 s =
     (if csr_sstatus s AND SSTATUS_SPP \<noteq> 0 then Inl (Panic ''usertrap: not from user mode'')
      else
        let s = s\<lparr>csr_stvec := sym_kernelvec s\<rparr>
        in kbind (cur s) (\<lambda>p.
           let s = tf_put p tf_epc (csr_sepc s) s
           in if csr_scause s = 8
              then if killed p s then exit_killed s
                   else
                     let s = tf_put p tf_epc (tf_get p tf_epc s + 4) s;
                         s = s\<lparr>csr_sstatus := intr_on (csr_sstatus s)\<rparr>
                     in kbind (syscall st0 s) (\<lambda>(out, s).
                        case out of
                          Ret r \<Rightarrow> usertrap_tail 0 s
                        | Wait c i \<Rightarrow> Inr (Asleep c i, s)
                        | Exits \<Rightarrow> Inr (Gone, s))
              else kbind (devintr s) (\<lambda>(which_dev, s).
                   if which_dev \<noteq> 0 then usertrap_tail which_dev s
                   else if csr_scause s = 15 \<or> csr_scause s = 13
                   then kbind (vmfault (ppagetable (procs s p)) (csr_stval s) s) (\<lambda>(r, s).
                        usertrap_tail 0 (if r \<noteq> 0 then s else setkilled p s))
                   else usertrap_tail 0 (setkilled p s))))"

section \<open>Traps from the kernel\<close>

text \<open>Up to the point where \<open>yield\<close> gives up the CPU, if it does, and the registers restored
  at the end.\<close>

definition kerneltrap_return :: "uint64 \<Rightarrow> uint64 \<Rightarrow> 'a ktrap_scheme \<Rightarrow> 'a ktrap_scheme" where
  "kerneltrap_return sepc sstatus s = s\<lparr>csr_sepc := sepc, csr_sstatus := sstatus\<rparr>"

definition kerneltrap :: "'a ktrap_scheme \<Rightarrow> (bool \<times> 'a ktrap_scheme) kres" where
  "kerneltrap s =
     (let sepc = csr_sepc s; sstatus = csr_sstatus s
      in if sstatus AND SSTATUS_SPP = 0 then Inl (Panic ''kerneltrap: not from supervisor mode'')
         else if intr_get (csr_sstatus s) then Inl (Panic ''kerneltrap: interrupts enabled'')
         else kbind (devintr s) (\<lambda>(which_dev, s).
              if which_dev = 0 then Inl (Panic ''kerneltrap'')
              else if which_dev = 2 \<and> myproc s \<noteq> None then kbind (yield_enter s) (\<lambda>s. Inr (True, s))
              else Inr (False, kerneltrap_return sepc sstatus s)))"

section \<open>The first return of a process\<close>

definition init_path :: "uchar list" where
  "init_path = [47, 105, 110, 105, 116]"

text \<open>The address jumped to, with the argument it is given.\<close>

definition forkret :: "'a ktrap_scheme \<Rightarrow> (uint64 \<times> uint64 \<times> 'a ktrap_scheme) kres" where
  "forkret s =
     kbind (cur s) (\<lambda>p.
     kbind (if first_ret s
            then kbind (fsinit ROOTDEV s) (\<lambda>s.
                 let s = s\<lparr>first_ret := False\<rparr>
                 in kbind (kexec init_path [init_path] s) (\<lambda>(r, s).
                    let s = tf_put p tf_a0 (of_int r) s
                    in if tf_get p tf_a0 s = - 1 then Inl (Panic ''exec'') else Inr s))
            else Inr s) (\<lambda>s.
     kbind (prepare_return s) (\<lambda>s.
     Inr (TRAMPOLINE + (sym_userret s - sym_trampoline s), MAKE_SATP (ppagetable (procs s p)), s))))"

section \<open>Start-up\<close>

record machine_regs =
  m_mstatus :: uint64
  m_mepc :: uint64
  m_satp :: uint64
  m_medeleg :: uint64
  m_mideleg :: uint64
  m_sie :: uint64
  m_pmpaddr0 :: uint64
  m_pmpcfg0 :: uint64
  m_mie :: uint64
  m_menvcfg :: uint64
  m_mcounteren :: uint64
  m_stimecmp :: uint64
  m_time :: uint64
  m_mhartid :: uint64
  m_tp :: uint64

definition timerinit :: "machine_regs \<Rightarrow> machine_regs" where
  "timerinit m =
     (let m = m\<lparr>m_mie := m_mie m OR 0x20\<rparr>;
          m = m\<lparr>m_menvcfg := m_menvcfg m OR push_bit 63 1\<rparr>;
          m = m\<lparr>m_mcounteren := m_mcounteren m OR 2\<rparr>
      in m\<lparr>m_stimecmp := m_time m + 1000000\<rparr>)"

text \<open>\<open>start\<close> up to \<open>mret\<close>; \<open>id\<close> is an \<open>int\<close>, so the hart number is cut to 32 bits.\<close>

definition start :: "uint64 \<Rightarrow> machine_regs \<Rightarrow> machine_regs" where
  "start sym_main m =
     (let x = m_mstatus m AND NOT (push_bit 11 3);
          x = x OR push_bit 11 1;
          m = m\<lparr>m_mstatus := x\<rparr>;
          m = m\<lparr>m_mepc := sym_main\<rparr>;
          m = m\<lparr>m_satp := 0\<rparr>;
          m = m\<lparr>m_medeleg := 0xffff\<rparr>;
          m = m\<lparr>m_mideleg := 0xffff\<rparr>;
          m = m\<lparr>m_sie := m_sie m OR 0x200 OR 0x20\<rparr>;
          m = m\<lparr>m_pmpaddr0 := 0x3fffffffffffff\<rparr>;
          m = m\<lparr>m_pmpcfg0 := 0xf\<rparr>;
          m = timerinit m
      in m\<lparr>m_tp := of_int (wrap32 (uint (m_mhartid m)))\<rparr>)"

definition kvminit :: "'a ktrap_scheme \<Rightarrow> 'a ktrap_scheme kres" where
  "kvminit s = kbind (kvmmake s) (\<lambda>(k, s). Inr (s\<lparr>kernel_pagetable := k\<rparr>))"

definition kvminithart :: "'a ktrap_scheme \<Rightarrow> 'a ktrap_scheme" where
  "kvminithart s = s\<lparr>csr_satp := MAKE_SATP (kernel_pagetable s)\<rparr>"

text \<open>\<open>main\<close> up to the call of \<open>scheduler\<close>. The initialisations that only set up a spinlock
  (\<open>printfinit\<close>, \<open>trapinit\<close>, \<open>fileinit\<close>) leave nothing in this state. A hart other than the
  first spins until \<open>started\<close> is set.\<close>

definition main :: "'a ktrap_scheme \<Rightarrow> 'a ktrap_scheme kres" where
  "main s =
     (if cpuid s = 0
      then let s = consoleinit s
           in kbind (kinit s) (\<lambda>s.
              kbind (kvminit s) (\<lambda>s.
              let s = kvminithart s;
                  s = procinit s;
                  s = trapinithart s;
                  s = plicinit s;
                  s = plicinithart s;
                  s = binit s;
                  s = iinit s
              in kbind (virtio_disk_init s) (\<lambda>s.
                 kbind (userinit s) (\<lambda>s.
                 Inr (s\<lparr>started := True\<rparr>)))))
      else if \<not> started s then Inl Hangs
      else Inr (plicinithart (trapinithart (kvminithart s))))"

end
