(* ===== verification/Boot.thy ===== *)
theory Boot
  imports Trap Fs_Blocks User_Memory
begin

text \<open>
  A concrete state of the whole kernel: one process running, an empty cache and a clean log, the
  disk of \<open>boot_fs\<close>, an empty file table, an idle console and disk driver. It is the state at
  which the theories that follow instantiate their theorems.
\<close>

definition free_file :: kfile where
  "free_file = \<lparr>f_type = FD_NONE, f_ref = 0, f_readable = False, f_writable = False, f_pipe = 0, f_ip = 0, f_off = 0, f_major = 0\<rparr>"

definition empty_pipe :: pipe where
  "empty_pipe = \<lparr>pi_data = (\<lambda>_. 0), pi_nread = 0, pi_nwrite = 0, pi_readopen = True, pi_writeopen = True\<rparr>"

definition boot_proc :: proc where
  "boot_proc = zero_proc\<lparr>pstate := RUNNING, ppid := 1, psz := 8192, ppagetable := 0x80025000, ptrapframe := 0x80026000,
     pkstack := KSTACK 0, pcwd := Some 0\<rparr>"

definition boot_kernel :: ktrap where
  "boot_kernel = binit \<lparr>sym_end = 0x80020000, sym_etext = 0x80008000, sym_trampoline = 0x80007000, mem = (\<lambda>_. 0), freelist = 0,
     procs = (\<lambda>_. zero_proc)(0 := boot_proc), cpu_proc = (\<lambda>_. None)(0 := Some 0), hart = 0, nextpid = 2, initproc = Some 0, ticks = 0,
     bufs = (\<lambda>_. zero_buf), disk = boot_disk, dtrace = [], log_start = 2, log_dev = ROOTDEV, log_outstanding = 1,
     log_committing = False, lh_n = 0, lh_block = (\<lambda>_. 0), sb = boot_sb, itable = (\<lambda>_. zero_inode),
     ftable = (\<lambda>_. free_file), pipes = (\<lambda>_. empty_pipe),
     uart_in = [], uart_out = [], uart_idle = True, uart_regs = [], tx_busy = False, panicking = False, panicked = False,
     cons_buf = (\<lambda>_. 0), cons_r = 0, cons_w = 0, cons_e = 0, dev_read = (\<lambda>d. d = CONSOLE), dev_write = (\<lambda>d. d = CONSOLE),
     sym_forkret = 0x80001000,
     vq_desc = (\<lambda>_. zero_desc), vq_avail_idx = 0, vq_avail_ring = (\<lambda>_. 0), vq_used_idx = 0, vq_used_ring = (\<lambda>_. 0),
     vd_free = (\<lambda>i. i < NUM), vd_used_idx = 0, vd_info_b = (\<lambda>_. None), vd_info_status = (\<lambda>_. 0),
     vd_ops = (\<lambda>_. \<lparr>rq_type = 0, rq_reserved = 0, rq_sector = 0\<rparr>), vio_in = (\<lambda>_. 0), vio_out = [],
     csr_sstatus = 0, csr_sepc = 0x1000, csr_scause = 8, csr_stval = 0, csr_stvec = 0, csr_satp = MAKE_SATP 0x80030000, csr_time = 0,
     csr_stimecmp = 0, plic_in = (\<lambda>_. 0), plic_out = [], sym_kernelvec = 0x80002000, sym_uservec = 0x80007000,
     sym_userret = 0x80007090, sym_usertrap = 0x80003000, kernel_pagetable = 0x80030000, started = True, first_ret = False\<rparr>"

lemma binit_frame [simp]:
  "procs (binit s) = procs s" "cpu_proc (binit s) = cpu_proc s" "hart (binit s) = hart s" "mem (binit s) = mem s"
  "freelist (binit s) = freelist s" "sym_end (binit s) = sym_end s" "disk (binit s) = disk s" "ticks (binit s) = ticks s"
  "initproc (binit s) = initproc s"
  by (simp_all add: binit_def)

lemma boot_kernel_proc [simp]:
  "procs boot_kernel = (\<lambda>_. zero_proc)(0 := boot_proc)" "cpu_proc boot_kernel = (\<lambda>_. None)(0 := Some 0)" "hart boot_kernel = 0"
  "cur boot_kernel = Inr 0" "myproc boot_kernel = Some 0" "initproc boot_kernel = Some 0" "ticks boot_kernel = 0"
  by (simp_all add: boot_kernel_def cur_def myproc_def cpuid_def)

lemma boot_kernel_mem [simp]:
  "mem boot_kernel = (\<lambda>_. 0)" "freelist boot_kernel = 0" "sym_end boot_kernel = 0x80020000" "disk boot_kernel = boot_disk"
  by (simp_all add: boot_kernel_def)

lemma wakeup_procs:
  "myproc t = myproc s \<Longrightarrow> procs t = procs s \<Longrightarrow> procs (wakeup c t) = procs (wakeup c s)"
  by (simp add: wakeup_def cong: if_cong)

section \<open>The same machine with a page of user memory\<close>

text \<open>What the running process sees of its memory depends only on the memory and the free list.\<close>

lemma umem_cong:
  fixes s :: "'a kmem_scheme" and t :: "'b kmem_scheme"
  assumes "mem t = mem s"
  shows "user_pte t pt v = user_pte s pt v" "user_pa t pt v = user_pa s pt v" "umem t pt v = umem s pt v" "writable t pt v = writable s pt v"
  using assms by (simp_all add: user_pte_def user_pa_def umem_def writable_def)

lemma as_inv_cong:
  fixes s :: "'a kmem_scheme" and t :: "'b kmem_scheme"
  assumes "mem t = mem s" and "freelist t = freelist s" and "sym_end t = sym_end s"
  shows "as_inv t pt S ps = as_inv s pt S ps"
  using assms by (simp add: as_inv_def pt_inv_def kmem_inv_def page_ok_def umem_cong [OF assms(1)])

lemma boot_user:
  obtains m f S ps where "as_inv (boot_kernel\<lparr>mem := m, freelist := f\<rparr>) 0x80025000 S ps"
    "\<forall>v<4096. writable (boot_kernel\<lparr>mem := m, freelist := f\<rparr>) 0x80025000 v \<and>
       umem (boot_kernel\<lparr>mem := m, freelist := f\<rparr>) 0x80025000 v = Some 0"
proof -
  obtain s :: kproc and ps where s: "mem_only vm_boot s" "as_inv s 0x80025000 {0x80025000} ps" "length ps = 4"
    "\<forall>w. pt_get 2 (mem s) 0x80025000 w = 0"
    by (rule vm_ready)
  note c = vm_ready_cur [OF s(1)]
  have "must (vmfault 0x80025000 100 s) (\<lambda>(r, t). mem_only s t \<and> (\<exists>S' ps'. as_inv t 0x80025000 S' ps' \<and>
    (if r = 0 then length ps \<le> 3 \<and> (\<forall>w. umem t 0x80025000 w = umem s 0x80025000 w)
     else \<forall>w<MAXVA. umem t 0x80025000 w = (if PGROUNDDOWN w = PGROUNDDOWN 100 then Some 0 else umem s 0x80025000 w) \<and>
       (PGROUNDDOWN w = PGROUNDDOWN 100 \<longrightarrow> writable t 0x80025000 w))))"
    by (rule vmfault_ok [OF s(2) c(1,2)]) (use c(3) s(4) in simp_all)
  then obtain r :: uint64 and t :: kproc and S' ps' where t: "mem_only s t" "as_inv t 0x80025000 S' ps'"
    "if r = 0 then length ps \<le> 3 \<and> (\<forall>w. umem t 0x80025000 w = umem s 0x80025000 w)
     else \<forall>w<MAXVA. umem t 0x80025000 w = (if PGROUNDDOWN w = PGROUNDDOWN 100 then Some 0 else umem s 0x80025000 w) \<and>
       (PGROUNDDOWN w = PGROUNDDOWN 100 \<longrightarrow> writable t 0x80025000 w)"
    unfolding must_iff split_paired_Ex prod.case by blast
  have r: "r \<noteq> 0" using t(3) s(3) by (auto split: if_splits)
  let ?k = "boot_kernel\<lparr>mem := mem t, freelist := freelist t\<rparr>"
  note m = mem_only_trans [OF s(1) t(1), unfolded mem_only_def]
  have e: "sym_end ?k = sym_end t" using arg_cong [OF m, of sym_end] by (simp add: vm_boot_def)
  have p: "PGROUNDDOWN v = PGROUNDDOWN 100 \<and> v < MAXVA" if "v < 4096" for v
    using that by (simp add: word_unat_eq_iff unat_PGROUNDDOWN word_less_nat_alt)
  have "\<forall>w<MAXVA. umem t 0x80025000 w = (if PGROUNDDOWN w = PGROUNDDOWN 100 then Some 0 else umem s 0x80025000 w) \<and>
       (PGROUNDDOWN w = PGROUNDDOWN 100 \<longrightarrow> writable t 0x80025000 w)" using t(3) r by (simp only: if_False)
  then have "\<forall>v<4096. writable t 0x80025000 v \<and> umem t 0x80025000 v = Some 0" using p by (metis (no_types))
  then have "\<forall>v<4096. writable ?k 0x80025000 v \<and> umem ?k 0x80025000 v = Some 0" 
    using umem_cong [of ?k t] by simp
  then show thesis using that [of "freelist t" "mem t" S' ps'] t(2) as_inv_cong [of ?k t] e by simp
qed

end
