(* ===== verification/Virtio_Disk.thy ===== *)
theory Virtio_Disk
  imports Boot
begin

text \<open>
  What the disk driver guarantees: descriptors are neither lost nor used twice, freeing a chain
  and handling an interrupt terminate, and a request that is submitted, served by the device,
  completed by the interrupt and finished is the atomic transfer that the buffer cache assumes.

  The device is not part of the program. It enters as a function on the state, with the behaviour
  the virtio specification gives a block device as a hypothesis.
\<close>

section \<open>Descriptors\<close>

definition free_descs :: "'a kvirtio_scheme \<Rightarrow> nat set" where
  "free_descs s = {i. i < NUM \<and> vd_free s i}"

lemma find_desc_Some: "find_desc F xs = Some i \<Longrightarrow> i \<in> set xs \<and> F i"
  by (induction xs) (auto split: if_splits)

lemma find_desc_None: "find_desc F xs = None \<Longrightarrow> i \<in> set xs \<Longrightarrow> \<not> F i"
  by (induction xs) (auto split: if_splits)

lemma finite_free_descs [simp]: "finite (free_descs s)"
  by (rule finite_subset [of _ "{..<NUM}"]) (auto simp: free_descs_def)

lemma alloc_desc_cases:
  obtains (none) "free_descs s = {}" "alloc_desc s = (None, s)"
    | (some) i where "i \<in> free_descs s" "alloc_desc s = (Some i, s\<lparr>vd_free := (vd_free s)(i := False)\<rparr>)"
      "free_descs (s\<lparr>vd_free := (vd_free s)(i := False)\<rparr>) = free_descs s - {i}"
proof (cases "find_desc (vd_free s) [0..<NUM]")
  case None
  then have "free_descs s = {}" using find_desc_None [OF None] by (auto simp: free_descs_def)
  then show thesis using none None by (simp add: alloc_desc_def)
next
  case (Some i)
  then have "i \<in> free_descs s" using find_desc_Some [OF Some] by (simp add: free_descs_def)
  moreover have "free_descs (s\<lparr>vd_free := (vd_free s)(i := False)\<rparr>) = free_descs s - {i}" by (auto simp: free_descs_def)
  ultimately show thesis using some [of i] Some by (simp add: alloc_desc_def)
qed

text \<open>\<open>alloc3_desc\<close> takes three descriptors or none.\<close>

lemma alloc3_ok:
  assumes "3 \<le> card (free_descs s)"
  obtains i j k where "alloc3_desc s = Inr (Some (i, j, k), s\<lparr>vd_free := (vd_free s)(i := False, j := False, k := False)\<rparr>)"
    "distinct [i, j, k]" "{i, j, k} \<subseteq> free_descs s"
proof -
  let ?off = "\<lambda>i s. s\<lparr>vd_free := (vd_free s)(i := False)\<rparr>"
  obtain i where i: "i \<in> free_descs s" "alloc_desc s = (Some i, ?off i s)" "free_descs (?off i s) = free_descs s - {i}"
    using assms by (cases s rule: alloc_desc_cases) auto
  then have c1: "2 \<le> card (free_descs (?off i s))" using assms by (simp add: card_Diff_singleton)
  obtain j where j: "j \<in> free_descs (?off i s)" "alloc_desc (?off i s) = (Some j, ?off j (?off i s))"
    "free_descs (?off j (?off i s)) = free_descs (?off i s) - {j}"
    using c1 by (cases "?off i s" rule: alloc_desc_cases) auto
  then have c2: "1 \<le> card (free_descs (?off j (?off i s)))" using c1 by (simp add: card_Diff_singleton)
  obtain k where k: "k \<in> free_descs (?off j (?off i s))" "alloc_desc (?off j (?off i s)) = (Some k, ?off k (?off j (?off i s)))"
    using c2 by (cases "?off j (?off i s)" rule: alloc_desc_cases) auto
  have "alloc3_desc s = Inr (Some (i, j, k), s\<lparr>vd_free := (vd_free s)(i := False, j := False, k := False)\<rparr>)"
    using i(2) j(2) k(2) by (simp add: alloc3_desc_def)
  then show thesis using that [of i j k] i(1,3) j(1,3) k(1) by auto
qed

section \<open>The device\<close>

text \<open>The request whose chain of descriptors starts at \<open>i\<close>.\<close>

definition chain_ok :: "nat \<Rightarrow> nat \<Rightarrow> 'a kvirtio_scheme \<Rightarrow> bool" where
  "chain_ok i b s \<longleftrightarrow> (let j = unat (d_next (vq_desc s i)); k = unat (d_next (vq_desc s j)) in
     d_addr (vq_desc s i) = DmaReq i \<and> d_len (vq_desc s i) = 16 \<and> d_flags (vq_desc s i) = VRING_DESC_F_NEXT \<and>
     d_addr (vq_desc s j) = DmaData b \<and> d_len (vq_desc s j) = 1024 \<and>
     d_flags (vq_desc s j) = (if rq_type (vd_ops s i) = VIRTIO_BLK_T_OUT then VRING_DESC_F_NEXT else VRING_DESC_F_WRITE OR VRING_DESC_F_NEXT) \<and>
     d_addr (vq_desc s k) = DmaStatus i \<and> d_len (vq_desc s k) = 1 \<and> d_flags (vq_desc s k) = VRING_DESC_F_WRITE)"

text \<open>What serving it does: 1024 bytes are two sectors, one block of the file system.\<close>

definition serve :: "nat \<Rightarrow> nat \<Rightarrow> 'a kvirtio_scheme \<Rightarrow> 'a kvirtio_scheme" where
  "serve i b s =
     (let n = unat (rq_sector (vd_ops s i)) div 2; d = b_data (bufs s b);
          s = (if rq_type (vd_ops s i) = VIRTIO_BLK_T_OUT then s\<lparr>disk := (disk s)(n := d), dtrace := dtrace s @ [(n, d)]\<rparr>
               else upd_buf b (\<lambda>x. x\<lparr>b_data := disk s n\<rparr>) s)
      in s\<lparr>vd_info_status := (vd_info_status s)(i := 0),
           vq_used_ring := (vq_used_ring s)(unat (vq_used_idx s) mod NUM := of_nat i), vq_used_idx := vq_used_idx s + 1\<rparr>)"

definition virtio_device :: "('a kvirtio_scheme \<Rightarrow> 'a kvirtio_scheme) \<Rightarrow> bool" where
  "virtio_device dev \<longleftrightarrow> (\<forall>s i b. i < NUM \<longrightarrow> vq_avail_ring s (unat (vq_avail_idx s - 1) mod NUM) = of_nat i \<longrightarrow>
     chain_ok i b s \<longrightarrow> dev s = serve i b s)"

text \<open>A device that looks only at the memory it is given meets it.\<close>

definition simple_device :: "'a kvirtio_scheme \<Rightarrow> 'a kvirtio_scheme" where
  "simple_device s =
     (let i = unat (vq_avail_ring s (unat (vq_avail_idx s - 1) mod NUM))
      in case d_addr (vq_desc s (unat (d_next (vq_desc s i)))) of DmaData b \<Rightarrow> serve i b s | _ \<Rightarrow> s)"

lemma simple_device_ok: "virtio_device simple_device"
  unfolding virtio_device_def
proof (intro allI impI)
  fix s :: "'a kvirtio_scheme" and i b
  assume a: "i < NUM" "vq_avail_ring s (unat (vq_avail_idx s - 1) mod NUM) = of_nat i" "chain_ok i b s"
  have "unat (of_nat i :: uint16) = i" using a(1) by (simp add: unat_of_nat)
  then show "simple_device s = serve i b s" using a(2,3) by (simp add: simple_device_def chain_ok_def Let_def)
qed

section \<open>Interrupt and release\<close>

lemma wakeup_virtio [simp]:
  fixes s :: "'a kvirtio_scheme"
  shows "bufs (wakeup c s) = bufs s" "disk (wakeup c s) = disk s" "dtrace (wakeup c s) = dtrace s"
    "vq_desc (wakeup c s) = vq_desc s" "vd_free (wakeup c s) = vd_free s" "vd_info_b (wakeup c s) = vd_info_b s"
    "vd_info_status (wakeup c s) = vd_info_status s" "vq_used_idx (wakeup c s) = vq_used_idx s"
    "vd_used_idx (wakeup c s) = vd_used_idx s" "vq_used_ring (wakeup c s) = vq_used_ring s" "myproc (wakeup c s) = myproc s"
  by (simp_all add: wakeup_def myproc_def cpuid_def)

lemma intr_one:
  fixes s :: "'a kvirtio_scheme"
  assumes "vq_used_idx s = vd_used_idx s + 1" and "vq_used_ring s (unat (vd_used_idx s) mod NUM) = of_nat i" and "i < NUM"
    and "vd_info_status s i = 0" and "vd_info_b s i = Some b"
  obtains t where "virtio_disk_intr s = Inr t" "bufs t = (bufs s)(b := (bufs s b)\<lparr>b_disk := False\<rparr>)" "disk t = disk s"
    "dtrace t = dtrace s" "vq_desc t = vq_desc s" "vd_free t = vd_free s" "vd_info_b t = vd_info_b s" "vq_used_idx t = vq_used_idx s"
    "vd_used_idx t = vq_used_idx s" "procs t = procs (wakeup (ChBuf b) s)"
proof -
  let ?s = "set_reg 0x064 (vio_in s 0x060 AND 3) s"
  let ?u = "wakeup (ChBuf b) (upd_buf b (\<lambda>x. x\<lparr>b_disk := False\<rparr>) ?s)"
  let ?t = "?u\<lparr>vd_used_idx := vd_used_idx s + 1\<rparr>"
  have "unat (of_nat i :: uint32) = i" using assms(3) by (simp add: unat_of_nat)
  then have c: "complete_one ?s = Inr ?t"
    using assms by (simp add: complete_one_def Let_def set_reg_def upd_buf_def)
  have "virtio_disk_intr s = kbind (complete_one ?s) virtio_intr_loop"
    unfolding virtio_disk_intr_def by (subst virtio_intr_loop.simps) (simp add: assms(1) set_reg_def)
  also have "\<dots> = Inr ?t" unfolding c kbind_Inr
    by (subst virtio_intr_loop.simps) (simp add: assms(1) set_reg_def upd_buf_def)
  finally have "virtio_disk_intr s = Inr ?t" .
  moreover have "procs ?t = procs (wakeup (ChBuf b) s)"
    using wakeup_procs [of "upd_buf b (\<lambda>x. x\<lparr>b_disk := False\<rparr>) ?s" s "ChBuf b"]
    by (simp add: upd_buf_def set_reg_def myproc_def cpuid_def)
  ultimately show thesis using that [of ?t] assms(1) by (simp add: upd_buf_def set_reg_def)
qed

lemma free_one:
  assumes "i < NUM" and "\<not> vd_free s i"
  obtains t where "free_desc i s = Inr t" "vq_desc t = (vq_desc s)(i := zero_desc)" "vd_free t = (vd_free s)(i := True)"
    "bufs t = bufs s" "disk t = disk s" "dtrace t = dtrace s" "vd_info_b t = vd_info_b s" "vq_used_idx t = vq_used_idx s"
    "vd_used_idx t = vd_used_idx s"
  using assms that by (simp add: free_desc_def)

lemma free_chain_three:
  fixes s :: "'a kvirtio_scheme"
  assumes d: "distinct [i, j, k]" and l: "i < NUM" "j < NUM" "k < NUM" and f: "\<not> vd_free s i" "\<not> vd_free s j" "\<not> vd_free s k"
    and di: "d_flags (vq_desc s i) = VRING_DESC_F_NEXT" "d_next (vq_desc s i) = of_nat j"
    and dj: "d_flags (vq_desc s j) AND VRING_DESC_F_NEXT \<noteq> 0" "d_next (vq_desc s j) = of_nat k"
    and dk: "d_flags (vq_desc s k) = VRING_DESC_F_WRITE"
  obtains t where "free_chain i s = Inr t" "vd_free t = (vd_free s)(i := True, j := True, k := True)" "bufs t = bufs s" "disk t = disk s"
    "dtrace t = dtrace s" "vd_info_b t = vd_info_b s" "vq_used_idx t = vq_used_idx s" "vd_used_idx t = vd_used_idx s"
proof -
  have u: "unat (of_nat j :: uint16) = j" "unat (of_nat k :: uint16) = k" using l by (simp_all add: unat_of_nat)
  obtain s1 where s1: "free_desc i s = Inr s1" "vq_desc s1 = (vq_desc s)(i := zero_desc)" "vd_free s1 = (vd_free s)(i := True)"
    "bufs s1 = bufs s" "disk s1 = disk s" "dtrace s1 = dtrace s" "vd_info_b s1 = vd_info_b s" "vq_used_idx s1 = vq_used_idx s"
    "vd_used_idx s1 = vd_used_idx s" by (rule free_one [OF l(1) f(1)])
  have f1: "\<not> vd_free s1 j" using s1(3) f(2) d by simp
  obtain s2 where s2: "free_desc j s1 = Inr s2" "vq_desc s2 = (vq_desc s1)(j := zero_desc)" "vd_free s2 = (vd_free s1)(j := True)"
    "bufs s2 = bufs s1" "disk s2 = disk s1" "dtrace s2 = dtrace s1" "vd_info_b s2 = vd_info_b s1" "vq_used_idx s2 = vq_used_idx s1"
    "vd_used_idx s2 = vd_used_idx s1" by (rule free_one [OF l(2) f1])
  have f2: "\<not> vd_free s2 k" using s1(3) s2(3) f(3) d by simp
  obtain s3 where s3: "free_desc k s2 = Inr s3" "vq_desc s3 = (vq_desc s2)(k := zero_desc)" "vd_free s3 = (vd_free s2)(k := True)"
    "bufs s3 = bufs s2" "disk s3 = disk s2" "dtrace s3 = dtrace s2" "vd_info_b s3 = vd_info_b s2" "vq_used_idx s3 = vq_used_idx s2"
    "vd_used_idx s3 = vd_used_idx s2" by (rule free_one [OF l(3) f2])
  have 3: "free_chain k s2 = Inr s3"
    using s3(1) s1(2) s2(2) dk d by (subst free_chain.simps) (simp add: Let_def)
  have 2: "free_chain j s1 = Inr s3"
    using s2(1) s1(2) dj u(2) 3 d by (subst free_chain.simps) (simp add: Let_def)
  have "free_chain i s = Inr s3"
    using s1(1) di u(1) 2 by (subst free_chain.simps) (simp add: Let_def)
  then show thesis using that [of s3] s1 s2 s3 by simp
qed

lemma format_request_fields:
  fixes s :: "'a kvirtio_scheme" and w :: bool
  assumes d: "distinct [i, j, k]" and b: "b_blockno (bufs s b) < 2 ^ 31"
  defines "t \<equiv> format_request b w (i, j, k) s"
  shows "vq_desc t i = \<lparr>d_addr = DmaReq i, d_len = 16, d_flags = VRING_DESC_F_NEXT, d_next = of_nat j\<rparr>"
    "vq_desc t j = \<lparr>d_addr = DmaData b, d_len = 1024, d_flags = (if w then VRING_DESC_F_NEXT else VRING_DESC_F_WRITE OR VRING_DESC_F_NEXT), d_next = of_nat k\<rparr>"
    "vq_desc t k = \<lparr>d_addr = DmaStatus i, d_len = 1, d_flags = VRING_DESC_F_WRITE, d_next = 0\<rparr>"
    "rq_type (vd_ops t i) = (if w then VIRTIO_BLK_T_OUT else VIRTIO_BLK_T_IN)" "unat (rq_sector (vd_ops t i)) div 2 = b_blockno (bufs s b)"
    "vd_info_b t i = Some b" "vd_free t = vd_free s" "bufs t = (bufs s)(b := (bufs s b)\<lparr>b_disk := True\<rparr>)" "disk t = disk s"
    "dtrace t = dtrace s" "vq_used_idx t = vq_used_idx s" "vd_used_idx t = vd_used_idx s"
    "vq_avail_ring t (unat (vq_avail_idx t - 1) mod NUM) = of_nat i"
proof -
  have "unat (ucast (of_nat (b_blockno (bufs s b)) * 2 :: uint32) :: uint64) = 2 * b_blockno (bufs s b)"
  proof -
    have "(of_nat (b_blockno (bufs s b)) * 2 :: uint32) = of_nat (2 * b_blockno (bufs s b))" by simp
    then show ?thesis using b by (simp only: unsigned_ucast_eq unat_of_nat take_bit_nat_eq_self_iff) (simp add: unat_of_nat take_bit_nat_eq_self)
  qed
  then show "unat (rq_sector (vd_ops t i)) div 2 = b_blockno (bufs s b)"
    by (simp add: t_def format_request_def Let_def set_desc_def upd_buf_def set_reg_def)
qed (use d in \<open>simp_all add: t_def format_request_def Let_def set_desc_def upd_buf_def set_reg_def\<close>)

section \<open>A whole transfer\<close>

lemma serve_fields:
  fixes t :: "'a kvirtio_scheme"
  shows "vq_desc (serve i b t) = vq_desc t" "vd_free (serve i b t) = vd_free t" "vd_info_b (serve i b t) = vd_info_b t"
    "vd_used_idx (serve i b t) = vd_used_idx t" "vq_used_idx (serve i b t) = vq_used_idx t + 1" "vd_info_status (serve i b t) i = 0"
    "vq_used_ring (serve i b t) (unat (vq_used_idx t) mod NUM) = of_nat i"
    "bufs (serve i b t) = (if rq_type (vd_ops t i) = VIRTIO_BLK_T_OUT then bufs t
       else (bufs t)(b := (bufs t b)\<lparr>b_data := disk t (unat (rq_sector (vd_ops t i)) div 2)\<rparr>))"
    "disk (serve i b t) = (if rq_type (vd_ops t i) = VIRTIO_BLK_T_OUT then (disk t)(unat (rq_sector (vd_ops t i)) div 2 := b_data (bufs t b)) else disk t)"
    "dtrace (serve i b t) = (if rq_type (vd_ops t i) = VIRTIO_BLK_T_OUT then dtrace t @ [(unat (rq_sector (vd_ops t i)) div 2, b_data (bufs t b))] else dtrace t)"
  by (simp_all add: serve_def Let_def upd_buf_def)

lemma binit_loop_disk: "b_disk (binit_loop k B x) = b_disk (B x)"
  by (induction k arbitrary: x) (auto simp: list_push_def Let_def)

lemma boot_kernel_disk:
  "card (free_descs boot_kernel) = 8" "vd_used_idx boot_kernel = 0" "vq_used_idx boot_kernel = 0"
  "b_blockno (bufs boot_kernel 0) = 0" "\<not> b_disk (bufs boot_kernel 0)"
proof -
  have "free_descs boot_kernel = {..<NUM}" by (auto simp: free_descs_def boot_kernel_def binit_def)
  then show "card (free_descs boot_kernel) = 8" by simp
  show "b_blockno (bufs boot_kernel 0) = 0" "\<not> b_disk (bufs boot_kernel 0)" unfolding boot_kernel_def binit_def
    by (simp_all add: binit_loop_fields binit_loop_disk zero_buf_def del: binit_loop.simps)
qed (simp_all add: boot_kernel_def binit_def)

text \<open>C7. The disk driver implements the atomic transfer that the buffer cache is built on. With a
  device that behaves as the virtio specification says, three free descriptors and no request
  under way, a request for buffer \<open>b\<close> is accepted; after the device has served it, the completion
  interrupt marks the buffer done; and when the driver has finished, the buffers, the disk and
  the order of its writes are what \<open>disk_transfer\<close> makes them, every descriptor that was free is
  free again, and no completion is left unseen.\<close>

theorem virtio_disk_rw_refines:
  fixes s :: "'a kvirtio_scheme"
  assumes dev: "virtio_device dev" and free: "3 \<le> card (free_descs s)" and idle: "vd_used_idx s = vq_used_idx s"
    and b: "b_blockno (bufs s b) < 2 ^ 31" "\<not> b_disk (bufs s b)"
  shows "must (virtio_disk_submit b w s) (\<lambda>(r, t). \<exists>i j k. r = Some (i, j, k) \<and> b_disk (bufs t b) \<and>
    must (virtio_disk_intr (dev t)) (\<lambda>u. \<not> b_disk (bufs u b) \<and>
    must (virtio_disk_finish i u) (\<lambda>v. bufs v = bufs (disk_transfer b w s) \<and> disk v = disk (disk_transfer b w s) \<and>
      dtrace v = dtrace (disk_transfer b w s) \<and> free_descs v = free_descs s \<and> vd_used_idx v = vq_used_idx v)))"
proof -
  obtain i j k where a: "alloc3_desc s = Inr (Some (i, j, k), s\<lparr>vd_free := (vd_free s)(i := False, j := False, k := False)\<rparr>)"
    and d: "distinct [i, j, k]" and sub: "{i, j, k} \<subseteq> free_descs s" by (rule alloc3_ok [OF free])
  let ?s = "s\<lparr>vd_free := (vd_free s)(i := False, j := False, k := False)\<rparr>"
  define t where "t = format_request b w (i, j, k) ?s"
  have l: "i < NUM" "j < NUM" "k < NUM" and fr: "vd_free s i" "vd_free s j" "vd_free s k" using sub by (auto simp: free_descs_def)
  note T = format_request_fields [OF d, of ?s b w, folded t_def, simplified, OF b(1) [simplified]]
  have st: "virtio_disk_submit b w s = Inr (Some (i, j, k), t)" using a by (simp add: virtio_disk_submit_def t_def)
  have u16: "unat (of_nat j :: uint16) = j" "unat (of_nat k :: uint16) = k" using l by (simp_all add: unat_of_nat)
  have "chain_ok i b t" using T(1-4) u16 by (simp add: chain_ok_def)
  then have dv: "dev t = serve i b t" using dev l(1) T(13) unfolding virtio_device_def by blast
  note S = serve_fields [of i b t]
  have used: "vd_used_idx t = vq_used_idx t" using T idle by simp
  obtain u where u: "virtio_disk_intr (serve i b t) = Inr u" "bufs u = (bufs (serve i b t))(b := (bufs (serve i b t) b)\<lparr>b_disk := False\<rparr>)"
    "disk u = disk (serve i b t)" "dtrace u = dtrace (serve i b t)" "vq_desc u = vq_desc (serve i b t)" "vd_free u = vd_free (serve i b t)"
    "vd_info_b u = vd_info_b (serve i b t)" "vq_used_idx u = vq_used_idx (serve i b t)" "vd_used_idx u = vq_used_idx (serve i b t)"
    "procs u = procs (wakeup (ChBuf b) (serve i b t))"
    by (rule intr_one [of "serve i b t" i b]) (use S used T(6) l(1) in simp_all)
  let ?u = "u\<lparr>vd_info_b := (vd_info_b u)(i := None)\<rparr>"
  have Du: "vq_desc ?u = vq_desc t" "vd_free ?u = (vd_free s)(i := False, j := False, k := False)" using u(5,6) S T(7) by simp_all
  obtain v where v: "free_chain i ?u = Inr v" "vd_free v = (vd_free ?u)(i := True, j := True, k := True)" "bufs v = bufs ?u" "disk v = disk ?u"
    "dtrace v = dtrace ?u" "vd_info_b v = vd_info_b ?u" "vq_used_idx v = vq_used_idx ?u" "vd_used_idx v = vd_used_idx ?u"
    by (rule free_chain_three [OF d l, of ?u]) (use Du T(1-3) d in simp_all)
  have "vd_free v = vd_free s" using v(2) Du(2) fr by (auto simp: fun_eq_iff)
  then have "free_descs v = free_descs s" by (simp add: free_descs_def)
  moreover have "bufs v = bufs (disk_transfer b w s)" "disk v = disk (disk_transfer b w s)" "dtrace v = dtrace (disk_transfer b w s)"
    using v(3,4,5) u(2,3,4) S T b(2) by (auto simp: disk_transfer_def Let_def upd_buf_def)
  ultimately show ?thesis
    using st u(1,2,8,9) v(1,7,8) T(8) dv by (simp add: virtio_disk_finish_def)
qed

theorem virtio_disk_rw_refines_witness:
  "virtio_device (simple_device :: ktrap \<Rightarrow> ktrap) \<and> card (free_descs boot_kernel) = 8 \<and>
   must (virtio_disk_submit 0 True boot_kernel) (\<lambda>(r, t). \<exists>i j k. r = Some (i, j, k) \<and> b_disk (bufs t 0) \<and>
    must (virtio_disk_intr (simple_device t)) (\<lambda>u. \<not> b_disk (bufs u 0) \<and>
    must (virtio_disk_finish i u) (\<lambda>v. bufs v = bufs (disk_transfer 0 True boot_kernel) \<and> disk v = disk (disk_transfer 0 True boot_kernel) \<and>
      dtrace v = dtrace (disk_transfer 0 True boot_kernel) \<and> free_descs v = free_descs boot_kernel \<and> vd_used_idx v = vq_used_idx v)))"
proof -
  have c: "card (free_descs boot_kernel) = 8" by (simp add: boot_kernel_disk)
  show ?thesis
    using virtio_disk_rw_refines [OF simple_device_ok, of boot_kernel 0 True] c simple_device_ok by (simp add: boot_kernel_disk)
qed

section \<open>Several completions at one interrupt\<close>

text \<open>The requests the device has completed and the driver has not yet seen, oldest first, and the
  buffers they belong to.\<close>

primrec completed :: "nat \<Rightarrow> uint16 \<Rightarrow> 'a kvirtio_scheme \<Rightarrow> nat list" where
  "completed 0 u s = []"
| "completed (Suc n) u s = unat (vq_used_ring s (unat u mod NUM)) # completed n (u + 1) s"

definition pending :: "'a kvirtio_scheme \<Rightarrow> nat list" where
  "pending s = completed (unat (vq_used_idx s - vd_used_idx s)) (vd_used_idx s) s"

definition pending_bufs :: "'a kvirtio_scheme \<Rightarrow> nat set" where
  "pending_bufs s = {b. Some b \<in> vd_info_b s ` set (pending s)}"

definition mark_done :: "nat set \<Rightarrow> (nat \<Rightarrow> buf) \<Rightarrow> nat \<Rightarrow> buf" where
  "mark_done D B = (\<lambda>b. if b \<in> D then (B b)\<lparr>b_disk := False\<rparr> else B b)"

definition wake_bufs :: "nat set \<Rightarrow> 'a kproc_scheme \<Rightarrow> nat \<Rightarrow> proc" where
  "wake_bufs D s = (\<lambda>p. if p < NPROC \<and> myproc s \<noteq> Some p \<and> pstate (procs s p) = SLEEPING \<and> (\<exists>b\<in>D. pchan (procs s p) = Some (ChBuf b))
     then (procs s p)\<lparr>pstate := RUNNABLE\<rparr> else procs s p)"

lemma completed_cong: "vq_used_ring t = vq_used_ring s \<Longrightarrow> completed n u t = completed n u s"
  by (induction n arbitrary: u) simp_all

lemma wake_bufs_insert:
  assumes "procs t = procs (wakeup (ChBuf b) s)" and "myproc t = myproc s"
  shows "wake_bufs D t = wake_bufs (insert b D) s"
  using assms by (intro ext) (auto simp: wake_bufs_def wakeup_def)

lemma mark_done_insert: "mark_done D (B(b := (B b)\<lparr>b_disk := False\<rparr>)) = mark_done (insert b D) B"
  by (rule ext) (auto simp: mark_done_def)

lemma gap16_Suc:
  fixes u d :: uint16
  assumes "unat (d - u) = Suc n"
  shows "unat (d - (u + 1)) = n" "u \<noteq> d"
proof -
  have nz: "d - u \<noteq> 0" using assms by auto
  have "d - (u + 1) = d - u - 1" by simp
  then show "unat (d - (u + 1)) = n" using unat_minus_one [OF nz] assms by (simp only:)
qed (use assms in auto)

lemma complete_one_ok:
  fixes s :: "'a kvirtio_scheme"
  assumes "unat (vq_used_ring s (unat (vd_used_idx s) mod NUM)) = i" and "i < NUM" "vd_info_status s i = 0" "vd_info_b s i = Some b"
  obtains t where "complete_one s = Inr t" "bufs t = (bufs s)(b := (bufs s b)\<lparr>b_disk := False\<rparr>)" "vd_used_idx t = vd_used_idx s + 1"
    "vq_used_idx t = vq_used_idx s" "vq_used_ring t = vq_used_ring s" "vd_info_status t = vd_info_status s" "vd_info_b t = vd_info_b s"
    "procs t = procs (wakeup (ChBuf b) s)" "myproc t = myproc s"
proof -
  let ?t = "wakeup (ChBuf b) (upd_buf b (\<lambda>x. x\<lparr>b_disk := False\<rparr>) s)\<lparr>vd_used_idx := vd_used_idx s + 1\<rparr>"
  have "complete_one s = Inr ?t" using assms by (simp add: complete_one_def Let_def upd_buf_def)
  moreover have "procs ?t = procs (wakeup (ChBuf b) s)"
    using wakeup_procs [of "upd_buf b (\<lambda>x. x\<lparr>b_disk := False\<rparr>) s" s "ChBuf b"] by (simp add: upd_buf_def myproc_def cpuid_def)
  moreover have "myproc ?t = myproc s" by (simp add: myproc_def cpuid_def upd_buf_def wakeup_def)
  ultimately show thesis by (intro that [of ?t]) (simp_all add: upd_buf_def)
qed

lemma virtio_intr_loop_ok:
  fixes s :: "'a kvirtio_scheme"
  assumes "unat (vq_used_idx s - vd_used_idx s) = n"
    and "\<forall>i\<in>set (completed n (vd_used_idx s) s). i < NUM \<and> vd_info_status s i = 0 \<and> vd_info_b s i \<noteq> None"
  shows "must (virtio_intr_loop s) (\<lambda>t. vd_used_idx t = vq_used_idx t \<and> vq_used_idx t = vq_used_idx s \<and>
    bufs t = mark_done {b. Some b \<in> vd_info_b s ` set (completed n (vd_used_idx s) s)} (bufs s) \<and>
    procs t = wake_bufs {b. Some b \<in> vd_info_b s ` set (completed n (vd_used_idx s) s)} s)"
  using assms
proof (induction n arbitrary: s)
  case 0
  then have "vd_used_idx s = vq_used_idx s" by (simp add: unat_eq_0)
  then show ?case by (subst virtio_intr_loop.simps) (simp add: mark_done_def wake_bufs_def)
next
  case (Suc n)
  define i where "i = unat (vq_used_ring s (unat (vd_used_idx s) mod NUM))"
  from Suc.prems(2) obtain b where i: "i < NUM" "vd_info_status s i = 0" "vd_info_b s i = Some b" by (auto simp: i_def)
  obtain t where t: "complete_one s = Inr t" "bufs t = (bufs s)(b := (bufs s b)\<lparr>b_disk := False\<rparr>)" "vd_used_idx t = vd_used_idx s + 1"
    "vq_used_idx t = vq_used_idx s" "vq_used_ring t = vq_used_ring s" "vd_info_status t = vd_info_status s" "vd_info_b t = vd_info_b s"
    "procs t = procs (wakeup (ChBuf b) s)" "myproc t = myproc s"
    by (rule complete_one_ok [OF i_def [symmetric] i])
  note g = gap16_Suc [OF Suc.prems(1)]
  note c = completed_cong [OF t(5), of n "vd_used_idx t"]
  let ?D = "{b. Some b \<in> vd_info_b s ` set (completed n (vd_used_idx s + 1) s)}"
  have D: "{b. Some b \<in> vd_info_b s ` set (completed (Suc n) (vd_used_idx s) s)} = insert b ?D"
    using i(3) by (auto simp: i_def image_iff)
  have "must (virtio_intr_loop t) (\<lambda>u. vd_used_idx u = vq_used_idx u \<and> vq_used_idx u = vq_used_idx t \<and>
    bufs u = mark_done ?D (bufs t) \<and> procs u = wake_bufs ?D t)"
    using Suc.IH [of t] g Suc.prems(2) c t(3,4,6,7) by simp
  moreover have "virtio_intr_loop s = virtio_intr_loop t" using g(2) t(1) by (subst virtio_intr_loop.simps) simp
  ultimately show ?case unfolding D using t(2,4) mark_done_insert wake_bufs_insert [OF t(8,9)] by simp
qed

text \<open>C13. The interrupt handler of the disk driver returns, whatever number of completions the 16-bit
  indices of the ring show as outstanding (wrap-around included), as long as each of them reports success for a
  request of the driver: it catches up with the device, clears the busy mark of exactly the
  buffers whose transfers are complete, and makes runnable exactly the processes that sleep on one
  of those buffers.\<close>

theorem virtio_disk_intr_catches_up:
  fixes s :: "'a kvirtio_scheme"
  assumes "\<forall>i\<in>set (pending s). i < NUM \<and> vd_info_status s i = 0 \<and> vd_info_b s i \<noteq> None"
  shows "must (virtio_disk_intr s) (\<lambda>t. vd_used_idx t = vq_used_idx s \<and> vq_used_idx t = vq_used_idx s \<and>
    bufs t = mark_done (pending_bufs s) (bufs s) \<and> procs t = wake_bufs (pending_bufs s) s)"
proof -
  let ?s = "set_reg 0x064 (vio_in s 0x060 AND 3) s"
  have e: "completed n u ?s = completed n u s" for n u by (rule completed_cong) (simp add: set_reg_def)
  have "wake_bufs D ?s = wake_bufs D s" for D by (rule ext) (simp add: wake_bufs_def set_reg_def myproc_def cpuid_def)
  then show ?thesis
    using virtio_intr_loop_ok [OF refl, of ?s] assms e
    unfolding virtio_disk_intr_def pending_bufs_def pending_def by (simp add: set_reg_def) (erule must_weaken, simp)
qed

text \<open>Two completions across the wrap of the index: entries 7 and 0 of the ring.\<close>

definition intr_kernel :: ktrap where
  "intr_kernel = boot_kernel\<lparr>vd_used_idx := 0xffff, vq_used_idx := 1, vq_used_ring := (\<lambda>_. 0)(7 := 3, 0 := 5),
     vd_info_b := (\<lambda>_. None)(3 := Some 4, 5 := Some 9)\<rparr>"

theorem virtio_disk_intr_catches_up_witness:
  "pending intr_kernel = [3, 5] \<and> pending_bufs intr_kernel = {4, 9} \<and>
   must (virtio_disk_intr intr_kernel) (\<lambda>t. vd_used_idx t = vq_used_idx intr_kernel \<and> vq_used_idx t = vq_used_idx intr_kernel \<and>
    bufs t = mark_done (pending_bufs intr_kernel) (bufs intr_kernel) \<and> procs t = wake_bufs (pending_bufs intr_kernel) intr_kernel)"
proof -
  have g: "unat (vq_used_idx intr_kernel - vd_used_idx intr_kernel) = Suc (Suc 0)" by (simp add: intr_kernel_def)
  have p: "pending intr_kernel = [3, 5]" unfolding pending_def g by (simp add: intr_kernel_def)
  have i: "vd_info_b intr_kernel 3 = Some 4" "vd_info_b intr_kernel 5 = Some 9" "vd_info_status intr_kernel 3 = 0" "vd_info_status intr_kernel 5 = 0"
    by (simp_all add: intr_kernel_def boot_kernel_def binit_def)
  have "pending_bufs intr_kernel = {4, 9}" using p i by (auto simp: pending_bufs_def)
  then show ?thesis using virtio_disk_intr_catches_up [of intr_kernel] p i by simp
qed

end
