(* ===== verification/Pipe_Io.thy ===== *)
theory Pipe_Io
  imports Boot
begin

text \<open>
  Reading and writing pipes from user memory: the loops of \<open>pipewrite\<close> and \<open>piperead\<close> are the
  operations \<open>put_all\<close> and \<open>get_upto\<close> of the byte queue, over the bytes of the process.
\<close>

section \<open>Bytes of the process\<close>

definition ubytes :: "'a kmem_scheme \<Rightarrow> addr \<Rightarrow> uint64 \<Rightarrow> nat \<Rightarrow> uchar list" where
  "ubytes s pt va n = map (\<lambda>i. the (umem s pt (va + of_nat i))) [0..<n]"

lemma length_ubytes [simp]: "length (ubytes s pt va n) = n"
  by (simp add: ubytes_def)

lemma ubytes_Cons:
  "ubytes s pt va (Suc n) = the (umem s pt va) # ubytes s pt (va + 1) n"
  by (simp add: ubytes_def upt_conv_Cons map_Suc_upt [symmetric] algebra_simps del: upt_Suc)

text \<open>\<open>proc_mem s pr pt S ps\<close>: process \<open>pr\<close> runs, has not been killed, and \<open>pt\<close> is its page table.\<close>

definition proc_mem :: "'a kproc_scheme \<Rightarrow> nat \<Rightarrow> addr \<Rightarrow> addr set \<Rightarrow> addr list \<Rightarrow> bool" where
  "proc_mem s pr pt S ps \<longleftrightarrow> as_inv s pt S ps \<and> cur s = Inr pr \<and> ppagetable (procs s pr) = pt \<and> \<not> killed pr s"

lemma proc_mem_cong:
  fixes s :: "'a kproc_scheme" and t :: "'b kproc_scheme"
  assumes "mem t = mem s" "freelist t = freelist s" "sym_end t = sym_end s" "procs t = procs s" "cpu_proc t = cpu_proc s" "hart t = hart s"
  shows "proc_mem t pr pt S ps = proc_mem s pr pt S ps"
  using as_inv_cong [OF assms(1-3), of pt S ps] assms(4-6)
  by (simp add: proc_mem_def cur_def myproc_def cpuid_def killed_def)

lemma copyin_byte:
  assumes "as_inv s pt S ps" and "user_pte s pt va"
  shows "\<exists>d. copyin pt (\<lambda>_. 0) 0 va 1 s = Inr (0, d, s) \<and> d 0 = the (umem s pt va)"
proof -
  have "va < MAXVA" using assms(2) by (rule user_pte_less)
  then have "unat va + 1 \<le> unat MAXVA" by (simp add: word_less_nat_alt)
  then show ?thesis using copyin_ok [OF assms(1), of va 1 "\<lambda>_. 0" 0] assms(2) by simp
qed

lemma copyout_byte:
  assumes "as_inv s pt S ps" and "writable s pt va"
  shows "\<exists>m. copyout pt va (\<lambda>_. c) 0 1 s = Inr (0, s\<lparr>mem := m\<rparr>) \<and> as_inv (s\<lparr>mem := m\<rparr>) pt S ps \<and>
    (\<forall>w. writable (s\<lparr>mem := m\<rparr>) pt w = writable s pt w) \<and> (\<forall>w. umem (s\<lparr>mem := m\<rparr>) pt w = (if w = va then Some c else umem s pt w))"
proof -
  have v: "va < MAXVA" using assms(2) by (auto simp: writable_def dest: user_pte_less)
  then have "unat va + 1 \<le> unat MAXVA" by (simp add: word_less_nat_alt)
  then obtain t where t: "copyout pt va (\<lambda>_. c) 0 1 s = Inr (0, t)" "t = s\<lparr>mem := mem t\<rparr>" "as_inv t pt S ps"
    "\<forall>w. user_pte t pt w = user_pte s pt w \<and> writable t pt w = writable s pt w"
    "\<forall>w. umem t pt w = (if va \<le> w \<and> unat w < unat va + 1 then Some c else umem s pt w)"
    using copyout_ok [OF assms(1), of va 1 "\<lambda>_. c" 0] assms(2) unfolding must_iff split_paired_Ex prod.case by auto
  have "va \<le> w \<and> unat w < unat va + 1 \<longleftrightarrow> w = va" for w by (auto simp: word_le_nat_alt word_unat_eq_iff)
  then have u: "\<forall>w. umem t pt w = (if w = va then Some c else umem s pt w)" using t(5) by (simp only:) simp
  obtain m where m: "t = s\<lparr>mem := m\<rparr>" using t(2) by blast
  show ?thesis using t(1,3,4) u unfolding m by blast
qed

section \<open>The loops\<close>

lemma pipewrite_loop_ok:
  fixes s :: "'a kpipe_scheme"
  assumes "proc_mem s pr pt S ps" and "\<forall>j<n. user_pte s pt (addr + of_nat j)" and "pipe_ok (pipes s p)" and "pi_readopen (pipes s p)"
    and "i \<le> n"
  shows "pipewrite_loop p addr (int n) (int i) s =
    Inr (if n - i \<le> PIPESIZE - length (pipe_items (pipes s p)) then Ret (int n)
         else Wait (ch_nwrite p) (int (i + (PIPESIZE - length (pipe_items (pipes s p))))),
         wakeup (ch_nread p) (upd_pipe p (pq.put_all (ubytes s pt (addr + of_nat i) (n - i))) s))"
  using assms
proof (induction "n - i" arbitrary: i s)
  case 0
  then show ?case by (subst pipewrite_loop.simps) (simp add: ubytes_def upd_pipe_def)
next
  case (Suc k)
  let ?q = "pipes s p" and ?a = "addr + of_nat i"
  have i: "i < n" "n - i = Suc k" "n - Suc i = k" using Suc.hyps(2) by auto
  have pm: "as_inv s pt S ps" "cur s = Inr pr" "ppagetable (procs s pr) = pt" "\<not> killed pr s" using Suc.prems(1) by (simp_all add: proc_mem_def)
  show ?case
  proof (cases "pipe_full ?q")
    case True
    then have "length (pipe_items ?q) = 512" using pq.full_iff [OF Suc.prems(3)] by simp
    then show ?thesis using i pm Suc.prems(4) True
      by (subst pipewrite_loop.simps) (simp add: upd_pipe_def ubytes_Cons)
  next
    case False
    obtain d where d: "copyin pt (\<lambda>_. 0) 0 ?a 1 s = Inr (0, d, s)" "d 0 = the (umem s pt ?a)"
      using copyin_byte [OF pm(1)] Suc.prems(2) i(1) by blast
    let ?s = "upd_pipe p (pipe_put (d 0)) s"
    have fr: "proc_mem ?s pr pt S ps" "\<forall>j<n. user_pte ?s pt (addr + of_nat j)" "ubytes ?s = ubytes s"
      using Suc.prems(1,2) proc_mem_cong [of ?s s] umem_cong [of ?s s] by (simp_all add: upd_pipe_def ubytes_def fun_eq_iff)
    have pq: "pipe_ok (pipes ?s p)" "pi_readopen (pipes ?s p)" "pipe_items (pipes ?s p) = pipe_items ?q @ [d 0]"
      using pq.put_ok [OF Suc.prems(3) False] pq.put_items [OF Suc.prems(3) False] Suc.prems(4)
      by (simp_all add: upd_pipe_def pipe_put_def)
    have l: "length (pipe_items ?q) < 512" using False pq.full_iff [OF Suc.prems(3)] pq.bounded [OF Suc.prems(3)] by simp
    have "pipewrite_loop p addr (int n) (int i) s = pipewrite_loop p addr (int n) (int (Suc i)) ?s"
      using i(1) pm Suc.prems(4) False d by (subst pipewrite_loop.simps) (simp add: add.commute)
    also note Suc.hyps(1) [OF i(3) [symmetric] fr(1,2) pq(1,2)]
    finally show ?thesis using i l pq(3) d(2) False fr(3) 
      by (auto simp: ubytes_Cons upd_pipe_def algebra_simps)
  qed
qed

text \<open>\<open>filled s t pt va bs\<close>: the user memory of \<open>t\<close> is that of \<open>s\<close> with the bytes \<open>bs\<close> from \<open>va\<close> on.\<close>

definition filled :: "'a kmem_scheme \<Rightarrow> 'a kmem_scheme \<Rightarrow> addr \<Rightarrow> uint64 \<Rightarrow> uchar list \<Rightarrow> bool" where
  "filled s t pt va bs \<longleftrightarrow> (\<forall>w. writable t pt w = writable s pt w) \<and>
     (\<forall>w. umem t pt w = (if unat (w - va) < length bs then Some (bs ! unat (w - va)) else umem s pt w))"

lemma filled_Nil [simp]: "filled s s pt va []"
  by (simp add: filled_def)

lemma unat_sub_one: "w \<noteq> va \<Longrightarrow> unat (w - va) = Suc (unat (w - (va + 1)))" for w va :: uint64
proof -
  assume "w \<noteq> va"
  then have nz: "w - va \<noteq> 0" by simp
  have "w - (va + 1) = w - va - 1" by simp
  then have "unat (w - (va + 1)) = unat (w - va) - 1" using unat_minus_one [OF nz] by (simp only:)
  moreover have "0 < unat (w - va)" using nz unat_gt_0 by blast
  ultimately show ?thesis by linarith
qed

lemma filled_Cons:
  assumes "\<forall>w. writable u pt w = writable s pt w" and "\<forall>w. umem u pt w = (if w = va then Some c else umem s pt w)"
    and "filled u t pt (va + 1) cs" and "length cs < 2 ^ 64 - 1"
  shows "filled s t pt va (c # cs)"
proof -
  have "umem t pt w = (if unat (w - va) < length (c # cs) then Some ((c # cs) ! unat (w - va)) else umem s pt w)" for w
  proof (cases "w = va")
    case True
    have "va - (va + 1) = (- 1 :: uint64)" by simp
    then have "unat (va - (va + 1)) = 2 ^ 64 - 1" by (simp add: unsigned_minus_1_eq_mask mask_eq_exp_minus_1)
    then show ?thesis using assms(2,3,4) True by (simp add: filled_def del: diff_add_eq_diff_diff_swap)
  next
    case False
    then show ?thesis using assms(2,3) unat_sub_one [OF False] by (auto simp: filled_def)
  qed
  then show ?thesis using assms(1,3) by (simp add: filled_def)
qed

lemma piperead_loop_ok:
  fixes s :: "'a kpipe_scheme"
  assumes "proc_mem s pr pt S ps" and "\<forall>j<n. writable s pt (addr + of_nat j)" and "pipe_ok (pipes s p)" and "i \<le> n" and "n < 2 ^ 63"
  shows "\<exists>m. piperead_loop p addr (int n) (int i) s =
      Inr (Ret (int (i + min (n - i) (length (pipe_items (pipes s p))))),
           wakeup (ch_nwrite p) (upd_pipe p (\<lambda>q. snd (pq.get_upto (n - i) q)) (s\<lparr>mem := m\<rparr>))) \<and>
    as_inv (s\<lparr>mem := m\<rparr>) pt S ps \<and> filled s (s\<lparr>mem := m\<rparr>) pt (addr + of_nat i) (take (n - i) (pipe_items (pipes s p)))"
  using assms
proof (induction "n - i" arbitrary: i s)
  case 0
  then show ?case by (intro exI [of _ "mem s"], subst piperead_loop.simps) (simp add: upd_pipe_def proc_mem_def)
next
  case (Suc k)
  let ?q = "pipes s p" and ?a = "addr + of_nat i"
  have i: "i < n" "n - i = Suc k" "n - Suc i = k" using Suc.hyps(2) by auto
  have pm: "as_inv s pt S ps" "cur s = Inr pr" "ppagetable (procs s pr) = pt" using Suc.prems(1) by (simp_all add: proc_mem_def)
  show ?case
  proof (cases "pipe_empty ?q")
    case True
    then have "pipe_items ?q = []" using pq.empty_iff [OF Suc.prems(3)] by simp
    then show ?thesis using i pm True
      by (intro exI [of _ "mem s"], subst piperead_loop.simps) (simp add: upd_pipe_def)
  next
    case False
    obtain c x where g: "pipe_get ?q = (c, x)" by (cases "pipe_get ?q")
    have x: "pipe_ok x" "pipe_items ?q = c # pipe_items x"
      using pq.get_ok [OF Suc.prems(3) False] pq.get_items [OF Suc.prems(3) False] g by simp_all
    let ?s = "upd_pipe p (\<lambda>_. x) s"
    have e: "mem ?s = mem s" "procs ?s = procs s" "cur ?s = cur s" by (simp_all add: upd_pipe_def cur_def myproc_def cpuid_def)
    have ai: "as_inv ?s pt S ps" using pm(1) as_inv_cong [of ?s s pt S ps] by (simp add: upd_pipe_def)
    have wr: "writable ?s pt ?a" using Suc.prems(2) i(1) umem_cong(4) [OF e(1)] by simp
    obtain m where m: "copyout pt ?a (\<lambda>_. c) 0 1 ?s = Inr (0, ?s\<lparr>mem := m\<rparr>)" "as_inv (?s\<lparr>mem := m\<rparr>) pt S ps"
      "\<forall>w. writable (?s\<lparr>mem := m\<rparr>) pt w = writable ?s pt w" "\<forall>w. umem (?s\<lparr>mem := m\<rparr>) pt w = (if w = ?a then Some c else umem ?s pt w)"
      using copyout_byte [OF ai wr] by blast
    let ?u = "?s\<lparr>mem := m\<rparr>"
    have pu: "proc_mem ?u pr pt S ps" "pipe_ok (pipes ?u p)" "pipes ?u p = x"
      using Suc.prems(1) m(2) x(1) by (simp_all add: proc_mem_def upd_pipe_def cur_def myproc_def cpuid_def killed_def)
    have wu: "\<forall>j<n. writable ?u pt (addr + of_nat j)" using m(3) Suc.prems(2) umem_cong(4) [OF e(1)] by simp
    have st: "piperead_loop p addr (int n) (int i) s = piperead_loop p addr (int n) (int (Suc i)) ?u"
      using i(1) pm False g m(1) e by (subst piperead_loop.simps) (simp add: add.commute)
    have si: "Suc i \<le> n" using i(1) by simp
    obtain m' where m': "piperead_loop p addr (int n) (int (Suc i)) ?u =
        Inr (Ret (int (Suc i + min k (length (pipe_items x)))), wakeup (ch_nwrite p) (upd_pipe p (\<lambda>q. snd (pq.get_upto k q)) (?u\<lparr>mem := m'\<rparr>)))"
      "as_inv (?u\<lparr>mem := m'\<rparr>) pt S ps" "filled ?u (?u\<lparr>mem := m'\<rparr>) pt (addr + of_nat (Suc i)) (take k (pipe_items x))"
      using Suc.hyps(1) [OF i(3) [symmetric] pu(1) wu pu(2) si Suc.prems(5)] unfolding i(3) pu(3) by blast
    have f: "filled ?s (?u\<lparr>mem := m'\<rparr>) pt ?a (take (Suc k) (pipe_items ?q))"
      unfolding x(2) take_Suc_Cons
      by (rule filled_Cons [OF m(3,4)]) (use m'(3) Suc.prems(5) i in \<open>simp_all add: algebra_simps\<close>)
    let ?t = "s\<lparr>mem := m'\<rparr>"
    have "filled s ?t pt ?a (take (Suc k) (pipe_items ?q))"
      using f umem_cong [OF e(1)] umem_cong [of ?t "?u\<lparr>mem := m'\<rparr>"] by (simp add: filled_def)
    moreover have "as_inv ?t pt S ps" using m'(2) as_inv_cong [of ?t "?u\<lparr>mem := m'\<rparr>"] by (simp add: upd_pipe_def)
    ultimately show ?thesis unfolding st m'(1) i(2)
      by (intro exI [of _ m']) (use x(2) g False in \<open>simp add: upd_pipe_def Let_def split: prod.splits\<close>)
  qed
qed

section \<open>Pipes are first-in first-out channels between user memories\<close>

lemma wakeup_pipes [simp]:
  fixes s :: "'a kpipe_scheme"
  shows "pipes (wakeup c s) = pipes s" "mem (wakeup c s) = mem s"
  by (simp_all add: wakeup_def)

lemma procs_wakeup_upd_pipe: "procs (wakeup c (upd_pipe p f s)) = procs (wakeup c s)"
  by (rule wakeup_procs) (simp_all add: upd_pipe_def myproc_def cpuid_def)

text \<open>C10. Writing to a pipe whose read end is open, started or resumed after \<open>i\<close> of \<open>n\<close> bytes: the
  bytes of the process from there on are appended to the contents of the pipe as far as they fit,
  the call returns \<open>n\<close> when all of them fit and otherwise waits for a reader with the number
  written so far, readers are woken, and no other pipe and no memory changes.\<close>

theorem pipewrite_appends:
  fixes s :: "'a kpipe_scheme"
  assumes "proc_mem s pr pt S ps" and "\<forall>j<n. user_pte s pt (addr + of_nat j)" and "pipe_ok (pipes s p)" and "pi_readopen (pipes s p)"
    and "i \<le> n"
  shows "must (pipewrite_loop p addr (int n) (int i) s) (\<lambda>(r, t).
    let k = min (n - i) (PIPESIZE - length (pipe_items (pipes s p)))
    in pipe_ok (pipes t p) \<and> pipe_items (pipes t p) = pipe_items (pipes s p) @ take k (ubytes s pt (addr + of_nat i) (n - i)) \<and>
       r = (if i + k = n then Ret (int n) else Wait (ch_nwrite p) (int (i + k))) \<and>
       (\<forall>q. q = p \<or> pipes t q = pipes s q) \<and> mem t = mem s \<and> procs t = procs (wakeup (ch_nread p) s))"
proof -
  let ?bs = "ubytes s pt (addr + of_nat i) (n - i)" and ?room = "PIPESIZE - length (pipe_items (pipes s p))"
  have "take (min (n - i) ?room) ?bs = take ?room ?bs" by (simp add: min_def)
  then show ?thesis
    using pq.put_all_items [OF assms(3), of ?bs] assms(5) unfolding pipewrite_loop_ok [OF assms]
    by (auto simp: Let_def procs_wakeup_upd_pipe min_def) (simp_all add: upd_pipe_def split: if_splits)
qed

theorem pipewrite_appends_witness:
  "\<exists>s :: ktrap. \<exists>t. pipewrite 0 10 3 s = Inr (Ret 3, t) \<and> pipe_items (pipes t 0) = [0, 0, 0]"
proof -
  obtain m f S ps where b: "as_inv (boot_kernel\<lparr>mem := m, freelist := f\<rparr>) 0x80025000 S ps"
    "\<forall>v<4096. writable (boot_kernel\<lparr>mem := m, freelist := f\<rparr>) 0x80025000 v \<and>
       umem (boot_kernel\<lparr>mem := m, freelist := f\<rparr>) 0x80025000 v = Some 0" by (rule boot_user)
  let ?s = "boot_kernel\<lparr>mem := m, freelist := f\<rparr>"
  have q: "pipes ?s 0 = empty_pipe" by (simp add: boot_kernel_def binit_def)
  have p: "proc_mem ?s 0 0x80025000 S ps"
    using b(1) by (simp add: proc_mem_def cur_def myproc_def cpuid_def killed_def boot_proc_def zero_proc_def)
  have lt: "(10 + of_nat j :: uint64) < 4096" if "j < 3" for j
    using that by (simp add: word_less_nat_alt unat_plus_if' unat_of_nat)
  have u: "\<forall>j<3. user_pte ?s 0x80025000 (10 + of_nat j)" using b(2) lt by (auto simp: writable_def)
  have ub: "ubytes ?s 0x80025000 10 3 = [0, 0, 0]" using b(2) by (simp add: ubytes_def numeral_3_eq_3)
  have e: "pipe_ok empty_pipe" "pipe_items empty_pipe = []" by (simp_all add: pipe_ok_def pipe_items_def empty_pipe_def ring_items_def)
  have "\<exists>t. pipewrite 0 10 3 ?s = Inr (Ret 3, t) \<and> pipe_items (pipes t 0) = [0, 0, 0]"
    using pipewrite_appends [OF p u, of 0 0] e ub unfolding q must_iff pipewrite_def by (auto simp: empty_pipe_def Let_def)
  then show ?thesis by blast
qed

text \<open>C11. Reading from a pipe: an empty pipe whose write end is open makes the reader wait and changes
  nothing; otherwise the call returns the number of bytes taken, at most \<open>n\<close> (0, the end of the
  file, exactly when the pipe is empty or \<open>n\<close> is 0), the oldest bytes of the pipe have moved to the memory of
  the process in order, no other byte of its memory has changed, and writers are woken.\<close>

theorem piperead_takes:
  fixes s :: "'a kpipe_scheme"
  assumes "proc_mem s pr pt S ps" and "\<forall>j<n. writable s pt (addr + of_nat j)" and "pipe_ok (pipes s p)" and "n < 2 ^ 31"
  shows "must (piperead p addr (int n) s) (\<lambda>(r, t).
    if pipe_items (pipes s p) = [] \<and> pi_writeopen (pipes s p) then r = Wait (ch_nread p) 0 \<and> t = s
    else r = Ret (int (min n (length (pipe_items (pipes s p))))) \<and>
      pipe_ok (pipes t p) \<and> pipe_items (pipes t p) = drop n (pipe_items (pipes s p)) \<and>
      filled s t pt addr (take n (pipe_items (pipes s p))) \<and> as_inv t pt S ps \<and>
      (\<forall>q. q = p \<or> pipes t q = pipes s q) \<and> procs t = procs (wakeup (ch_nwrite p) s))"
proof (cases "pipe_empty (pipes s p) \<and> pi_writeopen (pipes s p)")
  case True
  then show ?thesis using assms(1) pq.empty_iff [OF assms(3)] by (simp add: piperead_def proc_mem_def)
next
  case False
  obtain m where m: "piperead_loop p addr (int n) (int 0) s =
      Inr (Ret (int (0 + min (n - 0) (length (pipe_items (pipes s p))))),
           wakeup (ch_nwrite p) (upd_pipe p (\<lambda>q. snd (pq.get_upto (n - 0) q)) (s\<lparr>mem := m\<rparr>)))"
    "as_inv (s\<lparr>mem := m\<rparr>) pt S ps" "filled s (s\<lparr>mem := m\<rparr>) pt (addr + of_nat 0) (take (n - 0) (pipe_items (pipes s p)))"
    using piperead_loop_ok [OF assms(1-3), of 0] assms(4) by auto
  let ?u = "upd_pipe p (\<lambda>q. snd (pq.get_upto n q)) (s\<lparr>mem := m\<rparr>)"
  let ?t = "wakeup (ch_nwrite p) ?u"
  have t: "piperead p addr (int n) s = Inr (Ret (int (min n (length (pipe_items (pipes s p))))), ?t)"
    using False m(1) by (auto simp: piperead_def)
  have "mem ?t = m" by (simp add: upd_pipe_def)
  then have f: "filled s ?t pt addr (take n (pipe_items (pipes s p)))"
    using m(3) umem_cong [of ?t "s\<lparr>mem := m\<rparr>"] by (simp add: filled_def)
  have ai: "as_inv ?t pt S ps" using m(2) as_inv_cong [of ?t "s\<lparr>mem := m\<rparr>"] by (simp add: upd_pipe_def wakeup_def)
  have pr: "procs ?t = procs (wakeup (ch_nwrite p) s)"
    by (rule wakeup_procs) (simp_all add: upd_pipe_def myproc_def cpuid_def)
  have q: "pipes ?t = (pipes s)(p := snd (pq.get_upto n (pipes s p)))" by (simp add: upd_pipe_def)
  show ?thesis unfolding t must_Inr prod.case pr q
    using f ai pq.get_upto_items [OF assms(3), of n] False pq.empty_iff [OF assms(3)] by simp
qed

theorem piperead_takes_witness:
  "\<exists>s :: ktrap. \<exists>t. piperead 0 10 3 s = Inr (Ret 2, t) \<and> umem s 0x80025000 11 = Some 0 \<and> umem t 0x80025000 10 = Some 65 \<and>
     umem t 0x80025000 11 = Some 66 \<and> umem t 0x80025000 12 = Some 0"
proof -
  obtain m f S ps where b: "as_inv (boot_kernel\<lparr>mem := m, freelist := f\<rparr>) 0x80025000 S ps"
    "\<forall>v<4096. writable (boot_kernel\<lparr>mem := m, freelist := f\<rparr>) 0x80025000 v \<and>
       umem (boot_kernel\<lparr>mem := m, freelist := f\<rparr>) 0x80025000 v = Some 0" by (rule boot_user)
  let ?q = "empty_pipe\<lparr>pi_data := (\<lambda>_. 0)(511 := 65, 0 := 66), pi_nread := 0xffffffff, pi_nwrite := 1\<rparr>"
  let ?k = "boot_kernel\<lparr>mem := m, freelist := f\<rparr>"
  let ?s = "?k\<lparr>pipes := \<lambda>_. ?q\<rparr>"
  have u: "writable ?s 0x80025000 v" "umem ?s 0x80025000 v = Some 0" if "v < 4096" for v
    using b(2) that umem_cong [of ?s ?k] by simp_all
  have p: "proc_mem ?s 0 0x80025000 S ps"
    using b(1) as_inv_cong [of ?s ?k] by (simp add: proc_mem_def cur_def myproc_def cpuid_def killed_def boot_proc_def zero_proc_def)
  have lt: "(10 + of_nat j :: uint64) < 4096" if "j < 3" for j
    using that by (simp add: word_less_nat_alt unat_plus_if' unat_of_nat)
  have w: "\<forall>j<3. writable ?s 0x80025000 (10 + of_nat j)" using u lt by auto
  have q: "pipe_ok ?q" "pipe_items ?q = [65, 66]" by (simp_all add: pipe_ok_def pipe_items_def ring_items_def gap32_def upt_rec)
  obtain t where t: "piperead 0 10 (int 3) ?s = Inr (Ret 2, t)" "filled ?s t 0x80025000 10 [65, 66]"
    using piperead_takes [OF p w, of 0] q unfolding must_iff by (auto simp: min_def)
  have "piperead 0 10 3 ?s = Inr (Ret 2, t)" using t(1) by simp
  moreover have "umem t 0x80025000 10 = Some 65" "umem t 0x80025000 11 = Some 66" "umem t 0x80025000 12 = Some 0"
    using t(2) u(2) [of 12] by (simp_all add: filled_def)
  moreover have "umem ?s 0x80025000 11 = Some 0" using u(2) [of 11] by simp
  ultimately show ?thesis by blast
qed

end
