(* ===== verification/Console_Line.thy ===== *)
theory Console_Line
  imports Pipe_Io
begin

text \<open>
  The console as a line editor. Its state is abstracted to two lists: the bytes a reader may take
  and the line being typed. \<open>edit_key\<close> says what a received byte does to them, \<open>read_line\<close> what a
  reader takes.
\<close>

section \<open>The input ring in two parts\<close>

lemma ring_items_append:
  assumes "N dvd 2 ^ 32" and "r < 2 ^ 32" and "w < 2 ^ 32" and "gap32 r e = gap32 r w + gap32 w e"
  shows "ring_items N d r e = ring_items N d r w @ ring_items N d w e"
proof -
  have "(r + (gap32 r w + i)) mod N = (w + i) mod N" for i
    using counter_mod [OF assms(1-3)] by (metis add.assoc mod_add_left_eq)
  then have "(r + i) mod N = (w + (i - gap32 r w)) mod N" if "gap32 r w \<le> i" for i
    using that by (metis le_add_diff_inverse)
  then show ?thesis unfolding ring_items_def assms(4) by (auto simp: list_eq_iff_nth_eq nth_append)
qed


lemma ring_items_self [simp]: "ring_items N d r r = []"
  by (simp add: ring_items_def)

definition line_inv :: "'a kcons_scheme \<Rightarrow> bool" where
  "line_inv s \<longleftrightarrow> cons_ok s \<and> newline \<notin> set (cons_edit s)"

abbreviation (input) line_state :: "'a kcons_scheme \<Rightarrow> uchar list \<times> uchar list" where
  "line_state s \<equiv> (cons_lines s, cons_edit s)"

lemma cons_okD:
  assumes "cons_ok s"
  shows "cons_r s < 2 ^ 32" "cons_w s < 2 ^ 32" "cons_e s < 2 ^ 32"
    "gap32 (cons_r s) (cons_e s) = gap32 (cons_r s) (cons_w s) + gap32 (cons_w s) (cons_e s)" "gap32 (cons_r s) (cons_e s) \<le> 128"
    "length (cons_lines s) + length (cons_edit s) = gap32 (cons_r s) (cons_e s)"
    "ring_items 128 (cons_buf s) (cons_r s) (cons_e s) = cons_lines s @ cons_edit s"
  using assms ring_items_append [of 128 "cons_r s" "cons_w s" "cons_e s" "cons_buf s"]
  by (simp_all add: cons_ok_def cons_lines_def cons_edit_def)


section \<open>Keys\<close>











text \<open>The fields the line state is made of.\<close>

lemma line_cong:
  fixes s t :: "'a kcons_scheme"
  assumes "cons_buf t = cons_buf s" "cons_r t = cons_r s" "cons_w t = cons_w s" "cons_e t = cons_e s"
  shows "cons_ok t = cons_ok s" "line_inv t = line_inv s" "cons_lines t = cons_lines s" "cons_edit t = cons_edit s"
  using assms by (simp_all add: cons_ok_def line_inv_def cons_lines_def cons_edit_def)

lemma wakeup_cons [simp]:
  fixes s :: "'a kcons_scheme"
  shows "cons_buf (wakeup c s) = cons_buf s" "cons_r (wakeup c s) = cons_r s" "cons_w (wakeup c s) = cons_w s"
    "cons_e (wakeup c s) = cons_e s" "uart_out (wakeup c s) = uart_out s" "uart_in (wakeup c s) = uart_in s"
    "panicked (wakeup c s) = panicked s" "tx_busy (wakeup c s) = tx_busy s"
  by (simp_all add: wakeup_def)






section \<open>A burst of input\<close>





section \<open>Reading a line\<close>

text \<open>At most \<open>n\<close> bytes, up to a newline or an end of file. An end of file that follows bytes of the
  same call stays for the next one. The last component is false when the reader has to wait.\<close>

fun read_line :: "nat \<Rightarrow> bool \<Rightarrow> uchar list \<Rightarrow> uchar list \<times> uchar list \<times> bool" where
  "read_line 0 partial ls = ([], ls, True)"
| "read_line (Suc n) partial [] = ([], [], False)"
| "read_line (Suc n) partial (c # cs) =
     (if c = ctrl_D then ([], if partial then c # cs else cs, True)
      else if c = newline then ([c], cs, True)
      else let (bs, rest, fin) = read_line n True cs in (c # bs, rest, fin))"

lemma dec32_inc32: "n < 2 ^ 32 \<Longrightarrow> dec32 (inc32 n) = n"
  by (auto simp: inc32_cases dec32_cases)

lemma read_line_length: "length (fst (read_line n st ls)) \<le> n"
  by (induction n st ls rule: read_line.induct) (auto split: prod.splits)

lemma cons_pop:
  fixes s :: "'a kcons_scheme"
  assumes "line_inv s" and "cons_lines s = c # cs"
  shows "cons_buf s (cons_r s mod 128) = c" "line_inv (s\<lparr>cons_r := inc32 (cons_r s)\<rparr>)" "cons_lines (s\<lparr>cons_r := inc32 (cons_r s)\<rparr>) = cs"
    "cons_edit (s\<lparr>cons_r := inc32 (cons_r s)\<rparr>) = cons_edit s" "cons_r s \<noteq> cons_w s"
proof -
  note C = cons_okD [of s]
  have ok: "cons_ok s" and nl: "newline \<notin> set (cons_edit s)" using assms(1) by (simp_all add: line_inv_def)
  have ne: "cons_r s \<noteq> cons_w s" using assms(2) by (auto simp: cons_lines_def ring_items_def)
  then have g: "gap32 (cons_r s) (cons_w s) = Suc (gap32 (inc32 (cons_r s)) (cons_w s))" by (rule gap32_inc_left [OF C(1,2) [OF ok]])
  have "cons_r s \<noteq> cons_e s" using C(4) [OF ok] g by auto
  then have h: "gap32 (cons_r s) (cons_e s) = Suc (gap32 (inc32 (cons_r s)) (cons_e s))" by (rule gap32_inc_left [OF C(1,3) [OF ok]])
  have p: "c # cs = cons_buf s (cons_r s mod 128) # ring_items 128 (cons_buf s) (inc32 (cons_r s)) (cons_w s)"
    using assms(2) ring_items_pop [OF _ C(1,2) [OF ok] ne, of 128] by (simp add: cons_lines_def)
  then show "cons_buf s (cons_r s mod 128) = c" "cons_lines (s\<lparr>cons_r := inc32 (cons_r s)\<rparr>) = cs" by (simp_all add: cons_lines_def)
  show "line_inv (s\<lparr>cons_r := inc32 (cons_r s)\<rparr>)" "cons_edit (s\<lparr>cons_r := inc32 (cons_r s)\<rparr>) = cons_edit s"
    using C [OF ok] g h nl by (simp_all add: line_inv_def cons_ok_def cons_edit_def)
  show "cons_r s \<noteq> cons_w s" by (rule ne)
qed

text \<open>The reader's byte is delivered by \<open>either_copyout\<close>.\<close>

lemma either_copyout_byte:
  fixes s :: "'a kcons_scheme"
  assumes "proc_mem s pr pt S ps" and "writable s pt a"
  obtains m where "either_copyout (User a) (\<lambda>_. c) 0 1 s = Inr (0, User a, s\<lparr>mem := m\<rparr>)" "proc_mem (s\<lparr>mem := m\<rparr>) pr pt S ps"
    "\<forall>w. writable (s\<lparr>mem := m\<rparr>) pt w = writable s pt w" "\<forall>w. umem (s\<lparr>mem := m\<rparr>) pt w = (if w = a then Some c else umem s pt w)"
proof -
  have p: "as_inv s pt S ps" "cur s = Inr pr" "ppagetable (procs s pr) = pt" "\<not> killed pr s" using assms(1) by (simp_all add: proc_mem_def)
  obtain m where m: "copyout pt a (\<lambda>_. c) 0 1 s = Inr (0, s\<lparr>mem := m\<rparr>)" "as_inv (s\<lparr>mem := m\<rparr>) pt S ps"
    "\<forall>w. writable (s\<lparr>mem := m\<rparr>) pt w = writable s pt w" "\<forall>w. umem (s\<lparr>mem := m\<rparr>) pt w = (if w = a then Some c else umem s pt w)"
    using copyout_byte [OF p(1) assms(2)] by blast
  have "proc_mem (s\<lparr>mem := m\<rparr>) pr pt S ps" using p m(2) by (simp add: proc_mem_def cur_def myproc_def cpuid_def killed_def)
  then show thesis using that m p by (simp add: either_copyout_def)
qed

lemma consoleread_loop_ok:
  fixes s :: "'a kcons_scheme"
  assumes "proc_mem s pr pt S ps" and "line_inv s" and "\<forall>j<n. writable s pt (a + of_nat j)" and "n \<le> target" and "n < 2 ^ 31"
    and "read_line n (n < target) (cons_lines s) = (bs, rest, fin)"
  shows "must (consoleread_loop (User a) (int target) (int n) s) (\<lambda>(r, dst, t).
    r = (if fin then Ret else Wait ChConsR) (int target - int n + int (length bs)) \<and> dst = User (a + of_nat (length bs)) \<and>
    line_inv t \<and> line_state t = (rest, cons_edit s) \<and> filled s t pt a bs \<and> proc_mem t pr pt S ps)"
  using assms
proof (induction n arbitrary: a s bs rest fin)
  case 0
  then show ?case by (subst consoleread_loop.simps) simp
next
  case (Suc n)
  have pm: "cur s = Inr pr" "\<not> killed pr s" using Suc.prems(1) by (simp_all add: proc_mem_def)
  have tn: "int (Suc n) - 1 = int n" by simp
  show ?case
  proof (cases "cons_lines s")
    case Nil
    have "cons_r s = cons_w s" using Nil Suc.prems(2) gap32_eq_0 [of "cons_r s" "cons_w s"] cons_okD [of s]
      by (auto simp: line_inv_def cons_lines_def ring_items_def)
    then have "consoleread_loop (User a) (int target) (int (Suc n)) s = Inr (Wait ChConsR (int target - int (Suc n)), User a, s)"
      using pm by (subst consoleread_loop.simps) simp
    moreover have "bs = []" "rest = []" "\<not> fin" using Suc.prems(6) Nil by simp_all
    ultimately show ?thesis using Nil Suc.prems(1,2) by simp
  next
    case (Cons c cs)
    note P = cons_pop [OF Suc.prems(2) Cons]
    let ?s = "s\<lparr>cons_r := inc32 (cons_r s)\<rparr>"
    show ?thesis
    proof (cases "c = ctrl_D")
      case True
      let ?b = "s\<lparr>cons_r := dec32 (inc32 (cons_r s))\<rparr>"
      have "?b = s" using dec32_inc32 cons_okD(1) [of s] Suc.prems(2) by (simp add: line_inv_def)
      moreover have "proc_mem ?s pr pt S ps" "filled s ?s pt a []"
        using Suc.prems(1) proc_mem_cong [of ?s s] umem_cong [of ?s s] by (simp_all add: filled_def)
      moreover have "consoleread_loop (User a) (int target) (int (Suc n)) s =
          Inr (Ret (int target - int (Suc n)), User a, if Suc n < target then ?b else ?s)"
        using True P(1,5) by (subst consoleread_loop.simps) (simp add: Let_def)
      moreover have "bs = []" "rest = (if Suc n < target then c # cs else cs)" "fin" using Suc.prems(6) Cons True by auto
      ultimately show ?thesis using Suc.prems(1,2) P(2-4) Cons by simp
    next
      case False
      have w: "writable ?s pt a" "proc_mem ?s pr pt S ps" using Suc.prems(1,3) proc_mem_cong [of ?s s] umem_cong [of ?s s] by (auto dest: spec [of _ 0])
      obtain m where m: "either_copyout (User a) (\<lambda>_. c) 0 1 ?s = Inr (0, User a, ?s\<lparr>mem := m\<rparr>)" "proc_mem (?s\<lparr>mem := m\<rparr>) pr pt S ps"
        "\<forall>w. writable (?s\<lparr>mem := m\<rparr>) pt w = writable ?s pt w" "\<forall>w. umem (?s\<lparr>mem := m\<rparr>) pt w = (if w = a then Some c else umem ?s pt w)"
        by (rule either_copyout_byte [OF w(2,1)])
      let ?u = "?s\<lparr>mem := m\<rparr>"
      have l: "line_inv ?u" "cons_lines ?u = cs" "cons_edit ?u = cons_edit s" using P line_cong [of ?u ?s] by simp_all
      have mu: "\<forall>w. writable ?u pt w = writable s pt w" "\<forall>w. umem ?u pt w = (if w = a then Some c else umem s pt w)"
        using m(3,4) umem_cong [of ?s s] by simp_all
      show ?thesis
      proof (cases "c = newline")
        case True
        have "filled s ?u pt a [c]" by (rule filled_Cons [OF mu]) simp_all
        moreover have "bs = [c]" "rest = cs" "fin" using Suc.prems(6) True Cons by auto
        ultimately show ?thesis using True Suc.prems(4) P Cons l m(1,2)
          by (subst consoleread_loop.simps) (simp add: Let_def advance_def)
      next
        case nl: False
        obtain bs' where rl: "read_line n True cs = (bs', rest, fin)" "bs = c # bs'"
          using Suc.prems(6) False nl Cons by (auto split: prod.splits)
        have st: "consoleread_loop (User a) (int target) (int (Suc n)) s = consoleread_loop (User (a + 1)) (int target) (int n) ?u"
          using False nl P Cons m(1) by (subst consoleread_loop.simps) (simp add: Let_def advance_def)
        have wr: "\<forall>j<n. writable ?u pt (a + 1 + of_nat j)"
        proof (intro allI impI)
          fix j assume "j < n"
          then have "writable s pt (a + of_nat (Suc j))" using Suc.prems(3) by blast
          then show "writable ?u pt (a + 1 + of_nat j)" using mu(1) by (simp add: algebra_simps)
        qed
        have b: "n \<le> target" "n < 2 ^ 31" "(n < target) = True" using Suc.prems(4,5) by simp_all
        have "length bs' \<le> n" using read_line_length [of n True cs] rl(1) by simp
        then have len: "length bs' < 2 ^ 64 - 1" using b(2) by simp
        have "must (consoleread_loop (User (a + 1)) (int target) (int n) ?u) (\<lambda>(r, dst, t).
            r = (if fin then Ret else Wait ChConsR) (int target - int n + int (length bs')) \<and> dst = User (a + 1 + of_nat (length bs')) \<and>
            line_inv t \<and> line_state t = (rest, cons_edit ?u) \<and> filled ?u t pt (a + 1) bs' \<and> proc_mem t pr pt S ps)"
          by (rule Suc.IH [OF m(2) l(1) wr b(1,2)]) (simp only: b(3) l(2) rl(1))
        then show ?thesis unfolding st rl(2)
          by (rule must_weaken) (use Suc.prems(4) l(3) filled_Cons [OF mu _ len] in \<open>auto simp: algebra_simps\<close>)
      qed
    qed
  qed
qed

text \<open>C16. Reading the console into the memory of a process: the call takes from the finished lines what
  \<open>read_line\<close> takes, delivers those bytes in order at the address and changes no other byte of
  the process, returns their number, or waits with them delivered when no line is complete, and
  leaves the line being edited alone.\<close>

theorem consoleread_takes_line:
  fixes s :: "'a kcons_scheme"
  assumes "proc_mem s pr pt S ps" and "line_inv s" and "\<forall>j<n. writable s pt (a + of_nat j)" and "n < 2 ^ 31"
    and "read_line n False (cons_lines s) = (bs, rest, fin)"
  shows "must (consoleread (User a) (int n) s) (\<lambda>(r, dst, t).
    r = (if fin then Ret else Wait ChConsR) (int (length bs)) \<and> line_inv t \<and> line_state t = (rest, cons_edit s) \<and> filled s t pt a bs)"
proof -
  have "read_line n (n < n) (cons_lines s) = (bs, rest, fin)" using assms(5) by simp
  from consoleread_loop_ok [OF assms(1-3) order_refl assms(4) this] show ?thesis
    unfolding consoleread_def by (rule must_weaken) auto
qed

theorem consoleread_takes_line_witness:
  "\<exists>s :: ktrap. \<exists>r dst t. consoleread (User 16) 100 s = Inr (r, dst, t) \<and> r = Ret 3 \<and> line_state t = ([97], [98]) \<and>
     umem t 0x80025000 17 = Some 115"
proof -
  obtain m f S ps where b: "as_inv (boot_kernel\<lparr>mem := m, freelist := f\<rparr>) 0x80025000 S ps"
    "\<forall>v<4096. writable (boot_kernel\<lparr>mem := m, freelist := f\<rparr>) 0x80025000 v \<and>
       umem (boot_kernel\<lparr>mem := m, freelist := f\<rparr>) 0x80025000 v = Some 0" by (rule boot_user)
  let ?k = "boot_kernel\<lparr>mem := m, freelist := f\<rparr>"
  let ?s = "?k\<lparr>cons_buf := (\<lambda>_. 0)(126 := 108, 127 := 115, 0 := 10, 1 := 97, 2 := 98), cons_r := 0xfffffffe, cons_w := 2, cons_e := 3\<rparr>"
  have u: "writable ?s 0x80025000 v" if "v < 4096" for v using b(2) that umem_cong [of ?s ?k] by simp
  have p: "proc_mem ?s 0 0x80025000 S ps"
    using b(1) as_inv_cong [of ?s ?k] by (simp add: proc_mem_def cur_def myproc_def cpuid_def killed_def boot_proc_def zero_proc_def)
  have lt: "(16 + of_nat j :: uint64) < 4096" if "j < 100" for j
    using that by (simp add: word_less_nat_alt unat_plus_if' unat_of_nat)
  have w: "\<forall>j<100. writable ?s 0x80025000 (16 + of_nat j)" using u lt by auto
  have l: "line_inv ?s" "cons_lines ?s = [108, 115, 10, 97]" "cons_edit ?s = [98]"
    by (simp_all add: line_inv_def cons_ok_def cons_lines_def cons_edit_def ring_items_def gap32_def upt_rec)
  have rl: "read_line 100 False (cons_lines ?s) = ([108, 115, 10], [97], True)" unfolding l(2) by code_simp
  obtain r dst t where t: "consoleread (User 16) 100 ?s = Inr (r, dst, t)" "r = Ret 3" "line_state t = ([97], [98])" "filled ?s t 0x80025000 16 [108, 115, 10]"
    using consoleread_takes_line [OF p l(1) w _ rl] l(3) unfolding must_iff by auto
  moreover have "umem t 0x80025000 17 = Some 115" using t(4) by (simp add: filled_def)
  ultimately show ?thesis by blast
qed

end
