(* ===== verification/Grep.thy ===== *)
theory Grep
  imports Memory
begin

text \<open>
  The user program \<open>user/grep.c\<close>. Texts and patterns are C strings without their NUL; a test of
  \<open>*text\<close> against NUL is a test for the end of the list. The matcher is compared with the language
  of the pattern, and the loop of \<open>grep\<close> with filtering the lines of the whole file.
\<close>

abbreviation (input) ch_dollar :: uchar where "ch_dollar \<equiv> 36"
abbreviation (input) ch_star :: uchar where "ch_star \<equiv> 42"
abbreviation (input) ch_dot :: uchar where "ch_dot \<equiv> 46"
abbreviation (input) ch_caret :: uchar where "ch_caret \<equiv> 94"
abbreviation (input) ch_nl :: uchar where "ch_nl \<equiv> 10"

section \<open>The matcher\<close>

text \<open>\<open>matchstar\<close> runs its loop by recursion: the test, then the step over a character that \<open>c\<close> covers.\<close>

function matchhere :: "uchar list \<Rightarrow> uchar list \<Rightarrow> bool"
  and matchstar :: "uchar \<Rightarrow> uchar list \<Rightarrow> uchar list \<Rightarrow> bool" where
  "matchhere re str =
     (case re of
        [] \<Rightarrow> True
      | c # re1 \<Rightarrow>
          (case re1 of
             d # re2 \<Rightarrow>
               if d = ch_star then matchstar c re2 str
               else (case str of [] \<Rightarrow> False | t # ts \<Rightarrow> (c = ch_dot \<or> c = t) \<and> matchhere re1 ts)
           | [] \<Rightarrow>
               if c = ch_dollar then str = []
               else (case str of [] \<Rightarrow> False | t # ts \<Rightarrow> (c = ch_dot \<or> c = t) \<and> matchhere re1 ts)))"
| "matchstar c re str =
     (matchhere re str \<or> (case str of [] \<Rightarrow> False | t # ts \<Rightarrow> (t = c \<or> c = ch_dot) \<and> matchstar c re ts))"
  by pat_completeness auto
termination
  by (relation "measures [\<lambda>x. case x of Inl (re, str) \<Rightarrow> length re + length str | Inr (c, re, str) \<Rightarrow> Suc (length re + length str)]") auto

declare matchhere.simps [simp del] matchstar.simps [simp del]

fun match_loop :: "uchar list \<Rightarrow> uchar list \<Rightarrow> bool" where
  "match_loop re [] = matchhere re []"
| "match_loop re (t # ts) = (matchhere re (t # ts) \<or> match_loop re ts)"

definition match :: "uchar list \<Rightarrow> uchar list \<Rightarrow> bool" where
  "match re str = (case re of c # re1 \<Rightarrow> if c = ch_caret then matchhere re1 str else match_loop re str | [] \<Rightarrow> match_loop re str)"

section \<open>The language of a pattern\<close>

text \<open>A pattern is a sequence of single characters and starred characters, where a dot stands for any
  character, that may be tied to the start of the text by \<open>^\<close> and to its end by \<open>$\<close>.\<close>

datatype item = One uchar | Many uchar

fun items :: "uchar list \<Rightarrow> item list \<times> bool" where
  "items [] = ([], False)"
| "items [c] = (if c = ch_dollar then ([], True) else ([One c], False))"
| "items (c # d # re) =
     (if d = ch_star then let (xs, e) = items re in (Many c # xs, e)
      else let (xs, e) = items (d # re) in (One c # xs, e))"

definition covers :: "uchar \<Rightarrow> uchar \<Rightarrow> bool" where
  "covers c t \<longleftrightarrow> c = ch_dot \<or> c = t"

inductive matches :: "item list \<Rightarrow> uchar list \<Rightarrow> bool" where
  nil: "matches [] []"
| one: "covers c t \<Longrightarrow> matches xs w \<Longrightarrow> matches (One c # xs) (t # w)"
| many: "\<forall>t\<in>set v. covers c t \<Longrightarrow> matches xs w \<Longrightarrow> matches (Many c # xs) (v @ w)"

inductive_simps matches_simps: "matches [] w" "matches (One c # xs) w" "matches (Many c # xs) w"

text \<open>A prefix of the text is matched, all of it for a pattern that ends in \<open>$\<close>.\<close>

definition prefix_match :: "item list \<times> bool \<Rightarrow> uchar list \<Rightarrow> bool" where
  "prefix_match = (\<lambda>(xs, e) str. \<exists>w rest. str = w @ rest \<and> matches xs w \<and> (e \<longrightarrow> rest = []))"

definition search :: "uchar list \<Rightarrow> uchar list \<Rightarrow> bool" where
  "search re str \<longleftrightarrow> (case re of c # re1 \<Rightarrow> if c = ch_caret then prefix_match (items re1) str
       else (\<exists>pre rest. str = pre @ rest \<and> prefix_match (items re) rest)
     | [] \<Rightarrow> (\<exists>pre rest. str = pre @ rest \<and> prefix_match (items re) rest))"

lemma prefix_match_Nil [simp]: "prefix_match ([], e) str \<longleftrightarrow> (e \<longrightarrow> str = [])"
  by (auto simp: prefix_match_def matches_simps)

lemma prefix_match_One:
  "prefix_match (One c # xs, e) str \<longleftrightarrow> (case str of [] \<Rightarrow> False | t # ts \<Rightarrow> covers c t \<and> prefix_match (xs, e) ts)"
  by (cases str) (auto simp: prefix_match_def matches_simps Cons_eq_append_conv)

lemma prefix_match_Many_split:
  "prefix_match (Many c # xs, e) str \<longleftrightarrow> (\<exists>v w. str = v @ w \<and> (\<forall>t\<in>set v. covers c t) \<and> prefix_match (xs, e) w)"
proof
  assume "prefix_match (Many c # xs, e) str"
  then obtain u rest where "str = u @ rest" "matches (Many c # xs) u" "e \<longrightarrow> rest = []" by (auto simp: prefix_match_def)
  moreover then obtain v w where "u = v @ w" "\<forall>t\<in>set v. covers c t" "matches xs w" by (auto simp: matches_simps)
  ultimately show "\<exists>v w. str = v @ w \<and> (\<forall>t\<in>set v. covers c t) \<and> prefix_match (xs, e) w"
    by (intro exI [of _ v] exI [of _ "w @ rest"]) (auto simp: prefix_match_def)
next
  assume "\<exists>v w. str = v @ w \<and> (\<forall>t\<in>set v. covers c t) \<and> prefix_match (xs, e) w"
  then obtain v u rest where "str = v @ u @ rest" "\<forall>t\<in>set v. covers c t" "matches xs u" "e \<longrightarrow> rest = []"
    by (auto simp: prefix_match_def)
  then show "prefix_match (Many c # xs, e) str" unfolding prefix_match_def prod.case
    by (intro exI [of _ "v @ u"] exI [of _ rest]) (auto intro: matches.many)
qed

lemma ex_split_Cons: "(\<exists>v w. t # ts = v @ w \<and> P v w) \<longleftrightarrow> P [] (t # ts) \<or> (\<exists>v w. ts = v @ w \<and> P (t # v) w)"
proof
  assume "\<exists>v w. t # ts = v @ w \<and> P v w"
  then obtain v w where v: "t # ts = v @ w" "P v w" by blast
  then show "P [] (t # ts) \<or> (\<exists>v w. ts = v @ w \<and> P (t # v) w)" by (cases v) auto
next
  assume "P [] (t # ts) \<or> (\<exists>v w. ts = v @ w \<and> P (t # v) w)"
  then show "\<exists>v w. t # ts = v @ w \<and> P v w" by (metis append_Cons append_Nil)
qed

lemma prefix_match_Many:
  "prefix_match (Many c # xs, e) str \<longleftrightarrow> prefix_match (xs, e) str \<or>
     (case str of [] \<Rightarrow> False | t # ts \<Rightarrow> covers c t \<and> prefix_match (Many c # xs, e) ts)"
  unfolding prefix_match_Many_split by (cases str) (simp_all add: ex_split_Cons, blast)

lemma matchhere_iff:
  "matchhere re str = prefix_match (items re) str"
  "matchstar c re str = prefix_match (let (xs, e) = items re in (Many c # xs, e)) str"
proof (induction re str and c re str rule: matchhere_matchstar.induct)
  case (1 re str)
  show ?case
  proof (cases re rule: items.cases)
    case 1
    then show ?thesis by (subst matchhere.simps) simp
  next
    case (2 c)
    have "matchhere [] ts = prefix_match (items []) ts" for ts by (subst matchhere.simps) simp
    then show ?thesis using 2 by (subst matchhere.simps) (auto simp: prefix_match_One covers_def split: list.splits)
  next
    case (3 c d re2)
    obtain xs e where i: "items re2 = (xs, e)" by (cases "items re2")
    obtain ys f where j: "items (d # re2) = (ys, f)" by (cases "items (d # re2)")
    show ?thesis
    proof (cases "d = ch_star")
      case True
      then have "matchstar c re2 str = prefix_match (Many c # xs, e) str" using 1(2) [OF 3 refl] i by simp
      then show ?thesis using 3 True i by (subst matchhere.simps) simp
    next
      case False
      have "matchhere (d # re2) ts = prefix_match (ys, f) ts" if "str = t # ts" for t ts
        using 1(3) [OF 3 refl False that] j by simp
      then show ?thesis using 3 False j by (subst matchhere.simps) (auto simp: prefix_match_One covers_def split: list.splits)
    qed
  qed
next
  case (2 c re str)
  obtain xs e where i: "items re = (xs, e)" by (cases "items re")
  have h: "matchhere re str = prefix_match (xs, e) str" using 2(1) i by simp
  have "matchstar c re ts = prefix_match (Many c # xs, e) ts" if "str = t # ts" for t ts
    using 2(2) [OF that] i by simp
  then show ?case unfolding i Let_def prod.case
    by (subst matchstar.simps, subst prefix_match_Many) (auto simp: h covers_def split: list.splits)
qed

lemma match_loop_iff: "match_loop re str \<longleftrightarrow> (\<exists>pre rest. str = pre @ rest \<and> matchhere re rest)"
  by (induction str) (simp_all add: ex_split_Cons)

lemma match_equiv: "match re str = search re str"
  by (cases re) (simp_all add: match_def search_def match_loop_iff matchhere_iff)

text \<open>C20. The recursive matcher decides the language of its pattern: \<open>match re text\<close> holds exactly when
  some part of the text, its start for a pattern that begins with \<open>^\<close>, can be cut into pieces that the
  characters and starred characters of the pattern match one after the other, up to the end of the text for a pattern
  that ends with \<open>$\<close>.\<close>

theorem match_equiv_search: "match re str = search re str"
  by (rule match_equiv)

section \<open>The loop over the file\<close>

lemma drop_less: "drop n b = c # rest \<Longrightarrow> length rest < length b"
  using length_drop [of n b] by simp

text \<open>The inner loop over the bytes in the buffer: \<open>strchr\<close> stops at a newline or at a NUL. The result
  is what is written to standard output and the bytes that stay in the buffer.\<close>

function grep_inner :: "uchar list \<Rightarrow> uchar list \<Rightarrow> uchar list \<times> uchar list" where
  "grep_inner re b =
     (let line = takeWhile (\<lambda>c. c \<noteq> 0 \<and> c \<noteq> ch_nl) b
      in case drop (length line) b of
           c # rest \<Rightarrow>
             if c = ch_nl
             then let (out, r) = grep_inner re rest in ((if match re line then line @ [ch_nl] else []) @ out, r)
             else ([], b)
         | [] \<Rightarrow> ([], b))"
  by pat_completeness auto
termination
  by (relation "measure (\<lambda>(re, b). length b)") (auto dest: drop_less)

declare grep_inner.simps [simp del]

text \<open>\<open>held\<close> are the \<open>m\<close> bytes in the buffer, \<open>input\<close> the bytes of the file not yet read. A call of
  \<open>read\<close> for \<open>k\<close> bytes delivers the first \<open>rd k input\<close> of them; a result of 0 ends the loop.\<close>

function grep_loop :: "(nat \<Rightarrow> uchar list \<Rightarrow> nat) \<Rightarrow> uchar list \<Rightarrow> uchar list \<Rightarrow> uchar list \<Rightarrow> uchar list" where
  "grep_loop rd re held input =
     (let k = 1024 - length held - 1; chunk = take (min k (rd k input)) input
      in if chunk = [] then []
         else let (out, r) = grep_inner re (held @ chunk) in out @ grep_loop rd re r (drop (length chunk) input))"
  by pat_completeness auto
termination
  by (relation "measure (\<lambda>(rd, re, held, input). length input)") auto

declare grep_loop.simps [simp del]

definition grep :: "(nat \<Rightarrow> uchar list \<Rightarrow> nat) \<Rightarrow> uchar list \<Rightarrow> uchar list \<Rightarrow> uchar list" where
  "grep rd re input = grep_loop rd re [] input"

section \<open>Filtering lines\<close>

text \<open>The complete lines of a text, and what follows the last newline.\<close>

fun lines_from :: "uchar list \<Rightarrow> uchar list \<Rightarrow> uchar list list" where
  "lines_from l [] = []"
| "lines_from l (c # cs) = (if c = ch_nl then l # lines_from [] cs else lines_from (l @ [c]) cs)"

fun tail_from :: "uchar list \<Rightarrow> uchar list \<Rightarrow> uchar list" where
  "tail_from l [] = l"
| "tail_from l (c # cs) = (if c = ch_nl then tail_from [] cs else tail_from (l @ [c]) cs)"

definition select_lines :: "uchar list \<Rightarrow> uchar list list \<Rightarrow> uchar list" where
  "select_lines re ls = concat (map (\<lambda>l. l @ [ch_nl]) (filter (search re) ls))"

lemma select_lines_simps [simp]:
  "select_lines re [] = []" "select_lines re (l # ls) = (if search re l then l @ [ch_nl] else []) @ select_lines re ls"
  "select_lines re (ls @ ks) = select_lines re ls @ select_lines re ks"
  by (simp_all add: select_lines_def)

lemma lines_from_append: "lines_from l (xs @ ys) = lines_from l xs @ lines_from (tail_from l xs) ys"
  by (induction l xs rule: lines_from.induct) simp_all

lemma lines_from_plain: "ch_nl \<notin> set xs \<Longrightarrow> lines_from l (xs @ ys) = lines_from (l @ xs) ys"
  by (induction xs arbitrary: l) auto

lemma tail_from_plain: "ch_nl \<notin> set xs \<Longrightarrow> tail_from l (xs @ ys) = tail_from (l @ xs) ys"
  by (induction xs arbitrary: l) auto

lemma tail_from_no_nl: "ch_nl \<notin> set l \<Longrightarrow> ch_nl \<notin> set (tail_from l xs)"
  by (induction l xs rule: tail_from.induct) auto

lemma set_tail_from: "set (tail_from l xs) \<subseteq> set l \<union> set xs"
  by (induction l xs rule: tail_from.induct) auto

lemma grep_inner_eq:
  assumes "0 \<notin> set b"
  shows "grep_inner re b = (select_lines re (lines_from [] b), tail_from [] b)"
  using assms
proof (induction re b rule: grep_inner.induct)
  case (1 re b)
  let ?line = "takeWhile (\<lambda>c. c \<noteq> 0 \<and> c \<noteq> ch_nl) b"
  have nl: "ch_nl \<notin> set ?line" by (auto dest: set_takeWhileD)
  have d: "drop (length ?line) b = dropWhile (\<lambda>c. c \<noteq> 0 \<and> c \<noteq> ch_nl) b" by (simp add: dropWhile_eq_drop)
  have b: "b = ?line @ drop (length ?line) b" unfolding d by simp
  show ?case
  proof (cases "drop (length ?line) b")
    case Nil
    then have "b = ?line" using b by simp
    then have "lines_from [] b = []" "tail_from [] b = b"
      using lines_from_plain [OF nl, of "[]" "[]"] tail_from_plain [OF nl, of "[]" "[]"] by simp_all
    then show ?thesis using Nil by (subst grep_inner.simps) (simp add: Let_def)
  next
    case (Cons c rest)
    have "\<not> (c \<noteq> 0 \<and> c \<noteq> ch_nl)" using Cons hd_dropWhile [of "\<lambda>c. c \<noteq> 0 \<and> c \<noteq> ch_nl" b] unfolding d by simp
    moreover have "set (c # rest) \<subseteq> set b" unfolding Cons [symmetric] by (rule set_drop_subset)
    ultimately have c: "c = ch_nl" "0 \<notin> set rest" using 1(2) by auto
    have e: "b = ?line @ ch_nl # rest" using b Cons c(1) by simp
    have "lines_from [] b = ?line # lines_from [] rest" "tail_from [] b = tail_from [] rest"
      by (subst e, simp add: lines_from_plain [OF nl] tail_from_plain [OF nl])+
    then show ?thesis using 1(1) [OF refl Cons c] Cons c(1)
      by (subst grep_inner.simps) (simp add: Let_def match_equiv)
  qed
qed

lemma lines_from_long: "\<forall>l'\<in>set (lines_from l xs). length l' < length l \<Longrightarrow> lines_from l xs = []"
proof (induction l xs rule: lines_from.induct)
  case (2 l c cs)
  show ?case
  proof (cases "c = ch_nl")
    case False
    have "\<forall>l'\<in>set (lines_from (l @ [c]) cs). length l' < length (l @ [c])" using 2(3) False by fastforce
    then show ?thesis using 2(2) False by simp
  qed (use 2(3) in simp)
qed simp

lemma length_tail_from: "length (tail_from l xs) \<le> length l + length xs"
  by (induction l xs rule: tail_from.induct) auto

lemma take_drop_len: "take n xs @ drop (length (take n xs)) xs = xs"
  by (cases "n \<le> length xs") simp_all

lemma grep_loop_eq:
  assumes "\<forall>k xs. 0 < k \<and> xs \<noteq> [] \<longrightarrow> 0 < rd k xs" and "0 \<notin> set held \<union> set inp" and "ch_nl \<notin> set held" and "length held \<le> 1023"
    and "\<forall>l\<in>set (lines_from held inp). length l < 1023"
  shows "grep_loop rd re held inp = select_lines re (lines_from held inp)"
  using assms(2-)
proof (induction "length inp" arbitrary: held inp rule: less_induct)
  case less
  define k where "k = 1024 - length held - 1"
  define chunk where "chunk = take (min k (rd k inp)) inp"
  let ?r = "tail_from [] (held @ chunk)" and ?rest = "drop (length chunk) inp"
  have g: "grep_loop rd re held inp = (if chunk = [] then []
      else let (out, r) = grep_inner re (held @ chunk) in out @ grep_loop rd re r ?rest)"
    by (subst grep_loop.simps) (simp only: k_def [symmetric] chunk_def [symmetric] Let_def)
  have held: "tail_from [] held = held" "lines_from [] (held @ xs) = lines_from held xs" for xs
    using tail_from_plain [OF less.prems(2), of "[]" "[]"] lines_from_plain [OF less.prems(2), of "[]"] by simp_all
  show ?case
  proof (cases "chunk = []")
    case True
    then consider "inp = []" | "k = 0" using assms(1) [rule_format, of k inp] by (fastforce simp: chunk_def min_def split: if_splits)
    then have "lines_from held inp = []"
    proof cases
      case 2
      then have "length held = 1023" using less.prems(3) by (simp add: k_def)
      then show ?thesis using less.prems(4) lines_from_long by simp
    qed simp
    then show ?thesis using g True by simp
  next
    case False
    have inp: "inp = chunk @ ?rest" unfolding chunk_def by (rule take_drop_len [symmetric])
    have sub: "set (held @ chunk) \<subseteq> set held \<union> set inp" unfolding chunk_def by (auto dest: in_set_takeD)
    have i: "grep_inner re (held @ chunk) = (select_lines re (lines_from [] (held @ chunk)), ?r)"
      by (rule grep_inner_eq) (use sub less.prems(1) in blast)
    have l: "lines_from held inp = lines_from [] (held @ chunk) @ lines_from ?r ?rest"
      using lines_from_append [of "[]" "held @ chunk" ?rest] held(2) [of inp] inp by simp
    have "length chunk \<le> k" by (simp add: chunk_def)
    then have "length ?r \<le> 1023" using length_tail_from [of "[]" "held @ chunk"] less.prems(3) by (simp add: k_def)
    moreover have "0 \<notin> set ?r \<union> set ?rest" using set_tail_from [of "[]" "held @ chunk"] sub less.prems(1) by (auto dest: in_set_dropD)
    moreover have "ch_nl \<notin> set ?r" by (rule tail_from_no_nl) simp
    moreover have "length ?rest < length inp" using False arg_cong [OF inp, of length] by (cases chunk) auto
    ultimately have "grep_loop rd re ?r ?rest = select_lines re (lines_from ?r ?rest)"
      using less.prems(4) l by (intro less.hyps) auto
    then show ?thesis using g False i l by simp
  qed
qed

text \<open>C21. \<open>grep\<close> prints the lines that match: for a file without NUL bytes whose lines have at most 1022
  characters, however \<open>read\<close> cuts it into pieces, the output is the concatenation, in order, of the
  lines, each with its newline, in which the pattern occurs.\<close>

theorem grep_selects_lines:
  assumes "\<forall>k xs. 0 < k \<and> xs \<noteq> [] \<longrightarrow> 0 < rd k xs" and "0 \<notin> set inp" and "\<forall>l\<in>set (lines_from [] inp). length l \<le> 1022"
  shows "grep rd re inp = select_lines re (lines_from [] inp)"
proof -
  have "\<forall>l\<in>set (lines_from [] inp). length l < 1023" using assms(3) by fastforce
  then show ?thesis unfolding grep_def by (intro grep_loop_eq) (use assms(1,2) in simp_all)
qed

text \<open>The pattern \<open>a.*c$\<close> on three lines, read two bytes at a time.\<close>

theorem grep_selects_lines_witness:
  "grep (\<lambda>k xs. 2) [97, 46, 42, 99, 36] [97, 98, 99, 10, 98, 10, 120, 97, 99, 10, 97] = [97, 98, 99, 10, 120, 97, 99, 10]"
proof -
  let ?f = "[97, 98, 99, 10, 98, 10, 120, 97, 99, 10, 97] :: uchar list" and ?re = "[97, 46, 42, 99, 36] :: uchar list"
  have l: "lines_from [] ?f = [[97, 98, 99], [98], [120, 97, 99]]" by simp
  have "match ?re [97, 98, 99]" "\<not> match ?re [98]" "match ?re [120, 97, 99]" by code_simp+
  then have "select_lines ?re (lines_from [] ?f) = [97, 98, 99, 10, 120, 97, 99, 10]" unfolding l by (simp add: match_equiv [symmetric])
  then show ?thesis using grep_selects_lines [of "\<lambda>k xs. 2" ?f ?re] l by simp
qed

end
