(* ===== verification/User_Lib.thy ===== *)
theory User_Lib
  imports Memory
begin

text \<open>
  The C library of the user programs: \<open>user/ulib.c\<close> and \<open>user/printf.c\<close>.

  The memory routines act on the bytes of the process, a function from addresses. A loop that runs
  to a NUL that may be missing is a partial function. The system calls \<open>read\<close> and \<open>write\<close> are outside
  the library: \<open>read\<close> is a parameter, and what \<open>printf\<close> writes is its result, byte by byte in
  the order of the calls of \<open>putc\<close>. The variable arguments of \<open>printf\<close> are a list; taking one that is
  missing or of another type is undefined in C and a \<open>Fault\<close> here.
\<close>

section \<open>Strings and memory\<close>

partial_function (option) u_strcpy :: "memory \<Rightarrow> addr \<Rightarrow> addr \<Rightarrow> memory option" where
  "u_strcpy m s t = (let m' = m(s := m t) in if m' s \<noteq> 0 then u_strcpy m' (s + 1) (t + 1) else Some m')"

partial_function (option) u_strcmp :: "memory \<Rightarrow> addr \<Rightarrow> addr \<Rightarrow> int option" where
  "u_strcmp m p q =
     (if m p \<noteq> 0 \<and> m p = m q then u_strcmp m (p + 1) (q + 1) else Some (int (unat (m p)) - int (unat (m q))))"

definition u_strlen :: "memory \<Rightarrow> addr \<Rightarrow> nat option" where
  "u_strlen m s = strlen_from m s 0"

definition u_memset :: "memory \<Rightarrow> addr \<Rightarrow> uint32 \<Rightarrow> nat \<Rightarrow> memory" where
  "u_memset m dst c n = memset_from m dst (ucast c) 0 n"

partial_function (option) u_strchr :: "memory \<Rightarrow> addr \<Rightarrow> uchar \<Rightarrow> addr option" where
  "u_strchr m s c = (if m s = 0 then Some 0 else if m s = c then Some s else u_strchr m (s + 1) c)"

definition u_memmove :: "memory \<Rightarrow> addr \<Rightarrow> addr \<Rightarrow> int \<Rightarrow> memory" where
  "u_memmove m dst src n =
     (if src > dst then copy_up m dst src (nat n) else copy_down m (dst + of_int n) (src + of_int n) (nat n))"

definition u_memcmp :: "memory \<Rightarrow> addr \<Rightarrow> addr \<Rightarrow> nat \<Rightarrow> int" where
  "u_memcmp m s1 s2 n = memcmp m s1 m s2 n"

definition u_memcpy :: "memory \<Rightarrow> addr \<Rightarrow> addr \<Rightarrow> nat \<Rightarrow> memory" where
  "u_memcpy m dst src n = u_memmove m dst src (sint (of_nat n :: uint32))"

text \<open>\<open>rd\<close> is the call \<open>read(0, &c, 1)\<close>: the byte, or \<open>None\<close> when the result is below 1. The result is
  the string without its NUL.\<close>

fun gets_loop :: "('s \<Rightarrow> uchar option \<times> 's) \<Rightarrow> nat \<Rightarrow> 's \<Rightarrow> uchar list \<times> 's" where
  "gets_loop rd 0 s = ([], s)"
| "gets_loop rd (Suc k) s =
     (case rd s of
        (None, s) \<Rightarrow> ([], s)
      | (Some c, s) \<Rightarrow>
          if c = 10 \<or> c = 13 then ([c], s)
          else let (cs, s) = gets_loop rd k s in (c # cs, s))"

definition gets :: "('s \<Rightarrow> uchar option \<times> 's) \<Rightarrow> int \<Rightarrow> 's \<Rightarrow> uchar list \<times> 's" where
  "gets rd mx s = gets_loop rd (nat (mx - 1)) s"



section \<open>Printing numbers\<close>

definition u_digits :: "nat \<Rightarrow> uchar" where
  "u_digits d = (if d < 10 then of_nat (48 + d) else of_nat (55 + d))"

text \<open>The loop fills \<open>buf[20]\<close> from the least significant digit; \<open>buf\<close> is what it has written so far.\<close>

function digit_loop :: "(nat \<Rightarrow> uchar) \<Rightarrow> nat \<Rightarrow> nat \<Rightarrow> uchar list \<Rightarrow> uchar list kres" where
  "digit_loop dg b x buf =
     (if length buf \<ge> 20 then Inl (Fault ''buf'')
      else let buf = buf @ [dg (x mod b)] in if x div b \<noteq> 0 then digit_loop dg b (x div b) buf else Inr buf)"
  by pat_completeness auto
termination
  by (relation "measure (\<lambda>(dg, b, x, buf). 20 - length buf)") auto

declare digit_loop.simps [simp del]

text \<open>\<open>printint\<close> of the user library (and, with its own digits, of the kernel): the digits are
  written last to first.\<close>

definition print_number :: "(nat \<Rightarrow> uchar) \<Rightarrow> uint64 \<Rightarrow> nat \<Rightarrow> bool \<Rightarrow> uchar list kres" where
  "print_number dg xx b sg =
     (let neg = (sg \<and> sint xx < 0); x = (if neg then - xx else xx)
      in kbind (digit_loop dg b (unat x) []) (\<lambda>buf.
         if neg then if length buf \<ge> 20 then Inl (Fault ''buf'') else Inr (rev (buf @ [45])) else Inr (rev buf)))"

definition u_printint :: "uint64 \<Rightarrow> nat \<Rightarrow> bool \<Rightarrow> uchar list kres" where
  "u_printint xx b sg = print_number u_digits xx b sg"

primrec hex_loop :: "(nat \<Rightarrow> uchar) \<Rightarrow> nat \<Rightarrow> uint64 \<Rightarrow> uchar list" where
  "hex_loop dg 0 x = []"
| "hex_loop dg (Suc k) x = dg (unat (drop_bit 60 x)) # hex_loop dg k (push_bit 4 x)"

definition u_printptr :: "uint64 \<Rightarrow> uchar list" where
  "u_printptr x = [48, 120] @ hex_loop u_digits 16 x"

section \<open>Formats\<close>

datatype va = VNum uint64 | VStr "uchar list option"

definition va_num :: "va list \<Rightarrow> (uint64 \<times> va list) kres" where
  "va_num ap = (case ap of VNum x # ap \<Rightarrow> Inr (x, ap) | _ \<Rightarrow> Inl (Fault ''va_arg''))"

definition va_str :: "va list \<Rightarrow> (uchar list option \<times> va list) kres" where
  "va_str ap = (case ap of VStr x # ap \<Rightarrow> Inr (x, ap) | _ \<Rightarrow> Inl (Fault ''va_arg''))"

abbreviation (input) null_text :: "uchar list" where "null_text \<equiv> [40, 110, 117, 108, 108, 41]"

text \<open>\<open>int\<close> and \<open>uint32\<close> arguments are the low half of the register.\<close>

definition as_int :: "uint64 \<Rightarrow> uint64" where "as_int x = scast (ucast x :: uint32)"
definition as_uint :: "uint64 \<Rightarrow> uint64" where "as_uint x = ucast (ucast x :: uint32)"

text \<open>One conversion after \<open>%\<close>: the output, the characters of the format taken beyond \<open>c0\<close>, and the
  arguments left. \<open>c0\<close>, \<open>c1\<close>, \<open>c2\<close> are the next characters of the format, 0 past its end.\<close>

definition u_convert :: "uchar \<Rightarrow> uchar \<Rightarrow> uchar \<Rightarrow> va list \<Rightarrow> (uchar list \<times> nat \<times> va list) kres" where
  "u_convert c0 c1 c2 ap =
     (let num = (\<lambda>f b sg k. kbind (va_num ap) (\<lambda>(x, ap). kbind (u_printint (f x) b sg) (\<lambda>cs. Inr (cs, k, ap))))
      in if c0 = 100 then num as_int 10 True 0
         else if c0 = 108 \<and> c1 = 100 then num id 10 True 1
         else if c0 = 108 \<and> c1 = 108 \<and> c2 = 100 then num id 10 True 2
         else if c0 = 117 then num as_uint 10 False 0
         else if c0 = 108 \<and> c1 = 117 then num id 10 False 1
         else if c0 = 108 \<and> c1 = 108 \<and> c2 = 117 then num id 10 False 2
         else if c0 = 120 then num as_uint 16 False 0
         else if c0 = 108 \<and> c1 = 120 then num id 16 False 1
         else if c0 = 108 \<and> c1 = 108 \<and> c2 = 120 then num id 16 False 2
         else if c0 = 112 then kbind (va_num ap) (\<lambda>(x, ap). Inr (u_printptr x, 0, ap))
         else if c0 = 99 then kbind (va_num ap) (\<lambda>(x, ap). Inr ([ucast x], 0, ap))
         else if c0 = 115
         then kbind (va_str ap) (\<lambda>(x, ap). Inr (case x of None \<Rightarrow> null_text | Some cs \<Rightarrow> cs, 0, ap))
         else if c0 = 37 then Inr ([37], 0, ap)
         else Inr ([37, c0], 0, ap))"

definition peek_fmt :: "uchar list \<Rightarrow> uchar" where
  "peek_fmt cs = (case cs of [] \<Rightarrow> 0 | c # _ \<Rightarrow> c)"

text \<open>\<open>state\<close> is whether a \<open>%\<close> has just been seen.\<close>

function vprintf_loop :: "bool \<Rightarrow> uchar list \<Rightarrow> va list \<Rightarrow> uchar list kres" where
  "vprintf_loop pct fmt ap =
     (case fmt of
        [] \<Rightarrow> Inr []
      | c0 # rest \<Rightarrow>
          if \<not> pct
          then if c0 = 37 then vprintf_loop True rest ap
               else kbind (vprintf_loop False rest ap) (\<lambda>cs. Inr (c0 # cs))
          else let c1 = peek_fmt rest; c2 = (if c1 = 0 then 0 else peek_fmt (tl rest))
               in kbind (u_convert c0 c1 c2 ap) (\<lambda>(out, k, ap).
                  kbind (vprintf_loop False (drop k rest) ap) (\<lambda>cs. Inr (out @ cs))))"
  by pat_completeness auto
termination
  by (relation "measure (\<lambda>(pct, fmt, ap). length fmt)") auto

declare vprintf_loop.simps [simp del]

definition vprintf :: "uchar list \<Rightarrow> va list \<Rightarrow> uchar list kres" where
  "vprintf fmt ap = vprintf_loop False fmt ap"

section \<open>Printed numbers are numerals\<close>

text \<open>The value of a list of digits, least significant first.\<close>

primrec horner :: "nat \<Rightarrow> nat list \<Rightarrow> nat" where
  "horner b [] = 0"
| "horner b (d # ds) = d + b * horner b ds"

lemma horner_foldl: "foldl (\<lambda>v d. v * b + d) 0 (rev ds) = horner b ds"
  by (induction ds) (simp_all add: mult.commute)

lemma digit_loop_ok:
  assumes "2 \<le> b" and "x < b ^ k" and "0 < k" and "length buf + k \<le> 20"
  shows "\<exists>ds. digit_loop dg b x buf = Inr (buf @ map dg ds) \<and> ds \<noteq> [] \<and> length ds \<le> k \<and> (\<forall>d\<in>set ds. d < b) \<and>
    horner b ds = x \<and> (last ds \<noteq> 0 \<or> ds = [0])"
  using assms(2-)
proof (induction k arbitrary: x buf)
  case (Suc k)
  have m: "x mod b < b" using assms(1) by simp
  show ?case
  proof (cases "x div b = 0")
    case True
    then have x: "x mod b = x" using assms(1) by (simp add: div_eq_0_iff)
    then have "digit_loop dg b x buf = Inr (buf @ map dg [x])" using True Suc.prems(3) by (subst digit_loop.simps) simp
    then show ?thesis using m x by (intro exI [of _ "[x]"]) auto
  next
    case False
    have lt: "x div b < b ^ k" using Suc.prems(1) assms(1) by (simp add: div_less_iff_less_mult mult.commute)
    then have "0 < k" using False by (cases k) auto
    then obtain ds where ds: "digit_loop dg b (x div b) (buf @ [dg (x mod b)]) = Inr ((buf @ [dg (x mod b)]) @ map dg ds)"
      "ds \<noteq> []" "length ds \<le> k" "\<forall>d\<in>set ds. d < b" "horner b ds = x div b" "last ds \<noteq> 0 \<or> ds = [0]"
      using Suc.IH [OF lt, of "buf @ [dg (x mod b)]"] Suc.prems(3) by auto
    have "digit_loop dg b x buf = Inr (buf @ map dg (x mod b # ds))"
      using ds(1) False Suc.prems(3) by (subst digit_loop.simps) simp
    moreover have "last (x mod b # ds) \<noteq> 0" using ds(2,5,6) False by auto
    ultimately show ?thesis using ds m by (intro exI [of _ "x mod b # ds"]) auto
  qed
qed simp

text \<open>What is printed for a number in base 10 or 16: its sign and its digits, without leading zeros.\<close>

definition is_numeral :: "(nat \<Rightarrow> uchar) \<Rightarrow> nat \<Rightarrow> int \<Rightarrow> uchar list \<Rightarrow> bool" where
  "is_numeral dg b v out \<longleftrightarrow> (\<exists>ds. out = (if v < 0 then [45] else []) @ map dg ds \<and> (\<forall>d\<in>set ds. d < b) \<and>
     int (foldl (\<lambda>v d. v * b + d) 0 ds) = \<bar>v\<bar> \<and> ds \<noteq> [] \<and> (hd ds \<noteq> 0 \<or> ds = [0]))"

lemma unat_neg_sint: "sint x < 0 \<Longrightarrow> int (unat (- x)) = - sint x \<and> unat (- x) \<le> 2 ^ 63" for x :: uint64
proof -
  assume neg: "sint x < 0"
  have r: "- (2 ^ 63) \<le> sint x" using sint_greater_eq [of x] by simp
  have "- x = word_of_int (- sint x)" by simp
  then have "uint (- x) = (- sint x) mod 2 ^ 64" by (simp only: uint_word_of_int) simp
  also have "\<dots> = - sint x" by (rule mod_pos_pos_trivial) (use neg r in simp_all)
  finally have u: "uint (- x) = - sint x" .
  then have "int (unat (- x)) \<le> int (2 ^ 63)" using r by (simp only: uint_nat [symmetric]) simp
  then have "unat (- x) \<le> 2 ^ 63" by (simp only: of_nat_le_iff)
  then show ?thesis using u by (simp only: uint_nat [symmetric])
qed

lemma uint_sint_pos: "0 \<le> sint x \<Longrightarrow> uint x = sint x" for x :: uint64
proof -
  assume pos: "0 \<le> sint x"
  have "uint x = uint (word_of_int (sint x) :: uint64)" by simp
  also have "\<dots> = sint x mod 2 ^ 64" by (simp only: uint_word_of_int) simp
  also have "\<dots> = sint x" by (rule mod_pos_pos_trivial) (use pos sint_less [of x] in simp_all)
  finally show ?thesis .
qed

lemma print_number_ok:
  assumes "b = 10 \<or> b = 16"
  shows "must (print_number dg xx b sg) (\<lambda>out. is_numeral dg b (if sg then sint xx else uint xx) out \<and> length out \<le> 20)"
proof (cases "sg \<and> sint xx < 0")
  case True
  have u: "int (unat (- xx)) = - sint xx" "unat (- xx) \<le> 2 ^ 63" using unat_neg_sint True by auto
  have two: "2 \<le> b" using assms by auto
  have room: "length ([] :: uchar list) + 19 \<le> 20" "(0::nat) < 19" by simp_all
  have "unat (- xx) < b ^ 19" using u(2) assms by auto
  then obtain ds where ds: "digit_loop dg b (unat (- xx)) [] = Inr (map dg ds)" "ds \<noteq> []" "length ds \<le> 19" "\<forall>d\<in>set ds. d < b"
    "horner b ds = unat (- xx)" "last ds \<noteq> 0 \<or> ds = [0]"
    using digit_loop_ok [OF two _ _ room(1), of "unat (- xx)" dg] unfolding append_Nil by (metis room(2))
  have "is_numeral dg b (sint xx) (45 # map dg (rev ds))" unfolding is_numeral_def
    by (intro exI [of _ "rev ds"]) (use ds u True horner_foldl [of b ds] in \<open>auto simp: hd_rev\<close>)
  then show ?thesis using True ds(1,3) by (simp add: print_number_def Let_def rev_map)
next
  case False
  have v: "(if sg then sint xx else uint xx) = uint xx" "int (unat xx) = uint xx"
    using False uint_sint_pos [of xx] by (auto simp: not_less)
  have "unat xx < 2 ^ 64" by simp
  have two: "2 \<le> b" using assms by auto
  have room: "length ([] :: uchar list) + 20 \<le> 20" "(0::nat) < 20" by simp_all
  have "(2::nat) ^ 64 \<le> b ^ 20" using assms by auto
  then have "unat xx < b ^ 20" using \<open>unat xx < 2 ^ 64\<close> by (rule less_le_trans [rotated])
  then obtain ds where ds: "digit_loop dg b (unat xx) [] = Inr (map dg ds)" "ds \<noteq> []" "length ds \<le> 20" "\<forall>d\<in>set ds. d < b"
    "horner b ds = unat xx" "last ds \<noteq> 0 \<or> ds = [0]"
    using digit_loop_ok [OF two _ _ room(1), of "unat xx" dg] unfolding append_Nil by (metis room(2))
  have "is_numeral dg b (uint xx) (map dg (rev ds))" unfolding is_numeral_def
    by (intro exI [of _ "rev ds"]) (use ds v(2) horner_foldl [of b ds] in \<open>auto simp: hd_rev\<close>)
  moreover have "print_number dg xx b sg = Inr (map dg (rev ds))" using False ds(1) by (auto simp: print_number_def Let_def rev_map)
  ultimately show ?thesis unfolding v(1) using ds(3) by simp
qed

text \<open>C24. \<open>printint\<close> prints numerals and stays inside its buffer of 20 bytes: for every 64-bit argument,
  signed or unsigned, in base 10 or 16, it writes the sign and the digits of the value without
  leading zeros, in at most 20 characters, the most negative number included.\<close>

theorem printint_numeral:
  assumes "b = 10 \<or> b = 16"
  shows "must (u_printint xx b sg) (\<lambda>out. is_numeral u_digits b (if sg then sint xx else uint xx) out \<and> length out \<le> 20)"
  unfolding u_printint_def by (rule print_number_ok [OF assms])

theorem printint_numeral_witness:
  "must (u_printint (- (2 ^ 63)) 10 True) (\<lambda>out. is_numeral u_digits 10 (- (2 ^ 63)) out \<and> length out \<le> 20)"
proof -
  have "sint (- (2 ^ 63) :: uint64) = - (2 ^ 63)" by simp
  then show ?thesis using printint_numeral [of 10 "- (2 ^ 63)" True] by simp
qed

section \<open>Reading numbers back\<close>






end
