(* ===== verification/Umalloc.thy ===== *)
theory Umalloc
  imports User_Lib
begin

text \<open>
  The allocator of the user programs, \<open>user/umalloc.c\<close>: a circular free list in order of addresses,
  searched first-fit from where the last search ended, with neighbours joined when a block is freed.

  Addresses count units of \<open>sizeof(Header)\<close>, 16 bytes, to which every block is aligned. The fields of
  the headers are two functions of the address. \<open>sbrk\<close> is a system call and a parameter of the
  model; \<open>sbrk_ok\<close> says what is relied on. A search that does not end is the value \<open>None\<close>.
\<close>

section \<open>State\<close>

record uheap =
  hptr :: "nat \<Rightarrow> nat"
  hsize :: "nat \<Rightarrow> nat"
  freep :: nat
  base_at :: nat
  brk :: nat



section \<open>Operations\<close>









section \<open>The free list\<close>

text \<open>The nodes met from \<open>a\<close> on until \<open>b\<close> is reached.\<close>

primrec hpath :: "uheap \<Rightarrow> nat \<Rightarrow> nat list \<Rightarrow> nat \<Rightarrow> bool" where
  "hpath h a [] b \<longleftrightarrow> a = b"
| "hpath h a (x # xs) b \<longleftrightarrow> a = x \<and> hpath h (hptr h a) xs b"

lemma hpath_append [simp]: "hpath h a (xs @ ys) b \<longleftrightarrow> (\<exists>c. hpath h a xs c \<and> hpath h c ys b)"
  by (induction xs arbitrary: a) auto


lemma hpath_end: "hpath h a xs b \<Longrightarrow> hpath h a xs c \<Longrightarrow> b = c"
  by (induction xs arbitrary: a) auto


definition cells :: "(nat \<Rightarrow> nat) \<Rightarrow> nat \<Rightarrow> nat set" where
  "cells sz a = {a..<a + sz a}"

definition all_cells :: "(nat \<Rightarrow> nat) \<Rightarrow> nat list \<Rightarrow> nat set" where
  "all_cells sz fs = (\<Union>a\<in>set fs. cells sz a)"







section \<open>Freeing\<close>




lemma all_cells_simps [simp]:
  "all_cells sz [] = {}" "all_cells sz (a # as) = cells sz a \<union> all_cells sz as" "all_cells sz (as @ bs) = all_cells sz as \<union> all_cells sz bs"
  by (auto simp: all_cells_def)






section \<open>Allocating\<close>










section \<open>Runs of the allocator\<close>












end
