(* ===== verification/Shell.thy ===== *)
theory Shell
  imports User_Lib
begin

text \<open>
  The command parser of the shell, \<open>user/sh.c\<close>.

  A pointer into the command line is the rest of the line from there on, a list without its NUL, so the
  end \<open>es\<close> is the empty list. A word is the list of its characters, for which \<open>nulterminate\<close> has
  nothing to do. In C, \<open>parseexec\<close> goes on adding arguments to the command that \<open>parseredirs\<close> has already wrapped; here
  the redirections are collected and put around the command at the end, in the same order. The four
  functions that call each other carry a bound on the depth of the calls; \<open>parse_total\<close> shows that
  four for every character of the line is enough. Memory for the nodes is assumed to be there.
\<close>

section \<open>Commands\<close>

datatype redir_mode = O_READ | O_TRUNCATE | O_APPEND

datatype cmd =
    EXEC "uchar list list"
  | REDIR cmd "uchar list" redir_mode
  | PIPE cmd cmd
  | LIST cmd cmd
  | BACK cmd

definition wrap :: "cmd \<Rightarrow> (uchar list \<times> redir_mode) list \<Rightarrow> cmd" where
  "wrap c rs = foldl (\<lambda>c (f, m). REDIR c f m) c rs"

section \<open>Tokens\<close>

definition whitespace :: "uchar \<Rightarrow> bool" where
  "whitespace c \<longleftrightarrow> c \<in> {32, 9, 13, 10, 11}"

abbreviation (input) ch_lt :: uchar where "ch_lt \<equiv> 60"
abbreviation (input) ch_bar :: uchar where "ch_bar \<equiv> 124"
abbreviation (input) ch_gt :: uchar where "ch_gt \<equiv> 62"
abbreviation (input) ch_amp :: uchar where "ch_amp \<equiv> 38"
abbreviation (input) ch_semi :: uchar where "ch_semi \<equiv> 59"
abbreviation (input) ch_open :: uchar where "ch_open \<equiv> 40"
abbreviation (input) ch_close :: uchar where "ch_close \<equiv> 41"

definition symbols :: "uchar \<Rightarrow> bool" where
  "symbols c \<longleftrightarrow> c \<in> {ch_lt, ch_bar, ch_gt, ch_amp, ch_semi, ch_open, ch_close}"

abbreviation (input) tok_word :: uchar where "tok_word \<equiv> 97"
abbreviation (input) tok_append :: uchar where "tok_append \<equiv> 43"

definition skip :: "uchar list \<Rightarrow> uchar list" where
  "skip s = dropWhile whitespace s"

text \<open>The kind of token, its characters, and the rest of the line.\<close>

definition gettoken :: "uchar list \<Rightarrow> uchar \<times> uchar list \<times> uchar list" where
  "gettoken s =
     (case skip s of
        [] \<Rightarrow> (0, [], [])
      | c # r \<Rightarrow>
          if c = ch_gt
          then (case r of d # r' \<Rightarrow> if d = ch_gt then (tok_append, [c, d], skip r') else (c, [c], skip r) | [] \<Rightarrow> (c, [c], skip r))
          else if symbols c then (c, [c], skip r)
          else let w = takeWhile (\<lambda>d. \<not> whitespace d \<and> \<not> symbols d) (c # r)
               in (tok_word, w, skip (drop (length w) (c # r))))"

definition peek :: "uchar set \<Rightarrow> uchar list \<Rightarrow> bool" where
  "peek toks s = (case skip s of [] \<Rightarrow> False | c # _ \<Rightarrow> c \<in> toks)"

lemma length_skip: "length (skip s) \<le> length s"
  by (simp add: skip_def length_dropWhile_le)

lemma skip_idem [simp]: "skip (skip s) = skip s"
  by (simp add: skip_def dropWhile_idem)

lemma skip_Nil [simp]: "skip [] = []"
  by (simp add: skip_def)

lemma skip_head: "skip s = c # q \<Longrightarrow> \<not> whitespace c"
  by (simp add: skip_def dropWhile_eq_Cons_conv)

lemma length_skip_le: "length q \<le> n \<Longrightarrow> length (skip q) \<le> n"
  using length_skip [of q] by simp

lemma gettoken_shorter:
  assumes "gettoken s = (t, w, r)" and "skip s \<noteq> []"
  shows "length r < length s"
proof -
  obtain c q where c: "skip s = c # q" using assms(2) by (cases "skip s") auto
  have l: "length (c # q) \<le> length s" using length_skip [of s] c by simp
  define v where "v = takeWhile (\<lambda>d. \<not> whitespace d \<and> \<not> symbols d) (c # q)"
  have "length (drop (length v) (c # q)) \<le> length q" if "\<not> symbols c" using skip_head [OF c] that by (simp add: v_def)
  then have "length r \<le> length q"
    using assms(1) c skip_head [OF c] by (auto simp: gettoken_def v_def [symmetric] Let_def split: if_splits list.splits intro!: length_skip_le)
  then show ?thesis using l by simp
qed

lemma gettoken_le:
  assumes "gettoken s = (t, w, r)"
  shows "length r \<le> length s"
  using gettoken_shorter [OF assms] assms by (cases "skip s = []") (auto simp: gettoken_def)

lemma peek_skip: "peek toks s \<Longrightarrow> skip s \<noteq> []"
  by (auto simp: peek_def)

section \<open>The parser\<close>

definition redir_of :: "uchar \<Rightarrow> redir_mode" where
  "redir_of tok = (if tok = ch_lt then O_READ else if tok = ch_gt then O_TRUNCATE else O_APPEND)"

function parseredirs :: "uchar list \<Rightarrow> ((uchar list \<times> redir_mode) list \<times> uchar list) kres" where
  "parseredirs s =
     (if peek {ch_lt, ch_gt} s
      then case gettoken s of (tok, _, s1) \<Rightarrow>
           (case gettoken s1 of (t, f, s2) \<Rightarrow>
              if t \<noteq> tok_word then Inl (Panic ''missing file for redirection'')
              else kbind (parseredirs s2) (\<lambda>(rs, s). Inr ((f, redir_of tok) # rs, s)))
      else Inr ([], skip s))"
  by pat_completeness auto
termination
proof (relation "measure length")
  fix s tok y s1 t z f s2 and p :: "uchar list \<times> uchar list" and p' :: "uchar list \<times> uchar list"
  assume "peek {ch_lt, ch_gt} s" "(tok, p) = gettoken s" "(y, s1) = p" "(t, p') = gettoken s1" "(f, s2) = p'"
  then have "length s1 < length s" "length s2 \<le> length s1"
    using gettoken_shorter [of s tok y s1] gettoken_le [of s1 t f s2] peek_skip by auto
  then show "(s2, s) \<in> measure length" by simp
qed simp

declare parseredirs.simps [simp del]

lemma parseredirs_le: "parseredirs s = Inr (rs, r) \<Longrightarrow> length r \<le> length s"
proof (induction s arbitrary: rs r rule: parseredirs.induct)
  case (1 s)
  show ?case
  proof (cases "peek {ch_lt, ch_gt} s")
    case True
    obtain tok y s1 where g: "gettoken s = (tok, y, s1)" by (cases "gettoken s")
    obtain t f s2 where g1: "gettoken s1 = (t, f, s2)" by (cases "gettoken s1")
    have t: "t = tok_word" using 1(2) True g g1 by (subst (asm) parseredirs.simps) (auto split: if_splits)
    then obtain rs' where "parseredirs s2 = Inr (rs', r)" using 1(2) True g g1 by (subst (asm) parseredirs.simps) auto
    then have "length r \<le> length s2" using 1(1) [OF True _ refl _ refl, of tok y s1 t f s2] g g1 t by simp
    then show ?thesis using gettoken_le [OF g] gettoken_le [OF g1] by simp
  next
    case False
    then show ?thesis using 1(2) length_skip [of s] by (subst (asm) parseredirs.simps) simp
  qed
qed

abbreviation (input) MAXARGS :: nat where "MAXARGS \<equiv> 10"

function exec_loop :: "uchar list list \<Rightarrow> (uchar list \<times> redir_mode) list \<Rightarrow> uchar list
    \<Rightarrow> (uchar list list \<times> (uchar list \<times> redir_mode) list \<times> uchar list) kres" where
  "exec_loop args rs s =
     (if peek {ch_bar, ch_close, ch_amp, ch_semi} s then Inr (args, rs, skip s)
      else case gettoken s of (tok, w, s1) \<Rightarrow>
           if tok = 0 then Inr (args, rs, s1)
           else if tok \<noteq> tok_word then Inl (Panic ''syntax'')
           else let args = args @ [w]
                in if length args \<ge> MAXARGS then Inl (Panic ''too many args'')
                   else kbind (parseredirs s1) (\<lambda>(rs', s2). exec_loop args (rs @ rs') s2))"
  by pat_completeness auto
termination
proof (relation "measure (\<lambda>(args, rs, s). length s)")
  fix s args rs tok w s1 and p q args' rs' s2
  assume a: "(tok, p) = gettoken s" "(w, s1) = p" "tok \<noteq> (0::uchar)" "parseredirs s1 = Inr q" "(rs', s2) = q"
  have "skip s \<noteq> []" using a(1-3) by (auto simp: gettoken_def)
  then have "length s2 < length s" using a gettoken_shorter [of s tok w s1] parseredirs_le [of s1 rs' s2] by auto
  then show "((args', rs @ rs', s2), args, rs, s) \<in> measure (\<lambda>(args, rs, s). length s)" by simp
qed simp

declare exec_loop.simps [simp del]

definition after_token :: "uchar list \<Rightarrow> uchar list" where
  "after_token s = snd (snd (gettoken s))"

lemma after_token_shorter: "peek toks s \<Longrightarrow> length (after_token s) < length s"
  using gettoken_shorter [of s "fst (gettoken s)" "fst (snd (gettoken s))"] peek_skip by (auto simp: after_token_def)

function amp_loop :: "cmd \<Rightarrow> uchar list \<Rightarrow> cmd \<times> uchar list" where
  "amp_loop c s = (if peek {ch_amp} s then amp_loop (BACK c) (after_token s) else (c, skip s))"
  by pat_completeness auto
termination
  by (relation "measure (\<lambda>(c, s). length s)") (auto simp: after_token_shorter)

declare amp_loop.simps [simp del]

fun parseline :: "nat \<Rightarrow> uchar list \<Rightarrow> (cmd \<times> uchar list) kres"
  and parsepipe :: "nat \<Rightarrow> uchar list \<Rightarrow> (cmd \<times> uchar list) kres"
  and parseexec :: "nat \<Rightarrow> uchar list \<Rightarrow> (cmd \<times> uchar list) kres"
  and parseblock :: "nat \<Rightarrow> uchar list \<Rightarrow> (cmd \<times> uchar list) kres" where
  "parseline 0 s = Inl Hangs"
| "parseline (Suc k) s =
     kbind (parsepipe k s) (\<lambda>(c, s).
     case amp_loop c s of (c, s) \<Rightarrow>
       if peek {ch_semi} s then kbind (parseline k (after_token s)) (\<lambda>(d, s). Inr (LIST c d, s))
       else Inr (c, skip s))"
| "parsepipe 0 s = Inl Hangs"
| "parsepipe (Suc k) s =
     kbind (parseexec k s) (\<lambda>(c, s).
     if peek {ch_bar} s then kbind (parsepipe k (after_token s)) (\<lambda>(d, s). Inr (PIPE c d, s))
     else Inr (c, skip s))"
| "parseexec 0 s = Inl Hangs"
| "parseexec (Suc k) s =
     (if peek {ch_open} s then parseblock k s
      else kbind (parseredirs s) (\<lambda>(rs, s).
           kbind (exec_loop [] rs s) (\<lambda>(args, rs, s).
           Inr (wrap (EXEC args) rs, s))))"
| "parseblock 0 s = Inl Hangs"
| "parseblock (Suc k) s =
     (if \<not> peek {ch_open} s then Inl (Panic ''parseblock'')
      else kbind (parseline k (after_token s)) (\<lambda>(c, s).
           if \<not> peek {ch_close} s then Inl (Panic ''syntax - missing )'')
           else kbind (parseredirs (after_token s)) (\<lambda>(rs, s).
                Inr (wrap c rs, s))))"

definition parsecmd :: "uchar list \<Rightarrow> cmd kres" where
  "parsecmd s =
     kbind (parseline (4 * length s + 4) s) (\<lambda>(c, s).
     if skip s \<noteq> [] then Inl (Panic ''syntax'') else Inr c)"

section \<open>The parser ends\<close>

lemma exec_loop_le: "exec_loop args rs s = Inr (as, rs', r) \<Longrightarrow> length r \<le> length s"
proof (induction args rs s arbitrary: as rs' r rule: exec_loop.induct)
  case (1 args rs s)
  obtain tok w s1 where g: "gettoken s = (tok, w, s1)" by (cases "gettoken s")
  have l: "length s1 \<le> length s" by (rule gettoken_le [OF g])
  consider "peek {ch_bar, ch_close, ch_amp, ch_semi} s" | "\<not> peek {ch_bar, ch_close, ch_amp, ch_semi} s" "tok = 0"
    | "\<not> peek {ch_bar, ch_close, ch_amp, ch_semi} s" "tok \<noteq> 0" by blast
  then show ?case
  proof cases
    case 1
    then show ?thesis using "1.prems" length_skip [of s] by (subst (asm) exec_loop.simps) simp
  next
    case 2
    then show ?thesis using "1.prems" g l by (subst (asm) exec_loop.simps) simp
  next
    case 3
    then have t: "tok = tok_word" "\<not> length (args @ [w]) \<ge> MAXARGS" using "1.prems" g
      by (subst (asm) exec_loop.simps, simp split: if_splits)+
    then obtain rs1 s2 where p: "parseredirs s1 = Inr (rs1, s2)" "exec_loop (args @ [w]) (rs @ rs1) s2 = Inr (as, rs', r)"
      using "1.prems" g 3 by (subst (asm) exec_loop.simps) auto
    have "length r \<le> length s2" using "1.IH" [OF 3(1) g [symmetric] refl 3(2) _ refl t(2) p(1) refl] t(1) p(2) by simp
    then show ?thesis using parseredirs_le [OF p(1)] l by simp
  qed
qed

lemma amp_loop_le: "amp_loop c s = (d, r) \<Longrightarrow> length r \<le> length s"
proof (induction c s arbitrary: d r rule: amp_loop.induct)
  case (1 c s)
  show ?case
  proof (cases "peek {ch_amp} s")
    case True
    then have "length r \<le> length (after_token s)" using 1 by (subst (asm) amp_loop.simps) simp
    then show ?thesis using after_token_shorter [OF True] by simp
  next
    case False
    then show ?thesis using 1(2) length_skip [of s] by (subst (asm) amp_loop.simps) simp
  qed
qed

lemma parse_le:
  "(parseline k s = Inr (c, r) \<longrightarrow> length r \<le> length s) \<and> (parsepipe k s = Inr (c, r) \<longrightarrow> length r \<le> length s) \<and>
   (parseexec k s = Inr (c, r) \<longrightarrow> length r \<le> length s) \<and> (parseblock k s = Inr (c, r) \<longrightarrow> length r \<le> length s)"
proof (induction k arbitrary: s c r)
  case (Suc k)
  note IH = Suc.IH [THEN conjunct1, rule_format] Suc.IH [THEN conjunct2, THEN conjunct1, rule_format]
    Suc.IH [THEN conjunct2, THEN conjunct2, THEN conjunct1, rule_format] Suc.IH [THEN conjunct2, THEN conjunct2, THEN conjunct2, rule_format]
  have after: "length (after_token s) \<le> length s" if "peek toks s" for toks s using after_token_shorter [OF that] by simp
  have "length r \<le> length s" if p: "parseline (Suc k) s = Inr (c, r)"
  proof -
    obtain c1 s1 where 1: "parsepipe k s = Inr (c1, s1)" using p by auto
    obtain c2 s2 where 2: "amp_loop c1 s1 = (c2, s2)" by (cases "amp_loop c1 s1")
    have "length s2 \<le> length s" using IH(2) [OF 1] amp_loop_le [OF 2] by simp
    moreover have "length r \<le> length s2"
    proof (cases "peek {ch_semi} s2")
      case True
      then obtain d where "parseline k (after_token s2) = Inr (d, r)" using p 1 2 by auto
      from IH(1) [OF this] show ?thesis using after [OF True] by simp
    qed (use p 1 2 length_skip [of s2] in auto)
    ultimately show ?thesis by simp
  qed
  moreover have "length r \<le> length s" if p: "parsepipe (Suc k) s = Inr (c, r)"
  proof -
    obtain c1 s1 where 1: "parseexec k s = Inr (c1, s1)" using p by auto
    moreover have "length r \<le> length s1"
    proof (cases "peek {ch_bar} s1")
      case True
      then obtain d where "parsepipe k (after_token s1) = Inr (d, r)" using p 1 by auto
      from IH(2) [OF this] show ?thesis using after [OF True] by simp
    qed (use p 1 length_skip [of s1] in auto)
    ultimately show ?thesis using IH(3) [of s c1 s1] by simp
  qed
  moreover have "length r \<le> length s" if p: "parseexec (Suc k) s = Inr (c, r)"
  proof (cases "peek {ch_open} s")
    case False
    then obtain rs s1 args rs' where e: "parseredirs s = Inr (rs, s1)" "exec_loop [] rs s1 = Inr (args, rs', r)" using p by (auto simp: kbind_eq_Inr)
    show ?thesis using parseredirs_le [OF e(1)] exec_loop_le [OF e(2)] by simp
  qed (use p IH(4) in simp)
  moreover have "length r \<le> length s" if p: "parseblock (Suc k) s = Inr (c, r)"
  proof -
    obtain c1 s1 where 1: "parseline k (after_token s) = Inr (c1, s1)" "peek {ch_open} s" using p by (cases "peek {ch_open} s") auto
    obtain rs where "parseredirs (after_token s1) = Inr (rs, r)" "peek {ch_close} s1" using p 1 by (cases "peek {ch_close} s1") auto
    then show ?thesis using IH(1) [OF 1(1)] after [OF 1(2)] parseredirs_le after by (meson le_trans)
  qed
  ultimately show ?case by blast
qed simp

lemma redirs_no_hang: "parseredirs s \<noteq> Inl Hangs"
proof (induction s rule: parseredirs.induct)
  case (1 s)
  obtain tok y s1 where g: "gettoken s = (tok, y, s1)" by (cases "gettoken s")
  obtain t f s2 where g1: "gettoken s1 = (t, f, s2)" by (cases "gettoken s1")
  show ?case
  proof (cases "peek {ch_lt, ch_gt} s \<and> t = tok_word")
    case True
    then have "parseredirs s2 \<noteq> Inl Hangs" using 1 [OF _ g [symmetric] refl g1 [symmetric] refl] by simp
    then show ?thesis using True g g1 by (subst parseredirs.simps) (cases "parseredirs s2"; auto)
  next
    case False
    then show ?thesis using g g1 by (subst parseredirs.simps) auto
  qed
qed

lemma exec_loop_no_hang: "exec_loop args rs s \<noteq> Inl Hangs"
proof (induction args rs s rule: exec_loop.induct)
  case (1 args rs s)
  obtain tok w s1 where g: "gettoken s = (tok, w, s1)" by (cases "gettoken s")
  show ?case
  proof (cases "\<not> peek {ch_bar, ch_close, ch_amp, ch_semi} s \<and> tok = tok_word \<and> \<not> length (args @ [w]) \<ge> MAXARGS")
    case True
    show ?thesis
    proof (cases "parseredirs s1")
      case (Inl e)
      then show ?thesis using True g redirs_no_hang [of s1] by (subst exec_loop.simps) auto
    next
      case (Inr p)
      obtain rs' s2 where p: "p = (rs', s2)" by (cases p)
      have "exec_loop (args @ [w]) (rs @ rs') s2 \<noteq> Inl Hangs"
        using 1 [OF _ g [symmetric] refl _ _ refl _ Inr p [symmetric]] True by simp
      then show ?thesis using True g Inr p by (subst exec_loop.simps) simp
    qed
  next
    case False
    then show ?thesis using g by (subst exec_loop.simps) (auto simp: Let_def)
  qed
qed

text \<open>Enough fuel: every cycle of calls takes a character off the line.\<close>

lemma parse_total:
  "(4 * length s + 4 \<le> k \<longrightarrow> parseline k s \<noteq> Inl Hangs) \<and> (4 * length s + 3 \<le> k \<longrightarrow> parsepipe k s \<noteq> Inl Hangs) \<and>
   (4 * length s + 2 \<le> k \<longrightarrow> parseexec k s \<noteq> Inl Hangs) \<and> (4 * length s + 1 \<le> k \<longrightarrow> parseblock k s \<noteq> Inl Hangs)"
proof (induction k arbitrary: s)
  case (Suc k)
  note IH = Suc.IH [THEN conjunct1, rule_format] Suc.IH [THEN conjunct2, THEN conjunct1, rule_format]
    Suc.IH [THEN conjunct2, THEN conjunct2, THEN conjunct1, rule_format] Suc.IH [THEN conjunct2, THEN conjunct2, THEN conjunct2, rule_format]
  have "parseline (Suc k) s \<noteq> Inl Hangs" if f: "4 * length s + 4 \<le> Suc k"
  proof (cases "parsepipe k s")
    case (Inl e)
    then show ?thesis using IH(2) [of s] f by auto
  next
    case (Inr p)
    obtain c1 s1 where 1: "p = (c1, s1)" by (cases p)
    obtain c2 s2 where 2: "amp_loop c1 s1 = (c2, s2)" by (cases "amp_loop c1 s1")
    have l: "length s2 \<le> length s" using parse_le [of k s c1 s1] Inr 1 amp_loop_le [OF 2] by simp
    show ?thesis
    proof (cases "peek {ch_semi} s2")
      case True
      then have "parseline k (after_token s2) \<noteq> Inl Hangs" using IH(1) [of "after_token s2"] after_token_shorter [OF True] l f by simp
      then show ?thesis using Inr 1 2 True by (cases "parseline k (after_token s2)") auto
    qed (use Inr 1 2 in simp)
  qed
  moreover have "parsepipe (Suc k) s \<noteq> Inl Hangs" if f: "4 * length s + 3 \<le> Suc k"
  proof (cases "parseexec k s")
    case (Inl e)
    then show ?thesis using IH(3) [of s] f by auto
  next
    case (Inr p)
    obtain c1 s1 where 1: "p = (c1, s1)" by (cases p)
    have l: "length s1 \<le> length s" using parse_le [of k s c1 s1] Inr 1 by simp
    show ?thesis
    proof (cases "peek {ch_bar} s1")
      case True
      then have "parsepipe k (after_token s1) \<noteq> Inl Hangs" using IH(2) [of "after_token s1"] after_token_shorter [OF True] l f by simp
      then show ?thesis using Inr 1 True by (cases "parsepipe k (after_token s1)") auto
    qed (use Inr 1 in simp)
  qed
  moreover have "parseexec (Suc k) s \<noteq> Inl Hangs" if f: "4 * length s + 2 \<le> Suc k"
  proof (cases "peek {ch_open} s")
    case True
    then show ?thesis using IH(4) [of s] f by simp
  next
    case False
    then show ?thesis using redirs_no_hang [of s] exec_loop_no_hang
      by (cases "parseredirs s") (auto simp: kbind_def split: sum.splits)
  qed
  moreover have "parseblock (Suc k) s \<noteq> Inl Hangs" if f: "4 * length s + 1 \<le> Suc k"
  proof (cases "peek {ch_open} s")
    case True
    have "parseline k (after_token s) \<noteq> Inl Hangs" using IH(1) [of "after_token s"] after_token_shorter [OF True] f by simp
    then show ?thesis using True redirs_no_hang by (auto simp: kbind_def split: sum.splits)
  qed simp
  ultimately show ?case by blast
qed simp

text \<open>More fuel changes nothing.\<close>

lemma parse_mono:
  "(parseline k s \<noteq> Inl Hangs \<longrightarrow> parseline (Suc k) s = parseline k s) \<and> (parsepipe k s \<noteq> Inl Hangs \<longrightarrow> parsepipe (Suc k) s = parsepipe k s) \<and>
   (parseexec k s \<noteq> Inl Hangs \<longrightarrow> parseexec (Suc k) s = parseexec k s) \<and> (parseblock k s \<noteq> Inl Hangs \<longrightarrow> parseblock (Suc k) s = parseblock k s)"
proof (induction k arbitrary: s)
  case (Suc k)
  note IH = Suc.IH [THEN conjunct1, rule_format] Suc.IH [THEN conjunct2, THEN conjunct1, rule_format]
    Suc.IH [THEN conjunct2, THEN conjunct2, THEN conjunct1, rule_format] Suc.IH [THEN conjunct2, THEN conjunct2, THEN conjunct2, rule_format]
  have k: "kbind m f = kbind m' f'" if "m \<noteq> Inl Hangs \<Longrightarrow> m' = m" "kbind m f \<noteq> Inl Hangs"
      "\<And>x. m = Inr x \<Longrightarrow> f x \<noteq> Inl Hangs \<Longrightarrow> f' x = f x" for m m' :: "'x kres" and f f' :: "'x \<Rightarrow> 'y kres"
    using that by (cases m) auto
  note steps = parseline.simps(2) parsepipe.simps(2) parseexec.simps(2) parseblock.simps(2)
  have "parseline (Suc (Suc k)) s = parseline (Suc k) s" if "parseline (Suc k) s \<noteq> Inl Hangs"
    using that unfolding parseline.simps(2) [of "Suc k" s] parseline.simps(2) [of k s]
    by (auto simp del: steps intro!: k [symmetric] IH split: prod.splits if_splits)
  moreover have "parsepipe (Suc (Suc k)) s = parsepipe (Suc k) s" if "parsepipe (Suc k) s \<noteq> Inl Hangs"
    using that unfolding parsepipe.simps(2) [of "Suc k" s] parsepipe.simps(2) [of k s]
    by (auto simp del: steps intro!: k [symmetric] IH split: prod.splits if_splits)
  moreover have "parseexec (Suc (Suc k)) s = parseexec (Suc k) s" if "parseexec (Suc k) s \<noteq> Inl Hangs"
    using that unfolding parseexec.simps(2) [of "Suc k" s] parseexec.simps(2) [of k s]
    by (auto simp del: steps intro!: k [symmetric] IH split: prod.splits if_splits)
  moreover have "parseblock (Suc (Suc k)) s = parseblock (Suc k) s" if "parseblock (Suc k) s \<noteq> Inl Hangs"
    using that unfolding parseblock.simps(2) [of "Suc k" s] parseblock.simps(2) [of k s]
    by (auto simp del: steps intro!: k [symmetric] IH split: prod.splits if_splits)
  ultimately show ?case by blast
qed simp

lemma parseline_fuel:
  assumes "parseline k s = Inr x"
  shows "parseline (4 * length s + 4) s = Inr x"
proof -
  have up: "parseline (k + j) s = parseline k s" if h: "parseline k s \<noteq> Inl Hangs" for k j
  proof (induction j)
    case (Suc j)
    then show ?case using parse_mono [THEN conjunct1, rule_format, of "k + j" s] that by (simp del: parseline.simps)
  qed simp
  let ?n = "4 * length s + 4"
  have "parseline ?n s \<noteq> Inl Hangs" using parse_total [of s ?n] by simp
  from up [OF this, of k] have "parseline (?n + k) s = parseline ?n s" .
  moreover have "parseline (k + ?n) s = parseline k s" by (rule up) (use assms in simp)
  ultimately show ?thesis using assms by (metis add.commute)
qed

section \<open>Printing commands\<close>

text \<open>A printer with a space before every token; what is not a simple command, or the left side of an
  operator that would not be read back as such, goes in parentheses.\<close>

definition pr_words :: "uchar list list \<Rightarrow> uchar list" where
  "pr_words ws = concat (map (\<lambda>w. 32 # w) ws)"

definition pr_redir :: "uchar list \<Rightarrow> redir_mode \<Rightarrow> uchar list" where
  "pr_redir f m = 32 # (case m of O_READ \<Rightarrow> [ch_lt] | O_TRUNCATE \<Rightarrow> [ch_gt] | O_APPEND \<Rightarrow> [ch_gt, ch_gt]) @ 32 # f"

fun pr_line :: "cmd \<Rightarrow> uchar list"
  and pr_amp :: "cmd \<Rightarrow> uchar list"
  and pr_pipe :: "cmd \<Rightarrow> uchar list"
  and pr_exec :: "cmd \<Rightarrow> uchar list" where
  "pr_line (LIST c d) = pr_amp c @ [32, ch_semi] @ pr_line d"
| "pr_line c = pr_amp c"
| "pr_amp (BACK c) = pr_amp c @ [32, ch_amp]"
| "pr_amp c = pr_pipe c"
| "pr_pipe (PIPE c d) = pr_exec c @ [32, ch_bar] @ pr_pipe d"
| "pr_pipe c = pr_exec c"
| "pr_exec (EXEC ws) = pr_words ws"
| "pr_exec (REDIR c f m) = pr_exec c @ pr_redir f m"
| "pr_exec (LIST c d) = [32, ch_open] @ (pr_amp c @ [32, ch_semi] @ pr_line d) @ [32, ch_close]"
| "pr_exec (BACK c) = [32, ch_open] @ (pr_amp c @ [32, ch_amp]) @ [32, ch_close]"
| "pr_exec (PIPE c d) = [32, ch_open] @ (pr_exec c @ [32, ch_bar] @ pr_pipe d) @ [32, ch_close]"

definition word_ok :: "uchar list \<Rightarrow> bool" where
  "word_ok w \<longleftrightarrow> w \<noteq> [] \<and> (\<forall>c \<in> set w. \<not> whitespace c \<and> \<not> symbols c)"

definition redirs_ok :: "(uchar list \<times> redir_mode) list \<Rightarrow> bool" where
  "redirs_ok rs = list_all (\<lambda>p. word_ok (fst p)) rs"

lemma redirs_ok_simps [simp]: "redirs_ok []" "redirs_ok ((f, m) # rs) \<longleftrightarrow> word_ok f \<and> redirs_ok rs"
  by (simp_all add: redirs_ok_def)

fun cmd_ok :: "cmd \<Rightarrow> bool" where
  "cmd_ok (EXEC ws) \<longleftrightarrow> length ws < MAXARGS \<and> list_all word_ok ws"
| "cmd_ok (REDIR c f m) \<longleftrightarrow> cmd_ok c \<and> word_ok f"
| "cmd_ok (PIPE c d) \<longleftrightarrow> cmd_ok c \<and> cmd_ok d"
| "cmd_ok (LIST c d) \<longleftrightarrow> cmd_ok c \<and> cmd_ok d"
| "cmd_ok (BACK c) \<longleftrightarrow> cmd_ok c"

abbreviation (input) pr_redirs :: "(uchar list \<times> redir_mode) list \<Rightarrow> uchar list" where
  "pr_redirs rs \<equiv> concat (map (\<lambda>(f, m). pr_redir f m) rs)"

text \<open>What may follow a printed command: nothing, or a space and one of the symbols \<open>toks\<close>.\<close>

definition ends :: "uchar set \<Rightarrow> uchar list \<Rightarrow> bool" where
  "ends toks r \<longleftrightarrow> r = [] \<or> (\<exists>c q. r = 32 # c # q \<and> c \<in> toks)"

definition spaced :: "uchar list \<Rightarrow> bool" where
  "spaced r \<longleftrightarrow> r = [] \<or> hd r = 32"

lemma skip_space [simp]: "skip (32 # s) = skip s"
  by (simp add: skip_def whitespace_def)

lemma skip_stay: "\<not> whitespace c \<Longrightarrow> skip (c # s) = c # s"
  by (simp add: skip_def)

lemma skip_word: "word_ok w \<Longrightarrow> skip (w @ s) = w @ s"
  by (cases w) (auto simp: word_ok_def skip_stay)

lemma gettoken_skip [simp]: "gettoken (skip s) = gettoken s"
  by (simp add: gettoken_def)

lemma peek_skip_eq [simp]: "peek toks (skip s) = peek toks s"
  by (simp add: peek_def)

lemma after_token_skip [simp]: "after_token (skip s) = after_token s"
  by (simp add: after_token_def)

lemma gettoken_word:
  assumes w: "word_ok w" and r: "spaced r"
  shows "gettoken (32 # w @ r) = (tok_word, w, skip r)"
proof -
  obtain c q where c: "w = c # q" using w by (cases w) (auto simp: word_ok_def)
  have n: "\<not> whitespace c" "\<not> symbols c" "c \<noteq> ch_gt" using w c by (auto simp: word_ok_def symbols_def)
  have t: "takeWhile (\<lambda>d. \<not> whitespace d \<and> \<not> symbols d) (w @ r) = w"
    using w r by (subst takeWhile_append2) (auto simp: word_ok_def spaced_def takeWhile_eq_Nil_iff whitespace_def)
  have s: "skip (32 # w @ r) = c # q @ r" using skip_word [OF w, of r] c by simp
  show ?thesis unfolding gettoken_def s using n t c by (simp add: Let_def)
qed

lemma peek_word: "word_ok w \<Longrightarrow> (\<And>c. c \<in> toks \<Longrightarrow> symbols c) \<Longrightarrow> \<not> peek toks (32 # w @ r)"
  using skip_word [of w r] by (cases w) (auto simp: peek_def word_ok_def)

lemma symbols_simps [simp]:
  "symbols ch_lt" "symbols ch_bar" "symbols ch_gt" "symbols ch_amp" "symbols ch_semi" "symbols ch_open" "symbols ch_close"
  by (simp_all add: symbols_def)

lemma symbol_not_space: "symbols c \<Longrightarrow> \<not> whitespace c"
  by (auto simp: symbols_def whitespace_def)

lemma peek_symbol: "symbols c \<Longrightarrow> peek toks (32 # c # q) \<longleftrightarrow> c \<in> toks"
  by (simp add: peek_def skip_stay symbol_not_space)

lemma after_symbol: "symbols c \<Longrightarrow> c \<noteq> ch_gt \<Longrightarrow> after_token (32 # c # q) = skip q"
  by (simp add: after_token_def gettoken_def skip_stay symbol_not_space)

lemma ends_peek:
  assumes "ends toks r" "\<And>c. c \<in> toks \<Longrightarrow> symbols c \<and> c \<notin> others"
  shows "\<not> peek others r"
  using assms by (auto simp: ends_def peek_symbol) (simp add: peek_def)

lemma ends_not_redir: "ends {ch_bar, ch_close, ch_amp, ch_semi} r \<Longrightarrow> \<not> peek {ch_lt, ch_gt} r"
  by (erule ends_peek) (elim insertE emptyE; simp)

lemma ends_spaced: "ends toks r \<Longrightarrow> spaced r"
  by (auto simp: ends_def spaced_def)

lemma ends_mono: "ends toks r \<Longrightarrow> toks \<subseteq> toks' \<Longrightarrow> ends toks' r"
  by (auto simp: ends_def)

lemma spaced_redirs: "spaced r \<Longrightarrow> spaced (pr_redirs rs @ r)"
  by (cases rs) (auto simp: spaced_def pr_redir_def)

lemma spaced_words: "spaced r \<Longrightarrow> spaced (pr_words ws @ r)"
  by (cases ws) (auto simp: spaced_def pr_words_def)

lemma parseredirs_skip [simp]: "parseredirs (skip s) = parseredirs s"
  by (subst (1 2) parseredirs.simps) simp

lemma exec_loop_skip [simp]: "exec_loop as rs (skip s) = exec_loop as rs s"
  by (subst (1 2) exec_loop.simps) simp

lemma amp_loop_skip [simp]: "amp_loop c (skip s) = amp_loop c s"
  by (subst (1 2) amp_loop.simps) simp

lemma parse_skip: "parsepipe k (skip s) = parsepipe k s" "parseline k (skip s) = parseline k s" "parseexec k (skip s) = parseexec k s"
proof -
  have b: "parseblock k (skip s) = parseblock k s" for k by (cases k) simp_all
  have e: "parseexec k (skip s) = parseexec k s" for k by (cases k) (simp_all add: b del: parseblock.simps)
  have p: "parsepipe k (skip s) = parsepipe k s" for k by (cases k) (simp_all add: e del: parseexec.simps)
  show "parsepipe k (skip s) = parsepipe k s" "parseexec k (skip s) = parseexec k s" by (fact p e)+
  show "parseline k (skip s) = parseline k s" by (cases k) (simp_all add: p del: parsepipe.simps)
qed

section \<open>Reading back a simple command\<close>

lemma gettoken_redir:
  "\<exists>t y. gettoken (pr_redir f m @ r) = (t, y, skip (32 # f @ r)) \<and> redir_of t = m"
  by (cases m) (auto simp: pr_redir_def gettoken_def redir_of_def skip_stay symbol_not_space)

lemma parseredirs_printed:
  assumes "redirs_ok rs" "spaced r" "\<not> peek {ch_lt, ch_gt} r"
  shows "parseredirs (pr_redirs rs @ r) = Inr (rs, skip r)"
  using assms
proof (induction rs)
  case Nil
  then show ?case by (subst parseredirs.simps) simp
next
  case (Cons p rs)
  obtain f m where p: "p = (f, m)" by (cases p)
  let ?r = "pr_redirs rs @ r"
  obtain t y where g: "gettoken (pr_redir f m @ ?r) = (t, y, skip (32 # f @ ?r))" "redir_of t = m"
    using gettoken_redir by blast
  have w: "gettoken (32 # f @ ?r) = (tok_word, f, skip ?r)"
    by (rule gettoken_word) (use Cons.prems p in \<open>auto intro: spaced_redirs\<close>)
  have pk: "peek {ch_lt, ch_gt} (pr_redir f m @ ?r)"
    by (cases m) (simp_all add: pr_redir_def peek_symbol)
  have "parseredirs ?r = Inr (rs, skip r)" using Cons p by simp
  then have "parseredirs (pr_redir f m @ ?r) = Inr ((f, m) # rs, skip r)"
    using g w pk gettoken_skip [of "32 # f @ ?r"] by (subst parseredirs.simps) simp
  then show ?case using p by simp
qed

lemma exec_loop_end:
  assumes "ends {ch_bar, ch_close, ch_amp, ch_semi} r"
  shows "exec_loop as rs r = Inr (as, rs, skip r)"
proof (cases "r = []")
  case True
  then show ?thesis by (subst exec_loop.simps) (simp add: peek_def gettoken_def)
next
  case False
  then have "peek {ch_bar, ch_close, ch_amp, ch_semi} r" using assms by (auto simp: ends_def peek_symbol)
  then show ?thesis by (subst exec_loop.simps) simp
qed

lemma exec_loop_printed:
  assumes "list_all word_ok ws" "redirs_ok rs" "ends {ch_bar, ch_close, ch_amp, ch_semi} r"
    and "length as + length ws < MAXARGS" and "ws \<noteq> []"
  shows "exec_loop as rs0 (pr_words ws @ pr_redirs rs @ r) = Inr (as @ ws, rs0 @ rs, skip r)"
  using assms
proof (induction ws arbitrary: as rs0)
  case (Cons w ws)
  let ?q = "pr_words ws @ pr_redirs rs @ r"
  have sp: "spaced (pr_redirs rs @ r)" using Cons.prems ends_spaced spaced_redirs by blast
  have e: "pr_words (w # ws) @ pr_redirs rs @ r = 32 # w @ ?q" by (simp add: pr_words_def)
  have g: "gettoken (32 # w @ ?q) = (tok_word, w, skip ?q)"
    by (rule gettoken_word) (use Cons.prems sp in \<open>auto intro: spaced_words\<close>)
  have pk: "\<not> peek {ch_bar, ch_close, ch_amp, ch_semi} (32 # w @ ?q)" by (rule peek_word) (use Cons.prems in auto)
  have step: "exec_loop as rs0 (32 # w @ ?q) = kbind (parseredirs ?q) (\<lambda>(rs', s2). exec_loop (as @ [w]) (rs0 @ rs') s2)"
    using g pk Cons.prems(4) by (subst exec_loop.simps) (simp add: Let_def)
  show ?case
  proof (cases ws)
    case Nil
    have "parseredirs (pr_redirs rs @ r) = Inr (rs, skip r)"
      by (rule parseredirs_printed) (use Cons.prems ends_spaced ends_not_redir in auto)
    moreover have "exec_loop (as @ [w]) (rs0 @ rs) r = Inr (as @ [w], rs0 @ rs, skip r)" by (rule exec_loop_end) (use Cons.prems in simp)
    ultimately show ?thesis using step e Nil by (simp add: pr_words_def)
  next
    case c: (Cons v vs)
    have "\<not> peek {ch_lt, ch_gt} ?q"
      unfolding c pr_words_def list.map concat.simps append_Cons append_assoc by (rule peek_word) (use Cons.prems c in auto)
    then have "parseredirs ?q = Inr ([], skip ?q)" by (subst parseredirs.simps) simp
    moreover have "exec_loop (as @ [w]) rs0 ?q = Inr (as @ w # ws, rs0 @ rs, skip r)"
      using Cons.IH [of "as @ [w]" rs0] Cons.prems c by simp
    ultimately show ?thesis using step e by simp
  qed
qed simp

section \<open>Reading back any command\<close>

abbreviation (input) stops :: "uchar set" where "stops \<equiv> {ch_bar, ch_close, ch_amp, ch_semi}"

text \<open>With enough fuel, each parser reads back what the printer of its level wrote.\<close>

definition exec_reads :: "cmd \<Rightarrow> bool" where
  "exec_reads c \<longleftrightarrow> (\<forall>rs r. redirs_ok rs \<longrightarrow> ends stops r \<longrightarrow>
     eventually (\<lambda>k. parseexec k (pr_exec c @ pr_redirs rs @ r) = Inr (wrap c rs, skip r)) sequentially)"

definition pipe_reads :: "cmd \<Rightarrow> bool" where
  "pipe_reads c \<longleftrightarrow> (\<forall>r. ends {ch_close, ch_amp, ch_semi} r \<longrightarrow>
     eventually (\<lambda>k. parsepipe k (pr_pipe c @ r) = Inr (c, skip r)) sequentially)"

definition amp_reads :: "cmd \<Rightarrow> bool" where
  "amp_reads c \<longleftrightarrow> (\<forall>r. ends {ch_close, ch_amp, ch_semi} r \<longrightarrow>
     (\<exists>c1 s1. amp_loop c1 s1 = amp_loop c r \<and> eventually (\<lambda>k. parsepipe k (pr_amp c @ r) = Inr (c1, s1)) sequentially))"

definition line_reads :: "cmd \<Rightarrow> bool" where
  "line_reads c \<longleftrightarrow> (\<forall>r. ends {ch_close} r \<longrightarrow>
     eventually (\<lambda>k. parseline k (pr_line c @ r) = Inr (c, skip r)) sequentially)"

lemma exec_readsD:
  assumes "exec_reads c" "redirs_ok rs" "ends stops r"
  shows "eventually (\<lambda>k. parseexec k (pr_exec c @ pr_redirs rs @ r) = Inr (wrap c rs, skip r)) sequentially"
  using assms unfolding exec_reads_def by blast

lemma line_readsD:
  assumes "line_reads c" "ends {ch_close} r"
  shows "eventually (\<lambda>k. parseline k (pr_line c @ r) = Inr (c, skip r)) sequentially"
  using assms unfolding line_reads_def by blast

lemma eventually_SucI: "eventually (\<lambda>k. P (Suc k)) sequentially \<Longrightarrow> eventually P sequentially"
  by (simp only: eventually_sequentially_Suc)

lemma exec_reads_EXEC:
  assumes "cmd_ok (EXEC ws)"
  shows "exec_reads (EXEC ws)"
  unfolding exec_reads_def
proof (intro allI impI, rule eventually_SucI, rule always_eventually, rule allI)
  fix rs r k
  assume rs: "redirs_ok rs" and r: "ends stops r"
  let ?q = "pr_redirs rs @ r"
  show "parseexec (Suc k) (pr_exec (EXEC ws) @ ?q) = Inr (wrap (EXEC ws) rs, skip r)"
  proof (cases ws)
    case Nil
    have "\<not> peek {ch_open} ?q"
    proof (cases rs)
      case (Cons p rs')
      then show ?thesis by (cases p; cases "snd p") (auto simp: pr_redir_def peek_symbol)
    qed (use r in \<open>auto elim!: ends_peek\<close>)
    moreover have "parseredirs ?q = Inr (rs, skip r)" by (rule parseredirs_printed) (use rs r ends_spaced ends_not_redir in auto)
    ultimately show ?thesis using exec_loop_end [OF r, of "[]" rs] Nil by (simp add: pr_words_def)
  next
    case (Cons w ws')
    have e: "pr_words ws @ ?q = 32 # w @ pr_words ws' @ ?q" using Cons by (simp add: pr_words_def)
    have "\<not> peek {ch_open} (pr_words ws @ ?q)" "\<not> peek {ch_lt, ch_gt} (pr_words ws @ ?q)"
      unfolding e by (rule peek_word; use assms Cons in auto)+
    moreover from this(2) have "parseredirs (pr_words ws @ ?q) = Inr ([], skip (pr_words ws @ ?q))" by (subst parseredirs.simps) simp
    moreover have "exec_loop [] [] (pr_words ws @ ?q) = Inr ([] @ ws, [] @ rs, skip r)"
      by (rule exec_loop_printed) (use assms rs r Cons in auto)
    ultimately show ?thesis by simp
  qed
qed

lemma exec_reads_REDIR:
  assumes "exec_reads c" "word_ok f"
  shows "exec_reads (REDIR c f m)"
  unfolding exec_reads_def
proof (intro allI impI)
  fix rs r
  assume "redirs_ok rs" "ends stops r"
  then have "eventually (\<lambda>k. parseexec k (pr_exec c @ pr_redirs ((f, m) # rs) @ r) = Inr (wrap c ((f, m) # rs), skip r)) sequentially"
    using assms by (intro exec_readsD) simp_all
  then show "eventually (\<lambda>k. parseexec k (pr_exec (REDIR c f m) @ pr_redirs rs @ r) = Inr (wrap (REDIR c f m) rs, skip r)) sequentially"
    by (simp add: wrap_def)
qed

lemma ends_symbol [simp]: "c \<in> toks \<Longrightarrow> ends toks (32 # c # q)"
  by (simp add: ends_def)

lemma exec_reads_block:
  assumes "line_reads c" and p: "pr_exec c = [32, ch_open] @ pr_line c @ [32, ch_close]"
  shows "exec_reads c"
  unfolding exec_reads_def
proof (intro allI impI, rule eventually_SucI)
  fix rs r
  assume rs: "redirs_ok rs" and r: "ends stops r"
  let ?q = "pr_redirs rs @ r"
  let ?s = "pr_exec c @ ?q"
  have s: "?s = 32 # ch_open # pr_line c @ 32 # ch_close # ?q" by (simp add: p)
  have l: "eventually (\<lambda>k. parseline k (pr_line c @ 32 # ch_close # ?q) = Inr (c, skip (32 # ch_close # ?q))) sequentially"
    using assms(1) by (rule line_readsD) simp
  have q: "parseredirs ?q = Inr (rs, skip r)" by (rule parseredirs_printed) (use rs r ends_spaced ends_not_redir in auto)
  from l have "eventually (\<lambda>k. parseblock (Suc k) ?s = Inr (wrap c rs, skip r)) sequentially"
    by (rule eventually_mono) (simp add: s q peek_symbol after_symbol parse_skip del: skip_space)
  then have "eventually (\<lambda>k. parseblock k ?s = Inr (wrap c rs, skip r)) sequentially" by (rule eventually_SucI)
  then show "eventually (\<lambda>k. parseexec (Suc k) ?s = Inr (wrap c rs, skip r)) sequentially"
    by (rule eventually_mono) (simp add: s peek_symbol del: parseblock.simps)
qed

lemma pipe_reads_exec:
  assumes "exec_reads c" "pr_pipe c = pr_exec c"
  shows "pipe_reads c"
  unfolding pipe_reads_def
proof (intro allI impI, rule eventually_SucI)
  fix r assume r: "ends {ch_close, ch_amp, ch_semi} r"
  have n: "\<not> peek {ch_bar} r" using r by (rule ends_peek) auto
  have "eventually (\<lambda>k. parseexec k (pr_exec c @ pr_redirs [] @ r) = Inr (wrap c [], skip r)) sequentially"
    using assms(1) ends_mono [OF r, of stops] by (intro exec_readsD) auto
  then show "eventually (\<lambda>k. parsepipe (Suc k) (pr_pipe c @ r) = Inr (c, skip r)) sequentially"
    by (rule eventually_mono) (use n assms(2) in \<open>simp add: wrap_def del: parseexec.simps\<close>)
qed

lemma pipe_reads_PIPE:
  assumes "exec_reads c" "pipe_reads d"
  shows "pipe_reads (PIPE c d)"
  unfolding pipe_reads_def
proof (intro allI impI, rule eventually_SucI)
  fix r assume r: "ends {ch_close, ch_amp, ch_semi} r"
  let ?q = "32 # ch_bar # pr_pipe d @ r"
  have "ends stops ?q" by simp
  then have "eventually (\<lambda>k. parseexec k (pr_exec c @ pr_redirs [] @ ?q) = Inr (wrap c [], skip ?q)) sequentially"
    using assms(1) by (intro exec_readsD) auto
  moreover have "eventually (\<lambda>k. parsepipe k (pr_pipe d @ r) = Inr (d, skip r)) sequentially"
    using assms(2) r unfolding pipe_reads_def by blast
  ultimately show "eventually (\<lambda>k. parsepipe (Suc k) (pr_pipe (PIPE c d) @ r) = Inr (PIPE c d, skip r)) sequentially"
    by eventually_elim (simp add: wrap_def peek_symbol after_symbol parse_skip del: parseexec.simps skip_space)
qed

lemma amp_reads_pipe:
  assumes "pipe_reads c" "pr_amp c = pr_pipe c"
  shows "amp_reads c"
  using assms unfolding pipe_reads_def amp_reads_def by (metis amp_loop_skip)

lemma amp_reads_BACK:
  assumes "amp_reads c"
  shows "amp_reads (BACK c)"
  unfolding amp_reads_def
proof (intro allI impI)
  fix r assume "ends {ch_close, ch_amp, ch_semi} r"
  obtain c1 s1 where "amp_loop c1 s1 = amp_loop c (32 # ch_amp # r)"
      "eventually (\<lambda>k. parsepipe k (pr_amp c @ 32 # ch_amp # r) = Inr (c1, s1)) sequentially"
    using assms unfolding amp_reads_def by (metis ends_symbol insertI1 insertI2)
  moreover have "amp_loop c (32 # ch_amp # r) = amp_loop (BACK c) r"
    by (subst amp_loop.simps) (simp add: peek_symbol after_symbol)
  ultimately show "\<exists>c1 s1. amp_loop c1 s1 = amp_loop (BACK c) r \<and> eventually (\<lambda>k. parsepipe k (pr_amp (BACK c) @ r) = Inr (c1, s1)) sequentially"
    by auto
qed

lemma line_reads_amp:
  assumes "amp_reads c" "pr_line c = pr_amp c"
  shows "line_reads c"
  unfolding line_reads_def
proof (intro allI impI, rule eventually_SucI)
  fix r assume r: "ends {ch_close} r"
  obtain c1 s1 where a: "amp_loop c1 s1 = amp_loop c r" and
      p: "eventually (\<lambda>k. parsepipe k (pr_amp c @ r) = Inr (c1, s1)) sequentially"
    using assms(1) ends_mono [OF r, of "{ch_close, ch_amp, ch_semi}"] unfolding amp_reads_def by blast
  have "\<not> peek {ch_amp} r" "\<not> peek {ch_semi} r" by (rule ends_peek [OF r]; simp)+
  then have "amp_loop c1 s1 = (c, skip r)" "\<not> peek {ch_semi} r" using a by (simp_all add: amp_loop.simps [of c r])
  then show "eventually (\<lambda>k. parseline (Suc k) (pr_line c @ r) = Inr (c, skip r)) sequentially"
    using p assms(2) by (elim eventually_mono) (simp del: parsepipe.simps)
qed

lemma line_reads_LIST:
  assumes "amp_reads c" "line_reads d"
  shows "line_reads (LIST c d)"
  unfolding line_reads_def
proof (intro allI impI, rule eventually_SucI)
  fix r assume r: "ends {ch_close} r"
  let ?q = "32 # ch_semi # pr_line d @ r"
  have "ends {ch_close, ch_amp, ch_semi} ?q" by simp
  then obtain c1 s1 where a: "amp_loop c1 s1 = amp_loop c ?q" and
      p: "eventually (\<lambda>k. parsepipe k (pr_amp c @ ?q) = Inr (c1, s1)) sequentially"
    using assms(1) unfolding amp_reads_def by blast
  have l: "eventually (\<lambda>k. parseline k (pr_line d @ r) = Inr (d, skip r)) sequentially"
    using assms(2) r unfolding line_reads_def by blast
  have e: "amp_loop c1 s1 = (c, skip ?q)" unfolding a by (subst amp_loop.simps) (simp add: peek_symbol)
  from p l show "eventually (\<lambda>k. parseline (Suc k) (pr_line (LIST c d) @ r) = Inr (LIST c d, skip r)) sequentially"
    by eventually_elim (simp add: e peek_symbol after_symbol parse_skip del: parsepipe.simps skip_space)
qed

lemma reads_all: "cmd_ok c \<Longrightarrow> exec_reads c \<and> pipe_reads c \<and> amp_reads c \<and> line_reads c"
proof (induction c)
  case (EXEC ws)
  then show ?case by (simp add: exec_reads_EXEC pipe_reads_exec amp_reads_pipe line_reads_amp del: cmd_ok.simps)
next
  case (REDIR c f m)
  then show ?case by (simp add: exec_reads_REDIR pipe_reads_exec amp_reads_pipe line_reads_amp)
next
  case (PIPE c d)
  then have "pipe_reads (PIPE c d)" by (simp add: pipe_reads_PIPE)
  then show ?case by (simp add: amp_reads_pipe line_reads_amp exec_reads_block)
next
  case (LIST c d)
  then have "line_reads (LIST c d)" by (simp add: line_reads_LIST)
  then have "exec_reads (LIST c d)" by (rule exec_reads_block) simp
  then show ?case using \<open>line_reads (LIST c d)\<close> by (simp add: pipe_reads_exec amp_reads_pipe)
next
  case (BACK c)
  then have "amp_reads (BACK c)" by (simp add: amp_reads_BACK)
  then have "line_reads (BACK c)" by (rule line_reads_amp) simp
  then have "exec_reads (BACK c)" by (rule exec_reads_block) simp
  then show ?case using \<open>amp_reads (BACK c)\<close> \<open>line_reads (BACK c)\<close> by (simp add: pipe_reads_exec)
qed

section \<open>Properties\<close>

text \<open>C19. The command line that prints a command in the shell's syntax - pipelines, lists, background
  commands, redirections, blocks in parentheses, with the precedence of the operators - is parsed by
  \<open>parsecmd\<close> into that command and nothing is left over.\<close>

theorem parsecmd_printed:
  assumes "cmd_ok c"
  shows "parsecmd (pr_line c) = Inr c"
proof -
  have "eventually (\<lambda>k. parseline k (pr_line c @ []) = Inr (c, skip [])) sequentially"
    using reads_all [OF assms] unfolding line_reads_def by (simp add: ends_def)
  then obtain k where "parseline k (pr_line c) = Inr (c, [])" by (auto simp: eventually_sequentially)
  from parseline_fuel [OF this] show ?thesis by (simp add: parsecmd_def del: parseline.simps)
qed

text \<open>Printed: \<open> ls | ( wc > f & ; ls ) >> g\<close>.\<close>

theorem parsecmd_printed_witness:
  "let c = PIPE (EXEC [[108, 115]]) (REDIR (LIST (BACK (REDIR (EXEC [[119, 99]]) [102] O_TRUNCATE)) (EXEC [[108, 115]])) [103] O_APPEND)
   in cmd_ok c \<and> parsecmd (pr_line c) = Inr c"
proof -
  have "cmd_ok (PIPE (EXEC [[108, 115]]) (REDIR (LIST (BACK (REDIR (EXEC [[119, 99]]) [102] O_TRUNCATE)) (EXEC [[108, 115]])) [103] O_APPEND))"
    by (simp add: word_ok_def whitespace_def symbols_def)
  then show ?thesis unfolding Let_def using parsecmd_printed by blast
qed

end
