(* ===== verification/Kprintf.thy ===== *)
theory Kprintf
  imports Console_Line User_Lib
begin

text \<open>
  Formatted output of the kernel, \<open>kernel/printf.c\<close>, and its \<open>panic\<close>.

  The characters go to the console model through \<open>consputc\<close>, one by one. The lock \<open>pr.lock\<close> only keeps
  the messages of several CPUs apart: a call is one step here. \<open>k_panic\<close> gives the state in which \<open>panic\<close>
  enters its endless loop. The buffer and the digits are those of \<open>print_number\<close>, which the two
  \<open>printint\<close> of the repository share up to the case of the letters.
\<close>

section \<open>Definitions\<close>












section \<open>Output as text\<close>

text \<open>Two outputs agree when the console gets the characters of the text.\<close>

definition prints :: "uchar list kres \<Rightarrow> 'a kcons_scheme \<Rightarrow> 'a kcons_scheme kres" where
  "prints r s = kbind r (\<lambda>cs. Inr (s\<lparr>uart_out := uart_out s @ cs\<rparr>))"






lemma prints_kbind:
  "kbind (prints r s) f = kbind r (\<lambda>cs. f (s\<lparr>uart_out := uart_out s @ cs\<rparr>))"
  by (cases r) (simp_all add: prints_def)





section \<open>Properties\<close>





end
