(* ===== verification/Sched.thy ===== *)
theory Sched
  imports Proc_Table Spinlock
begin

text \<open>
  Scheduling on several CPUs, \<open>kernel/proc.c\<close>: \<open>scheduler\<close>, \<open>sched\<close>, \<open>yield\<close>, \<open>sleep\<close>, \<open>wakeup\<close>, and what
  the other routines do to a slot of the process table under its lock.

  The state has the process table, the lock of every slot, the interrupt state of every CPU and the
  place where every CPU is. One condition with its lock \<open>lk\<close> and its channel \<open>ch\<close> stands for any use of
  sleep and wakeup: a process that holds the lock may find the condition false and call
  \<open>sleep(ch, lk)\<close>, make it true and call \<open>wakeup(ch)\<close>, or make it false. A step is a piece of code between two points at
  which another CPU can interfere; taking a lock goes through \<open>acquire\<close> of the spin-lock model, so that a
  lock held by another CPU is the result \<open>Hangs\<close> (the CPU spins) and a broken lock discipline is a panic.
  \<open>swtch\<close> moves a CPU from the process to its scheduler and back, with the slot's lock held.
\<close>

section \<open>State\<close>

text \<open>Where a CPU is. \<open>CLoop\<close>: in the scheduler, without a lock; \<open>CLook p\<close>: there, with \<open>p->lock\<close>;
  \<open>CResumed p\<close>: after the switch to \<open>p\<close>; \<open>CRunning p\<close>: running \<open>p\<close> without one of these locks; \<open>CHolds p\<close>: with
  \<open>lk\<close>; \<open>CSleep1 p\<close>, \<open>CSleep2 p\<close>: in \<open>sleep\<close> after \<open>acquire(&p->lock)\<close> and after \<open>release(lk)\<close>; \<open>CSched p b\<close>: calling
  \<open>sched\<close>, from \<open>sleep\<close> when \<open>b\<close>; \<open>CBack p\<close>: in the scheduler after the switch back; \<open>CWake q h c k\<close>: in the
  loop of \<open>wakeup(c)\<close> at slot \<open>k\<close>, called by process \<open>q\<close> or by an interrupt of the scheduler, with \<open>lk\<close> held
  when \<open>h\<close>; \<open>CWakeAt\<close>: there, with the lock of slot \<open>k\<close>; \<open>CSlot p k\<close>: process \<open>p\<close> with the lock of slot \<open>k\<close>.\<close>

datatype sched_pc =
    CLoop | CLook nat | CResumed nat | CRunning nat | CHolds nat | CSleep1 nat | CSleep2 nat
  | CSched nat bool | CBack nat | CWake "nat option" bool chan nat | CWakeAt "nat option" bool chan nat | CSlot nat nat

text \<open>\<open>frame p\<close> is what \<open>sched\<close> left on the kernel stack of \<open>p\<close>: whether \<open>sleep\<close> called it, and \<open>intena\<close>; \<open>None\<close>
  before the first switch to \<open>p\<close>, which goes to \<open>forkret\<close>.\<close>

record sched_sys =
  ker :: kproc
  plocks :: "nat \<Rightarrow> spinlock"
  clock :: spinlock
  cond :: bool
  cpus :: "nat \<Rightarrow> kcpu"
  spc :: "nat \<Rightarrow> sched_pc"
  frame :: "nat \<Rightarrow> (bool \<times> bool) option"

section \<open>Operations\<close>

definition acquire_p :: "nat \<Rightarrow> nat \<Rightarrow> sched_sys \<Rightarrow> sched_sys kres" where
  "acquire_p c p s = kbind (acquire c (plocks s p) (cpus s c)) (\<lambda>(lk, cpu).
     Inr (s\<lparr>plocks := (plocks s)(p := lk), cpus := (cpus s)(c := cpu)\<rparr>))"

definition release_p :: "nat \<Rightarrow> nat \<Rightarrow> sched_sys \<Rightarrow> sched_sys kres" where
  "release_p c p s = kbind (release c (plocks s p) (cpus s c)) (\<lambda>(lk, cpu).
     Inr (s\<lparr>plocks := (plocks s)(p := lk), cpus := (cpus s)(c := cpu)\<rparr>))"

definition acquire_c :: "nat \<Rightarrow> sched_sys \<Rightarrow> sched_sys kres" where
  "acquire_c c s = kbind (acquire c (clock s) (cpus s c)) (\<lambda>(lk, cpu).
     Inr (s\<lparr>clock := lk, cpus := (cpus s)(c := cpu)\<rparr>))"

definition release_c :: "nat \<Rightarrow> sched_sys \<Rightarrow> sched_sys kres" where
  "release_c c s = kbind (release c (clock s) (cpus s c)) (\<lambda>(lk, cpu).
     Inr (s\<lparr>clock := lk, cpus := (cpus s)(c := cpu)\<rparr>))"

definition go :: "nat \<Rightarrow> sched_pc \<Rightarrow> sched_sys \<Rightarrow> sched_sys" where
  "go c pc s = s\<lparr>spc := (spc s)(c := pc)\<rparr>"

text \<open>An operation of the process table executed by CPU \<open>c\<close>.\<close>

definition kern :: "nat \<Rightarrow> (kproc \<Rightarrow> kproc kres) \<Rightarrow> sched_sys \<Rightarrow> sched_sys kres" where
  "kern c f s = kbind (f ((ker s)\<lparr>hart := c\<rparr>)) (\<lambda>k. Inr (s\<lparr>ker := k\<rparr>))"

text \<open>The checks of \<open>sched\<close>, and its two halves around \<open>swtch\<close>.\<close>

definition sched_check :: "spinlock \<Rightarrow> kcpu \<Rightarrow> kproc \<Rightarrow> unit kres" where
  "sched_check lk cpu k =
     kbind (cur k) (\<lambda>p.
     if \<not> holding (cpuid k) lk then Inl (Panic ''sched p->lock'')
     else if noff cpu \<noteq> 1 then Inl (Panic ''sched locks'')
     else if pstate (procs k p) = RUNNING then Inl (Panic ''sched RUNNING'')
     else if intr_get (sstatus cpu) then Inl (Panic ''sched interruptible'')
     else Inr ())"

definition sched_enter :: "nat \<Rightarrow> nat \<Rightarrow> bool \<Rightarrow> sched_sys \<Rightarrow> sched_sys kres" where
  "sched_enter c p b s =
     kbind (sched_check (plocks s p) (cpus s c) ((ker s)\<lparr>hart := c\<rparr>)) (\<lambda>_.
     Inr (s\<lparr>frame := (frame s)(p := Some (b, intena (cpus s c)))\<rparr>))"

definition sched_exit :: "nat \<Rightarrow> nat \<Rightarrow> sched_sys \<Rightarrow> sched_sys kres" where
  "sched_exit c p s =
     (case frame s p of
        None \<Rightarrow> Inr s
      | Some (b, ie) \<Rightarrow>
          let s = s\<lparr>cpus := (cpus s)(c := (cpus s c)\<lparr>intena := ie\<rparr>)\<rparr>
          in if b then kern c sleep_exit s else Inr s)"

text \<open>The end of \<open>kexit\<close>, between \<open>acquire(&p->lock)\<close> and \<open>sched\<close>. (It releases \<open>wait_lock\<close> there, which is
  not part of this state.)\<close>

definition exit_enter :: "int \<Rightarrow> 'a kproc_scheme \<Rightarrow> 'a kproc_scheme kres" where
  "exit_enter status k = kbind (cur k) (\<lambda>p. Inr (upd_proc p (\<lambda>q. q\<lparr>pxstate := status, pstate := ZOMBIE\<rparr>) k))"

text \<open>One round of the loop of \<open>wakeup\<close>.\<close>

definition wakeup_slot :: "chan \<Rightarrow> nat \<Rightarrow> 'a kproc_scheme \<Rightarrow> 'a kproc_scheme" where
  "wakeup_slot c p k =
     (if pstate (procs k p) = SLEEPING \<and> pchan (procs k p) = Some c
      then upd_proc p (\<lambda>q. q\<lparr>pstate := RUNNABLE\<rparr>) k else k)"

text \<open>What a running process does to a slot under its lock: \<open>kkill\<close>, the allocation of \<open>allocproc\<close>, the
  end of \<open>kfork\<close>, and \<open>freeproc\<close> for \<open>kwait\<close> or after a failed allocation; the memory and the files of the process are left out.\<close>

datatype slot_op = OpKill | OpAlloc | OpReady | OpFree

definition slot_do :: "slot_op \<Rightarrow> nat \<Rightarrow> 'a kproc_scheme \<Rightarrow> 'a kproc_scheme" where
  "slot_do oper p k = upd_proc p (\<lambda>q.
     case oper of
       OpKill \<Rightarrow> q\<lparr>pkilled := True, pstate := (if pstate q = SLEEPING then RUNNABLE else pstate q)\<rparr>
     | OpAlloc \<Rightarrow> (if pstate q = UNUSED then q\<lparr>pstate := USED\<rparr> else q)
     | OpReady \<Rightarrow> (if pstate q = USED then q\<lparr>pstate := RUNNABLE\<rparr> else q)
     | OpFree \<Rightarrow> (if pstate q = ZOMBIE \<or> pstate q = USED 
         then q\<lparr>ppid := 0, pparent := None, pchan := None, pkilled := False, pxstate := 0, pstate := UNUSED\<rparr> else q)) k"

section \<open>Steps\<close>

text \<open>\<open>ch\<close> is the channel of the condition.\<close>

inductive sched_step :: "chan \<Rightarrow> nat \<Rightarrow> sched_sys \<Rightarrow> sched_sys kres \<Rightarrow> bool" for ch c s where
  look: "spc s c = CLoop \<Longrightarrow> p < NPROC \<Longrightarrow>
    sched_step ch c s (kbind (acquire_p c p s) (\<lambda>s. Inr (go c (CLook p) s)))"
| pick: "spc s c = CLook p \<Longrightarrow> scheduler_pick c p (ker s) = Some k \<Longrightarrow>
    sched_step ch c s (Inr (go c (CResumed p) (s\<lparr>ker := k\<rparr>)))"
| pass: "spc s c = CLook p \<Longrightarrow> scheduler_pick c p (ker s) = None \<Longrightarrow>
    sched_step ch c s (kbind (release_p c p s) (\<lambda>s. Inr (go c CLoop s)))"
| resume: "spc s c = CResumed p \<Longrightarrow>
    sched_step ch c s (kbind (sched_exit c p s) (\<lambda>s. kbind (release_p c p s) (\<lambda>s. Inr (go c (CRunning p) s))))"
| yield: "spc s c = CRunning p \<Longrightarrow>
    sched_step ch c s (kbind (acquire_p c p s) (\<lambda>s. kbind (kern c yield_enter s) (\<lambda>s. Inr (go c (CSched p False) s))))"
| exits: "spc s c = CRunning p \<Longrightarrow>
    sched_step ch c s (kbind (acquire_p c p s) (\<lambda>s. kbind (kern c (exit_enter status) s) (\<lambda>s. Inr (go c (CSched p False) s))))"
| sleep_other: "spc s c = CRunning p \<Longrightarrow> ch' \<noteq> ch \<Longrightarrow>
    sched_step ch c s (kbind (acquire_p c p s) (\<lambda>s. kbind (kern c (sleep_enter ch') s) (\<lambda>s. Inr (go c (CSched p True) s))))"
| swtch: "spc s c = CSched p b \<Longrightarrow>
    sched_step ch c s (kbind (sched_enter c p b s) (\<lambda>s. Inr (go c (CBack p) s)))"
| scheduler_again: "spc s c = CBack p \<Longrightarrow>
    sched_step ch c s (kbind (release_p c p (s\<lparr>ker := scheduler_back c (ker s)\<rparr>)) (\<lambda>s. Inr (go c CLoop s)))"
| lock: "spc s c = CRunning p \<Longrightarrow>
    sched_step ch c s (kbind (acquire_c c s) (\<lambda>s. Inr (go c (CHolds p) s)))"
| unlock: "spc s c = CHolds p \<Longrightarrow>
    sched_step ch c s (kbind (release_c c s) (\<lambda>s. Inr (go c (CRunning p) s)))"
| spoil: "spc s c = CHolds p \<Longrightarrow> sched_step ch c s (Inr (s\<lparr>cond := False\<rparr>))"
| sleep1: "spc s c = CHolds p \<Longrightarrow> \<not> cond s \<Longrightarrow>
    sched_step ch c s (kbind (acquire_p c p s) (\<lambda>s. Inr (go c (CSleep1 p) s)))"
| sleep2: "spc s c = CSleep1 p \<Longrightarrow>
    sched_step ch c s (kbind (release_c c s) (\<lambda>s. Inr (go c (CSleep2 p) s)))"
| sleep3: "spc s c = CSleep2 p \<Longrightarrow>
    sched_step ch c s (kbind (kern c (sleep_enter ch) s) (\<lambda>s. Inr (go c (CSched p True) s)))"
| establish: "spc s c = CHolds p \<Longrightarrow> sched_step ch c s (Inr (go c (CWake (Some p) True ch 0) (s\<lparr>cond := True\<rparr>)))"
| wake_proc: "spc s c = CRunning p \<Longrightarrow> sched_step ch c s (Inr (go c (CWake (Some p) False ch' 0) s))"
| wake_intr: "spc s c = CLoop \<Longrightarrow> sched_step ch c s (Inr (go c (CWake None False ch' 0) s))"
| wake_self: "spc s c = CWake q h ch' k \<Longrightarrow> k < NPROC \<Longrightarrow> q = Some k \<Longrightarrow>
    sched_step ch c s (Inr (go c (CWake q h ch' (Suc k)) s))"
| wake_lock: "spc s c = CWake q h ch' k \<Longrightarrow> k < NPROC \<Longrightarrow> q \<noteq> Some k \<Longrightarrow>
    sched_step ch c s (kbind (acquire_p c k s) (\<lambda>s. Inr (go c (CWakeAt q h ch' k) s)))"
| wake_slot: "spc s c = CWakeAt q h ch' k \<Longrightarrow>
    sched_step ch c s (kbind (release_p c k (s\<lparr>ker := wakeup_slot ch' k (ker s)\<rparr>)) (\<lambda>s. Inr (go c (CWake q h ch' (Suc k)) s)))"
| wake_end: "spc s c = CWake q h ch' k \<Longrightarrow> \<not> k < NPROC \<Longrightarrow>
    sched_step ch c s (Inr (go c (case q of None \<Rightarrow> CLoop | Some p \<Rightarrow> if h then CHolds p else CRunning p) s))"
| slot_lock: "spc s c = CRunning p \<Longrightarrow> k < NPROC \<Longrightarrow>
    sched_step ch c s (kbind (acquire_p c k s) (\<lambda>s. Inr (go c (CSlot p k) s)))"
| slot_change: "spc s c = CSlot p k \<Longrightarrow>
    sched_step ch c s (kbind (release_p c k (s\<lparr>ker := slot_do oper k (ker s)\<rparr>)) (\<lambda>s. Inr (go c (CRunning p) s)))"
| interrupts: "noff (cpus s c) = 0 \<Longrightarrow>
    sched_step ch c s (Inr (s\<lparr>cpus := (cpus s)(c := (cpus s c)\<lparr>sstatus := ss\<rparr>)\<rparr>))"

text \<open>The machine when every CPU has entered \<open>scheduler\<close>: the first process is runnable.\<close>

definition sched_init :: "sched_sys \<Rightarrow> bool" where
  "sched_init s \<longleftrightarrow> (\<forall>p. pstate (procs (ker s) p) \<in> {UNUSED, RUNNABLE} \<and> plocks s p = initlock \<and> frame s p = None) \<and>
     clock s = initlock \<and> (\<forall>c. spc s c = CLoop \<and> cpu_proc (ker s) c = None \<and> noff (cpus s c) = 0)"

inductive sched_reach :: "chan \<Rightarrow> sched_sys \<Rightarrow> bool" for ch where
  start: "sched_init s \<Longrightarrow> sched_reach ch s"
| step: "sched_reach ch s \<Longrightarrow> sched_step ch c s (Inr t) \<Longrightarrow> sched_reach ch t"

text \<open>The rounds of \<open>wakeup\<close> together are the \<open>wakeup\<close> of the process table.\<close>

lemma wakeup_slots:
  assumes "n \<le> NPROC"
  shows "procs (fold (\<lambda>p k. if myproc k = Some p then k else wakeup_slot c p k) [0..<n] k) =
    (\<lambda>p. if p < n \<and> myproc k \<noteq> Some p \<and> pstate (procs k p) = SLEEPING \<and> pchan (procs k p) = Some c
         then (procs k p)\<lparr>pstate := RUNNABLE\<rparr> else procs k p)"
    and "cpu_proc (fold (\<lambda>p k. if myproc k = Some p then k else wakeup_slot c p k) [0..<n] k) = cpu_proc k"
    and "hart (fold (\<lambda>p k. if myproc k = Some p then k else wakeup_slot c p k) [0..<n] k) = hart k"
  using assms
proof (induction n)
  case (Suc n)
  case 1
  then show ?case using Suc.IH by (auto simp: wakeup_slot_def upd_proc_def myproc_def cpuid_def less_Suc_eq)
next
  case (Suc n)
  case 2
  then show ?case using Suc.IH by (auto simp: wakeup_slot_def upd_proc_def)
next
  case (Suc n)
  case 3
  then show ?case using Suc.IH by (auto simp: wakeup_slot_def upd_proc_def)
qed auto

section \<open>Locks\<close>

fun hp :: "sched_pc \<Rightarrow> nat option" where
  "hp (CLook p) = Some p"
| "hp (CResumed p) = Some p"
| "hp (CSleep1 p) = Some p"
| "hp (CSleep2 p) = Some p"
| "hp (CSched p b) = Some p"
| "hp (CBack p) = Some p"
| "hp (CWakeAt q h c k) = Some k"
| "hp (CSlot p k) = Some k"
| "hp _ = None"

fun hc :: "sched_pc \<Rightarrow> bool" where
  "hc (CHolds p) = True"
| "hc (CSleep1 p) = True"
| "hc (CWake q h c k) = (h \<and> q \<noteq> None)"
| "hc (CWakeAt q h c k) = (h \<and> q \<noteq> None)"
| "hc _ = False"

definition nl :: "sched_pc \<Rightarrow> int" where
  "nl pc = (if hp pc = None then 0 else 1) + (if hc pc then 1 else 0)"

text \<open>A CPU holds exactly the locks its place in the code says, its nesting count is their number,
  and it has interrupts off while the count is positive.\<close>

definition lk_inv :: "(nat \<Rightarrow> spinlock) \<Rightarrow> spinlock \<Rightarrow> (nat \<Rightarrow> kcpu) \<Rightarrow> (nat \<Rightarrow> sched_pc) \<Rightarrow> bool" where
  "lk_inv pl cl cp pc \<longleftrightarrow>
     (\<forall>c p. (hp (pc c) = Some p) = holding c (pl p)) \<and> (\<forall>p. lk_locked (pl p) = 0 \<or> (\<exists>c. holding c (pl p))) \<and>
     (\<forall>c. hc (pc c) = holding c cl) \<and> (lk_locked cl = 0 \<or> (\<exists>c. holding c cl)) \<and>
     (\<forall>c. noff (cp c) = nl (pc c)) \<and> (\<forall>c. 0 < nl (pc c) \<longrightarrow> \<not> intr_get (sstatus (cp c)))"

lemma acquire_result:
  assumes "\<not> holding c lk"
  shows "acquire c lk cpu = (if lk_locked lk = 0 then Inr (\<lparr>lk_locked = 1, lk_cpu = Some c\<rparr>, push_off cpu) else Inl Hangs)"
  using assms by (simp add: acquire_def acquire_enter_def test_and_set_def acquire_record_def Let_def)

lemma release_result:
  assumes "holding c lk" "1 \<le> noff cpu" "\<not> intr_get (sstatus cpu)"
  shows "\<exists>cpu'. release c lk cpu = Inr (\<lparr>lk_locked = 0, lk_cpu = None\<rparr>, cpu') \<and> noff cpu' = noff cpu - 1 \<and>
    (0 < noff cpu' \<longrightarrow> \<not> intr_get (sstatus cpu'))"
  using assms by (auto simp: release_def release_enter_def pop_off_def lock_release_def Let_def)

lemma holding_simps [simp]:
  "holding c \<lparr>lk_locked = 1, lk_cpu = Some d\<rparr> \<longleftrightarrow> d = c" "\<not> holding c \<lparr>lk_locked = 0, lk_cpu = x\<rparr>"
  by (auto simp: holding_def)

lemma holding_unique: "holding c lk \<Longrightarrow> holding d lk \<Longrightarrow> c = d"
  by (simp add: holding_def)

lemma lk_invD:
  assumes "lk_inv pl cl cp pc"
  shows "hp (pc c) = None \<Longrightarrow> \<not> holding c (pl p)" "hp (pc c) = Some p \<Longrightarrow> holding c (pl p)" "hc (pc c) = holding c cl"
    "noff (cp c) = nl (pc c)" "0 < nl (pc c) \<Longrightarrow> \<not> intr_get (sstatus (cp c))"
  using assms unfolding lk_inv_def by (metis option.distinct(1))+

lemma take_p:
  assumes "lk_inv pl cl cp pc" "hp (pc c) = None" "acquire c (pl p) (cp c) = Inr (lk, cpu)" "hp pc' = Some p" "hc pc' = hc (pc c)"
  shows "lk_inv (pl(p := lk)) cl (cp(c := cpu)) (pc(c := pc'))"
proof -
  have h: "\<not> holding c (pl x)" for x using lk_invD(1) [OF assms(1,2)] .
  have a: "lk_locked (pl p) = 0" "lk = \<lparr>lk_locked = 1, lk_cpu = Some c\<rparr>" "cpu = push_off (cp c)"
    using assms(3) acquire_result [OF h] by (auto split: if_splits)
  have n: "\<not> holding d (pl p)" for d using a(1) by (simp add: holding_def)
  have nl: "nl pc' = nl (pc c) + 1" using assms(2,4,5) by (simp add: nl_def)
  show ?thesis using assms(1,2,4,5) n nl h unfolding lk_inv_def a(2,3)
    by (auto simp: fun_upd_def)
qed

lemma drop_p:
  assumes "lk_inv pl cl cp pc" "hp (pc c) = Some p" "release c (pl p) cpu = Inr (lk, cpu')" "hp pc' = None" "hc pc' = hc (pc c)"
    and "noff cpu = noff (cp c)" "sstatus cpu = sstatus (cp c)"
  shows "lk_inv (pl(p := lk)) cl (cp(c := cpu')) (pc(c := pc'))"
proof -
  have h: "holding c (pl p)" using lk_invD(2) [OF assms(1,2)] .
  have nl: "nl pc' = nl (pc c) - 1" "0 < nl (pc c)" using assms(2,4,5) by (simp_all add: nl_def)
  have "noff cpu = nl (pc c)" "\<not> intr_get (sstatus cpu)" using lk_invD(4,5) [OF assms(1), of c] nl(2) assms(6,7) by simp_all
  then have a: "lk = \<lparr>lk_locked = 0, lk_cpu = None\<rparr>" "noff cpu' = nl pc'" "0 < nl pc' \<longrightarrow> \<not> intr_get (sstatus cpu')"
    using release_result [OF h, of cpu] assms(3) nl by auto
  have u: "holding d (pl p) \<longleftrightarrow> d = c" for d using h holding_unique by blast
  have o: "holding c (pl q) \<longleftrightarrow> q = p" for q using assms(1,2) unfolding lk_inv_def by (metis option.inject)
  show ?thesis using assms(1,4,5) a u o unfolding lk_inv_def a(1) by (auto simp: fun_upd_def)
qed

lemma keep_locks:
  assumes "lk_inv pl cl cp pc" "hp pc' = hp (pc c)" "hc pc' = hc (pc c)"
  shows "lk_inv pl cl cp (pc(c := pc'))"
proof -
  have "nl pc' = nl (pc c)" using assms(2,3) by (simp add: nl_def)
  then show ?thesis using assms unfolding lk_inv_def by (auto simp: fun_upd_def)
qed

lemma take_c:
  assumes "lk_inv pl cl cp pc" "\<not> hc (pc c)" "acquire c cl (cp c) = Inr (lk, cpu)" "hp pc' = hp (pc c)" "hc pc'"
  shows "lk_inv pl lk (cp(c := cpu)) (pc(c := pc'))"
proof -
  have h: "\<not> holding c cl" using lk_invD(3) [OF assms(1)] assms(2) by simp
  have a: "lk_locked cl = 0" "lk = \<lparr>lk_locked = 1, lk_cpu = Some c\<rparr>" "cpu = push_off (cp c)"
    using assms(3) acquire_result [OF h] by (auto split: if_splits)
  have n: "\<not> holding d cl" for d using a(1) by (simp add: holding_def)
  have nl: "nl pc' = nl (pc c) + 1" using assms(2,4,5) by (simp add: nl_def)
  show ?thesis using assms(1,4,5) n nl unfolding lk_inv_def a(2,3) by (auto simp: fun_upd_def)
qed

lemma drop_c:
  assumes "lk_inv pl cl cp pc" "hc (pc c)" "release c cl (cp c) = Inr (lk, cpu')" "hp pc' = hp (pc c)" "\<not> hc pc'"
  shows "lk_inv pl lk (cp(c := cpu')) (pc(c := pc'))"
proof -
  have h: "holding c cl" using lk_invD(3) [OF assms(1)] assms(2) by simp
  have nl: "nl pc' = nl (pc c) - 1" "0 < nl (pc c)" using assms(2,4,5) by (simp_all add: nl_def)
  then have a: "lk = \<lparr>lk_locked = 0, lk_cpu = None\<rparr>" "noff cpu' = nl pc'" "0 < nl pc' \<longrightarrow> \<not> intr_get (sstatus cpu')"
    using release_result [OF h, of "cp c"] assms(3) lk_invD(4,5) [OF assms(1), of c] by auto
  have u: "holding d cl \<longleftrightarrow> d = c" for d using h holding_unique by blast
  show ?thesis using assms(1,4,5) a u unfolding lk_inv_def a(1) by (auto simp: fun_upd_def)
qed

lemma set_intr:
  assumes "lk_inv pl cl cp pc" "noff (cp c) = 0"
  shows "lk_inv pl cl (cp(c := (cp c)\<lparr>sstatus := ss\<rparr>)) pc"
  using assms unfolding lk_inv_def by (auto simp: fun_upd_def)

lemmas sys_defs = acquire_p_def release_p_def acquire_c_def release_c_def go_def kern_def sched_enter_def sched_exit_def

lemma Inr_kbind: "Inr t = kbind m f \<longleftrightarrow> (\<exists>x. m = Inr x \<and> f x = Inr t)"
  using kbind_eq_Inr [of m f t] by (auto simp: eq_commute)

lemma lk_step:
  assumes "lk_inv (plocks s) (clock s) (cpus s) (spc s)" and "sched_step ch c s (Inr t)"
  shows "lk_inv (plocks t) (clock t) (cpus t) (spc t)"
  using assms(2)
proof cases
  case (look p)
  then show ?thesis using assms(1) by (auto simp: sys_defs Inr_kbind kbind_eq_Inr intro!: take_p)
next
  case (resume p)
  then show ?thesis using assms(1)
    by (cases "frame s p") (auto simp: sys_defs Inr_kbind kbind_eq_Inr Let_def split: if_splits prod.splits intro!: drop_p)
qed ((use assms(1) in \<open>auto simp: sys_defs Inr_kbind kbind_eq_Inr split: option.splits\<close>);
    ((erule take_p, simp, assumption, simp, simp) | (erule drop_p, simp, assumption, simp, simp, simp, simp)
     | (erule take_c, simp, assumption, simp, simp) | (erule drop_c, simp, assumption, simp, simp)
     | (erule keep_locks; simp) | (erule set_intr, assumption)))+

section \<open>Processes on CPUs\<close>

fun on :: "sched_pc \<Rightarrow> nat option" where
  "on CLoop = None"
| "on (CLook p) = None"
| "on (CResumed p) = Some p"
| "on (CRunning p) = Some p"
| "on (CHolds p) = Some p"
| "on (CSleep1 p) = Some p"
| "on (CSleep2 p) = Some p"
| "on (CSched p b) = Some p"
| "on (CBack p) = Some p"
| "on (CWake q h c k) = q"
| "on (CWakeAt q h c k) = q"
| "on (CSlot p k) = Some p"

fun active :: "sched_pc \<Rightarrow> bool" where
  "active (CSched p b) = False"
| "active (CBack p) = False"
| "active pc = (on pc \<noteq> None)"

definition run_inv :: "kproc \<Rightarrow> (nat \<Rightarrow> sched_pc) \<Rightarrow> bool" where
  "run_inv k pc \<longleftrightarrow>
     (\<forall>c. cpu_proc k c = on (pc c)) \<and>
     (\<forall>p. (pstate (procs k p) = RUNNING) = (\<exists>c. on (pc c) = Some p \<and> active (pc c))) \<and>
     (\<forall>c d p. on (pc c) = Some p \<longrightarrow> on (pc d) = Some p \<longrightarrow> c = d) \<and>
     (\<forall>c p. on (pc c) = Some p \<longrightarrow> p < NPROC)"

lemma run_keep:
  assumes "run_inv k pc" "on pc' = on (pc c)" "active pc' = active (pc c)"
    and "cpu_proc k' = cpu_proc k" "\<And>p. (pstate (procs k' p) = RUNNING) = (pstate (procs k p) = RUNNING)"
  shows "run_inv k' (pc(c := pc'))"
proof -
  have o: "on ((pc(c := pc')) d) = on (pc d)" "active ((pc(c := pc')) d) = active (pc d)" for d using assms(2,3) by simp_all
  show ?thesis using assms(1) unfolding run_inv_def o assms(4,5) by blast
qed

lemma run_pick:
  assumes r: "run_inv k pc" and n: "on (pc c) = None" "on pc' = Some p" "active pc'"
    and k: "scheduler_pick c p k = Some k'" and free: "\<And>d. on (pc d) \<noteq> Some p"
  shows "run_inv k' (pc(c := pc'))"
proof -
  have k': "p < NPROC" "pstate (procs k p) = RUNNABLE" "k' = upd_proc p (\<lambda>q. q\<lparr>pstate := RUNNING\<rparr>) k\<lparr>cpu_proc := (cpu_proc k)(c := Some p)\<rparr>"
    using k by (auto simp: scheduler_pick_def split: if_splits)
  have c: "\<not> active (pc c)" using n(1) by (cases "pc c") auto
  have "(\<exists>d. on ((pc(c := pc')) d) = Some q \<and> active ((pc(c := pc')) d)) = (q = p \<or> (\<exists>d. on (pc d) = Some q \<and> active (pc d)))" for q
    using n c by (metis fun_upd_apply option.inject)
  then show ?thesis using r n free k'(1) unfolding run_inv_def k'(3) upd_proc_def by auto
qed

lemma run_leave:
  assumes r: "run_inv k pc" and n: "on (pc c) = Some p" "active (pc c)" "on pc' = Some p" "\<not> active pc'"
    and k: "cpu_proc k' = cpu_proc k" "\<And>q. q \<noteq> p \<Longrightarrow> procs k' q = procs k q" "pstate (procs k' p) \<noteq> RUNNING"
  shows "run_inv k' (pc(c := pc'))"
proof -
  have o: "on ((pc(c := pc')) d) = on (pc d)" for d using n(1,3) by simp
  have "(pstate (procs k' q) = RUNNING) = (\<exists>d. on (pc d) = Some q \<and> active ((pc(c := pc')) d))" for q
  proof (cases "q = p")
    case True
    then show ?thesis using k(3) r n unfolding run_inv_def by (metis fun_upd_apply)
  next
    case False
    have "active ((pc(c := pc')) d) = active (pc d)" if "on (pc d) = Some q" for d using that n(1) False by auto
    then have "(\<exists>d. on (pc d) = Some q \<and> active ((pc(c := pc')) d)) = (\<exists>d. on (pc d) = Some q \<and> active (pc d))" by blast
    then show ?thesis using k(2) [OF False] r unfolding run_inv_def by simp
  qed
  then show ?thesis using r unfolding run_inv_def o k(1) by blast
qed

lemma run_back:
  assumes r: "run_inv k pc" and n: "on (pc c) = Some p" "\<not> active (pc c)" "on pc' = None"
  shows "run_inv (scheduler_back c k) (pc(c := pc'))"
proof -
  have c: "\<not> active pc'" using n(3) by (cases pc') auto
  have "(\<exists>d. on ((pc(c := pc')) d) = Some q \<and> active ((pc(c := pc')) d)) = (\<exists>d. on (pc d) = Some q \<and> active (pc d))" for q
    using n c by (metis fun_upd_apply)
  then show ?thesis using r n unfolding run_inv_def scheduler_back_def by auto
qed

lemma run_invD:
  assumes "run_inv k pc"
  shows "cpu_proc k c = on (pc c)" "(pstate (procs k p) = RUNNING) = (\<exists>c. on (pc c) = Some p \<and> active (pc c))"
    "on (pc c) = Some p \<Longrightarrow> on (pc d) = Some p \<Longrightarrow> c = d" "on (pc c) = Some p \<Longrightarrow> p < NPROC"
  using assms unfolding run_inv_def by blast+

lemma cur_hart [simp]: "cur (k\<lparr>hart := c\<rparr>) = (case cpu_proc k c of None \<Rightarrow> Inl (Fault ''myproc'') | Some p \<Rightarrow> Inr p)"
  by (simp add: cur_def myproc_def cpuid_def)

text \<open>The slot whose lock a CPU of the scheduler holds is on no CPU unless it is running.\<close>

lemma look_free:
  assumes l: "lk_inv pl cl cp pc" and r: "run_inv k pc" and c: "pc c = CLook p" and p: "pstate (procs k p) \<noteq> RUNNING"
  shows "on (pc d) \<noteq> Some p"
proof
  assume d: "on (pc d) = Some p"
  then have "\<not> active (pc d)" using p run_invD(2) [OF r] by blast
  then have "hp (pc d) = Some p" using d by (cases "pc d") auto
  moreover have "hp (pc c) = Some p" using c by simp
  ultimately have "d = c" using lk_invD(2) [OF l] holding_unique by blast
  then show False using d c by simp
qed

lemma slot_do_running:
  "pstate (procs (slot_do oper j k) p) = RUNNING \<longleftrightarrow> pstate (procs k p) = RUNNING" "cpu_proc (slot_do oper j k) = cpu_proc k"
  by (cases oper; auto simp: slot_do_def upd_proc_def)+

lemma wakeup_slot_running:
  "pstate (procs (wakeup_slot c j k) p) = RUNNING \<longleftrightarrow> pstate (procs k p) = RUNNING" "cpu_proc (wakeup_slot c j k) = cpu_proc k"
  by (auto simp: wakeup_slot_def upd_proc_def)

lemma run_step:
  assumes l: "lk_inv (plocks s) (clock s) (cpus s) (spc s)" and r: "run_inv (ker s) (spc s)" and "sched_step ch c s (Inr t)"
  shows "run_inv (ker t) (spc t)"
  using assms(3)
proof cases
  case (pick p k)
  have "pstate (procs (ker s) p) \<noteq> RUNNING" using pick by (auto simp: scheduler_pick_def split: if_splits)
  then show ?thesis using pick run_pick [OF r] look_free [OF l r pick(2)] by (simp add: go_def)
next
  case (resume p)
  note o = run_invD(1) [OF r, of c]
  show ?thesis
  proof (cases "frame s p")
    case None
    then show ?thesis using resume r by (auto simp: sys_defs Inr_kbind kbind_eq_Inr intro!: run_keep)
  next
    case (Some x)
    then show ?thesis using resume r o
      by (cases x) (auto simp: sys_defs Inr_kbind kbind_eq_Inr Let_def sleep_exit_def upd_proc_def split: if_splits intro!: run_keep)
  qed
next
  case (yield p)
  then show ?thesis using run_invD(1) [OF r, of c]
    by (auto simp: sys_defs Inr_kbind kbind_eq_Inr yield_enter_def upd_proc_def intro!: run_leave [OF r])
next
  case (exits p status)
  then show ?thesis using run_invD(1) [OF r, of c]
    by (auto simp: sys_defs Inr_kbind kbind_eq_Inr exit_enter_def upd_proc_def intro!: run_leave [OF r])
next
  case (sleep_other p ch')
  then show ?thesis using run_invD(1) [OF r, of c]
    by (auto simp: sys_defs Inr_kbind kbind_eq_Inr sleep_enter_def upd_proc_def intro!: run_leave [OF r])
next
  case (sleep3 p)
  then show ?thesis using run_invD(1) [OF r, of c]
    by (auto simp: sys_defs Inr_kbind kbind_eq_Inr sleep_enter_def upd_proc_def intro!: run_leave [OF r])
next
  case (scheduler_again p)
  then show ?thesis by (auto simp: sys_defs Inr_kbind kbind_eq_Inr intro!: run_back [OF r])
qed (use r in \<open>auto simp: sys_defs Inr_kbind kbind_eq_Inr slot_do_running wakeup_slot_running split: option.splits intro!: run_keep [OF r]\<close>)

section \<open>Sleep and wakeup\<close>

fun waker :: "chan \<Rightarrow> nat \<Rightarrow> sched_pc \<Rightarrow> bool" where
  "waker ch p (CWake q h ch' k) \<longleftrightarrow> h \<and> q \<noteq> None \<and> ch' = ch \<and> k \<le> p"
| "waker ch p (CWakeAt q h ch' k) \<longleftrightarrow> h \<and> q \<noteq> None \<and> ch' = ch \<and> k \<le> p"
| "waker ch p _ \<longleftrightarrow> False"

text \<open>\<open>p\<close> sleeps on the channel, or is about to, having released the condition's lock.\<close>

definition waits :: "chan \<Rightarrow> kproc \<Rightarrow> (nat \<Rightarrow> sched_pc) \<Rightarrow> nat \<Rightarrow> bool" where
  "waits ch k pc p \<longleftrightarrow> (pstate (procs k p) = SLEEPING \<and> pchan (procs k p) = Some ch) \<or> (\<exists>c. pc c = CSleep2 p)"

text \<open>While the condition holds, a CPU is in the loop of \<open>wakeup\<close> and has not passed any process that waits;
  and no process is between its test of the condition and the release of the lock.\<close>

definition wake_inv :: "chan \<Rightarrow> kproc \<Rightarrow> bool \<Rightarrow> (nat \<Rightarrow> sched_pc) \<Rightarrow> bool" where
  "wake_inv ch k cnd pc \<longleftrightarrow>
     (cnd \<longrightarrow> (\<forall>p. waits ch k pc p \<longrightarrow> (\<exists>d. waker ch p (pc d))) \<and> (\<forall>c p. pc c \<noteq> CSleep1 p)) \<and>
     (\<forall>p. pstate (procs k p) = SLEEPING \<longrightarrow> p < NPROC)"

lemma wake_keep:
  assumes w: "wake_inv ch k cnd pc" and c: "cnd' \<Longrightarrow> cnd" and n: "cnd' \<Longrightarrow> \<forall>p. pcn \<noteq> CSleep1 p"
    and wt: "\<And>p. cnd' \<Longrightarrow> waits ch k' (pc(c := pcn)) p \<Longrightarrow> waits ch k pc p \<and> (waker ch p (pc c) \<longrightarrow> waker ch p pcn)"
    and b: "\<And>p. pstate (procs k' p) = SLEEPING \<Longrightarrow> p < NPROC"
  shows "wake_inv ch k' cnd' (pc(c := pcn))"
proof -
  have "\<exists>d. waker ch p ((pc(c := pcn)) d)" if q: "cnd'" "waits ch k' (pc(c := pcn)) p" for p
  proof -
    obtain d where d: "waker ch p (pc d)" using w c [OF q(1)] wt [OF q] unfolding wake_inv_def by blast
    then show ?thesis using wt [OF q] by (cases "d = c") (auto intro: exI [of _ c] exI [of _ d])
  qed
  then show ?thesis using w c n b unfolding wake_inv_def by auto
qed

text \<open>The common case: the processes that wait are among those that did, and the CPU is no waker.\<close>

lemma wake_advance:
  assumes w: "wake_inv ch k cnd pc" and n: "\<And>p. pcn \<noteq> CSleep1 p" "\<And>p. pcn \<noteq> CSleep2 p"
    and a: "\<And>p. waits ch k' (pc(c := pcn)) p \<Longrightarrow> waker ch p (pc c) \<Longrightarrow> waker ch p pcn"
    and k: "\<And>p. pstate (procs k' p) = SLEEPING \<Longrightarrow> pchan (procs k' p) = Some ch \<Longrightarrow>
        pstate (procs k p) = SLEEPING \<and> pchan (procs k p) = Some ch"
      "\<And>p. pstate (procs k' p) = SLEEPING \<Longrightarrow> p < NPROC"
  shows "wake_inv ch k' cnd (pc(c := pcn))"
proof (rule wake_keep [OF w])
  fix p
  assume "waits ch k' (pc(c := pcn)) p"
  then show "waits ch k pc p \<and> (waker ch p (pc c) \<longrightarrow> waker ch p pcn)"
    using a n(2) k(1) unfolding waits_def by (metis fun_upd_apply)
qed (use n k in auto)

lemma wake_same:
  assumes w: "wake_inv ch k cnd pc" and "\<And>p. pcn \<noteq> CSleep1 p" "\<And>p. pcn \<noteq> CSleep2 p" "\<And>p. \<not> waker ch p (pc c) \<or> waker ch p pcn"
    and k: "\<And>p. pstate (procs k' p) = SLEEPING \<Longrightarrow> pchan (procs k' p) = Some ch \<Longrightarrow>
        pstate (procs k p) = SLEEPING \<and> pchan (procs k p) = Some ch"
      "\<And>p. pstate (procs k' p) = SLEEPING \<Longrightarrow> p < NPROC"
  shows "wake_inv ch k' cnd (pc(c := pcn))"
  using assms by (intro wake_advance [OF w]) blast+

lemma wake_invD:
  assumes "wake_inv ch k cnd pc"
  shows "pstate (procs k p) = SLEEPING \<Longrightarrow> p < NPROC" "cnd \<Longrightarrow> waits ch k pc p \<Longrightarrow> \<exists>d. waker ch p (pc d)" "pc c = CSleep1 p \<Longrightarrow> \<not> cnd"
  using assms unfolding wake_inv_def by blast+

lemma waits_bound:
  assumes "wake_inv ch k cnd pc" "run_inv k pc" "waits ch k pc p"
  shows "p < NPROC"
  using assms wake_invD(1) run_invD(4) [OF assms(2)] unfolding waits_def by (metis on.simps(7))

text \<open>Who waits is neither on another CPU's slot lock nor running.\<close>

lemma waits_not_running:
  assumes "run_inv k pc" "waits ch k pc p" "on (pc c) = Some p" "active (pc c)"
  shows "pc c = CSleep2 p"
proof -
  have "pstate (procs k p) = RUNNING" using assms(3,4) run_invD(2) [OF assms(1)] by blast
  then obtain d where "pc d = CSleep2 p" using assms(2) by (auto simp: waits_def)
  moreover then have "d = c" using run_invD(3) [OF assms(1), of d p c] assms(3) by simp
  ultimately show ?thesis by simp
qed

lemma waits_slot_lock:
  assumes "lk_inv pl cl cp pc" "hp (pc c) = Some p" "pc d = CSleep2 p"
  shows "d = c"
  using lk_invD(2) [OF assms(1,2)] lk_invD(2) [OF assms(1), of d p] assms(3) holding_unique by simp

lemma slot_do_sleeping: "pstate (procs (slot_do oper j k) p) = SLEEPING \<Longrightarrow> procs (slot_do oper j k) p = procs k p"
  by (cases oper) (auto simp: slot_do_def upd_proc_def split: if_splits)

lemma wake_step:
  assumes l: "lk_inv (plocks s) (clock s) (cpus s) (spc s)" and r: "run_inv (ker s) (spc s)"
    and w: "wake_inv ch (ker s) (cond s) (spc s)" and "sched_step ch c s (Inr t)"
  shows "wake_inv ch (ker t) (cond t) (spc t)"
  using assms(4)
proof cases
  case (pick p k)
  then show ?thesis using wake_invD(1) [OF w]
    by (auto simp: go_def scheduler_pick_def upd_proc_def split: if_splits intro!: wake_same [OF w])
next
  case (resume p)
  note o = run_invD(1) [OF r, of c] wake_invD(1) [OF w]
  show ?thesis
  proof (cases "frame s p")
    case None
    then show ?thesis using resume o by (auto simp: sys_defs Inr_kbind kbind_eq_Inr intro!: wake_same [OF w])
  next
    case (Some x)
    then show ?thesis using resume o
      by (cases x) (auto simp: sys_defs Inr_kbind kbind_eq_Inr Let_def sleep_exit_def upd_proc_def split: if_splits intro!: wake_same [OF w])
  qed
next
  case (yield p)
  then show ?thesis using run_invD(1) [OF r, of c] wake_invD(1) [OF w]
    by (auto simp: sys_defs Inr_kbind kbind_eq_Inr yield_enter_def upd_proc_def split: if_splits intro!: wake_same [OF w])
next
  case (exits p status)
  then show ?thesis using run_invD(1) [OF r, of c] wake_invD(1) [OF w]
    by (auto simp: sys_defs Inr_kbind kbind_eq_Inr exit_enter_def upd_proc_def split: if_splits intro!: wake_same [OF w])
next
  case (sleep_other p ch')
  then show ?thesis using run_invD(1) [OF r, of c] wake_invD(1) [OF w] run_invD(4) [OF r, of c p]
    by (auto simp: sys_defs Inr_kbind kbind_eq_Inr sleep_enter_def upd_proc_def split: if_splits intro!: wake_same [OF w])
next
  case (sleep1 p)
  then show ?thesis using wake_invD(1) [OF w]
    by (auto simp: sys_defs Inr_kbind kbind_eq_Inr intro!: wake_keep [OF w])
next
  case (sleep2 p)
  then show ?thesis using wake_invD(1,3) [OF w]
    by (auto simp: sys_defs Inr_kbind kbind_eq_Inr intro!: wake_keep [OF w])
next
  case (sleep3 p)
  then show ?thesis using run_invD(1) [OF r, of c] wake_invD(1) [OF w] run_invD(4) [OF r, of c p]
    by (auto simp: sys_defs Inr_kbind kbind_eq_Inr sleep_enter_def upd_proc_def waits_def split: if_splits intro!: wake_keep [OF w])
next
  case (spoil p)
  then show ?thesis using w by (simp add: wake_inv_def)
next
  case (establish p)
  have "spc s d \<noteq> CSleep1 q" if "d \<noteq> c" for d q
    using lk_invD(3) [OF l, of d] lk_invD(3) [OF l, of c] establish(2) holding_unique that by fastforce
  then show ?thesis using establish w by (auto simp: go_def wake_inv_def)
next
  case (wake_self q h ch' k)
  have n: "\<not> waits ch (ker s) (spc s) k" using waits_not_running [OF r, of ch k c] wake_self by auto
  have "k \<noteq> p" if "waits ch (ker s) ((spc s)(c := CWake q h ch' (Suc k))) p" for p
    using that n by (auto simp: waits_def split: if_splits)
  then show ?thesis using wake_self wake_invD(1) [OF w]
    by (auto simp: go_def Suc_le_eq less_le intro!: wake_advance [OF w])
next
  case (wake_slot q h ch' k)
  let ?k = "wakeup_slot ch' k (ker s)"
  have h: "spc s d \<noteq> CSleep2 k" for d using waits_slot_lock [OF l, of c k d] wake_slot by auto
  have "k \<noteq> p" if "waits ch ?k ((spc s)(c := CWake q h ch' (Suc k))) p" "ch' = ch" for p
    using that h by (auto simp: waits_def wakeup_slot_def upd_proc_def split: if_splits)
  moreover have "pstate (procs ?k p) = SLEEPING \<Longrightarrow> procs ?k p = procs (ker s) p" for p
    by (auto simp: wakeup_slot_def upd_proc_def split: if_splits)
  ultimately show ?thesis using wake_slot wake_invD(1) [OF w]
    by (auto simp: sys_defs Inr_kbind kbind_eq_Inr Suc_le_eq less_le intro!: wake_advance [OF w])
next
  case (wake_end q h ch' k)
  define pcn where "pcn = (case q of None \<Rightarrow> CLoop | Some p \<Rightarrow> if h then CHolds p else CRunning p)"
  have n: "pcn \<noteq> CSleep1 p" "pcn \<noteq> CSleep2 p" for p by (auto simp: pcn_def split: option.splits)
  have "\<not> k \<le> p" if "waits ch (ker s) ((spc s)(c := pcn)) p" for p
  proof -
    have "waits ch (ker s) (spc s) p" using that n unfolding waits_def by (metis fun_upd_apply)
    then show ?thesis using waits_bound [OF w r] wake_end(3) by fastforce
  qed
  then show ?thesis using wake_end wake_invD(1) [OF w] n
    by (auto simp: go_def pcn_def [symmetric] intro!: wake_advance [OF w])
next
  case (slot_change p k oper)
  then show ?thesis using wake_invD(1) [OF w] slot_do_sleeping [of oper k "ker s"]
    by (auto simp: sys_defs Inr_kbind kbind_eq_Inr intro!: wake_same [OF w])
next
  case (interrupts ss)
  then show ?thesis using w by simp
qed (use wake_invD(1) [OF w] in \<open>auto simp: sys_defs scheduler_back_def Inr_kbind kbind_eq_Inr split: option.splits if_splits intro!: wake_same [OF w]\<close>)

section \<open>The invariant\<close>

definition sched_inv :: "chan \<Rightarrow> sched_sys \<Rightarrow> bool" where
  "sched_inv ch s \<longleftrightarrow> lk_inv (plocks s) (clock s) (cpus s) (spc s) \<and> run_inv (ker s) (spc s) \<and> wake_inv ch (ker s) (cond s) (spc s)"

lemma inv_init:
  assumes "sched_init s"
  shows "sched_inv ch s"
proof -
  have p: "pstate (procs (ker s) p) \<noteq> RUNNING" "pstate (procs (ker s) p) \<noteq> SLEEPING" "plocks s p = initlock" for p
    using assms by (auto simp: sched_init_def dest!: spec [of _ p])
  have c: "spc s c = CLoop" "cpu_proc (ker s) c = None" "noff (cpus s c) = 0" "clock s = initlock" for c
    using assms by (auto simp: sched_init_def)
  show ?thesis
    by (simp add: sched_inv_def lk_inv_def run_inv_def wake_inv_def waits_def p c nl_def holding_def initlock_def)
qed

lemma inv_step: "sched_inv ch s \<Longrightarrow> sched_step ch c s (Inr t) \<Longrightarrow> sched_inv ch t"
  using lk_step run_step wake_step unfolding sched_inv_def by blast

lemma reach_inv: "sched_reach ch s \<Longrightarrow> sched_inv ch s"
  by (induction rule: sched_reach.induct) (auto intro: inv_init inv_step)

section \<open>No panic\<close>

lemma acquire_p_result:
  assumes "lk_inv (plocks s) (clock s) (cpus s) (spc s)" "hp (spc s c) = None"
  shows "acquire_p c p s = (if lk_locked (plocks s p) = 0
    then Inr (s\<lparr>plocks := (plocks s)(p := \<lparr>lk_locked = 1, lk_cpu = Some c\<rparr>), cpus := (cpus s)(c := push_off (cpus s c))\<rparr>)
    else Inl Hangs)"
  using acquire_result [OF lk_invD(1) [OF assms]] by (simp add: acquire_p_def)

lemma acquire_c_result:
  assumes "lk_inv (plocks s) (clock s) (cpus s) (spc s)" "\<not> hc (spc s c)"
  shows "acquire_c c s = Inl Hangs \<or> (\<exists>t. acquire_c c s = Inr t)"
  using acquire_result [of c "clock s" "cpus s c"] lk_invD(3) [OF assms(1), of c] assms(2) by (simp add: acquire_c_def)

lemma release_p_result:
  assumes "lk_inv (plocks s) (clock s) (cpus s) (spc s)" "hp (spc s c) = Some p"
    and "plocks u = plocks s" "noff (cpus u c) = noff (cpus s c)" "sstatus (cpus u c) = sstatus (cpus s c)"
  shows "\<exists>cpu. release_p c p u = Inr (u\<lparr>plocks := (plocks u)(p := \<lparr>lk_locked = 0, lk_cpu = None\<rparr>), cpus := (cpus u)(c := cpu)\<rparr>)"
proof -
  have n: "1 \<le> nl (spc s c)" "0 < nl (spc s c)" using assms(2) by (simp_all add: nl_def)
  have "holding c (plocks u p)" "1 \<le> noff (cpus u c)" "\<not> intr_get (sstatus (cpus u c))"
    using lk_invD(2) [OF assms(1,2)] lk_invD(4,5) [OF assms(1), of c] n assms(3-5) by simp_all
  from release_result [OF this] show ?thesis by (auto simp: release_p_def)
qed

lemma release_c_result:
  assumes "lk_inv (plocks s) (clock s) (cpus s) (spc s)" "hc (spc s c)"
  shows "\<exists>t. release_c c s = Inr t"
proof -
  have n: "1 \<le> nl (spc s c)" "0 < nl (spc s c)" using assms(2) by (simp_all add: nl_def)
  have "holding c (clock s)" "1 \<le> noff (cpus s c)" "\<not> intr_get (sstatus (cpus s c))"
    using lk_invD(3-5) [OF assms(1), of c] n assms(2) by simp_all
  from release_result [OF this] show ?thesis by (auto simp: release_c_def)
qed

lemma sched_enter_result:
  assumes l: "lk_inv (plocks s) (clock s) (cpus s) (spc s)" and r: "run_inv (ker s) (spc s)" and c: "spc s c = CSched p b"
  shows "sched_enter c p b s = Inr (s\<lparr>frame := (frame s)(p := Some (b, intena (cpus s c)))\<rparr>)"
proof -
  have "noff (cpus s c) = 1" "\<not> intr_get (sstatus (cpus s c))" "holding c (plocks s p)"
    using lk_invD(2-5) [OF l, of c] c by (simp_all add: nl_def)
  moreover have "pstate (procs (ker s) p) \<noteq> RUNNING"
    using run_invD(2) [OF r, of p] run_invD(3) [OF r, of c p] c by (metis active.simps(1) on.simps(8))
  ultimately show ?thesis using run_invD(1) [OF r, of c] c by (simp add: sched_enter_def sched_check_def cpuid_def)
qed

lemma sched_exit_result:
  assumes r: "run_inv (ker s) (spc s)" and c: "on (spc s c) = Some p"
  shows "\<exists>ie k. sched_exit c p s = Inr (s\<lparr>cpus := (cpus s)(c := (cpus s c)\<lparr>intena := ie\<rparr>), ker := k\<rparr>) \<and>
    (\<forall>q. q \<noteq> p \<longrightarrow> procs k q = procs (ker s) q) \<and> cpu_proc k = cpu_proc (ker s)"
proof (cases "frame s p")
  case None
  then show ?thesis by (auto simp: sched_exit_def intro!: exI [of _ "intena (cpus s c)"] exI [of _ "ker s"])
next
  case (Some x)
  obtain b ie where x: "x = (b, ie)" by (cases x)
  show ?thesis
  proof (cases b)
    case True
    then show ?thesis using Some x run_invD(1) [OF r, of c] c
      by (auto simp: sched_exit_def kern_def sleep_exit_def upd_proc_def Let_def
        intro!: exI [of _ ie] exI [of _ "upd_proc p (\<lambda>q. q\<lparr>pchan := None\<rparr>) ((ker s)\<lparr>hart := c\<rparr>)"])
  next
    case False
    then show ?thesis using Some x by (auto simp: sched_exit_def Let_def intro!: exI [of _ ie] exI [of _ "ker s"])
  qed
qed

lemma kern_result:
  assumes r: "run_inv (ker s) (spc s)" and c: "on (spc s c) = Some p" and u: "ker u = ker s"
  shows "kern c yield_enter u = Inr (u\<lparr>ker := upd_proc p (\<lambda>q. q\<lparr>pstate := RUNNABLE\<rparr>) ((ker s)\<lparr>hart := c\<rparr>)\<rparr>)"
    "kern c (exit_enter status) u = Inr (u\<lparr>ker := upd_proc p (\<lambda>q. q\<lparr>pxstate := status, pstate := ZOMBIE\<rparr>) ((ker s)\<lparr>hart := c\<rparr>)\<rparr>)"
    "kern c (sleep_enter ch) u = Inr (u\<lparr>ker := upd_proc p (\<lambda>q. q\<lparr>pchan := Some ch, pstate := SLEEPING\<rparr>) ((ker s)\<lparr>hart := c\<rparr>)\<rparr>)"
  using run_invD(1) [OF r, of c] c u by (simp_all add: kern_def yield_enter_def exit_enter_def sleep_enter_def)

lemma step_no_panic:
  assumes i: "sched_inv ch s" and "sched_step ch c s r"
  shows "r = Inl Hangs \<or> (\<exists>t. r = Inr t)"
proof -
  have l: "lk_inv (plocks s) (clock s) (cpus s) (spc s)" and r: "run_inv (ker s) (spc s)" using i by (simp_all add: sched_inv_def)
  note take = acquire_p_result [OF l, of c] and drop = release_p_result [OF l, of c] and k = kern_result [OF r, of c]
  from assms(2) show ?thesis
  proof cases
    case (resume p)
    obtain ie k where e: "sched_exit c p s = Inr (s\<lparr>cpus := (cpus s)(c := (cpus s c)\<lparr>intena := ie\<rparr>), ker := k\<rparr>)"
      using sched_exit_result [OF r, of c p] resume by auto
    show ?thesis using drop [of p "s\<lparr>cpus := (cpus s)(c := (cpus s c)\<lparr>intena := ie\<rparr>), ker := k\<rparr>"] resume e by auto
  next
    case (pass p)
    then show ?thesis using drop [of p s] by auto
  next
    case (scheduler_again p)
    then show ?thesis using drop [of p "s\<lparr>ker := scheduler_back c (ker s)\<rparr>"] by auto
  next
    case (wake_slot q h ch' j)
    then show ?thesis using drop [of j "s\<lparr>ker := wakeup_slot ch' j (ker s)\<rparr>"] by auto
  next
    case (slot_change p j oper)
    then show ?thesis using drop [of j "s\<lparr>ker := slot_do oper j (ker s)\<rparr>"] by auto
  next
    case (swtch p b)
    then show ?thesis using sched_enter_result [OF l r] by simp
  next
    case (lock p)
    then show ?thesis using acquire_c_result [OF l, of c] by auto
  next
    case (unlock p)
    then show ?thesis using release_c_result [OF l, of c] by auto
  next
    case (sleep2 p)
    then show ?thesis using release_c_result [OF l, of c] by auto
  qed (auto simp: take k split: if_splits)
qed

section \<open>A sleeper can be woken\<close>

definition sched_next :: "chan \<Rightarrow> sched_sys \<Rightarrow> sched_sys \<Rightarrow> bool" where
  "sched_next ch s t \<longleftrightarrow> (\<exists>c. sched_step ch c s (Inr t))"

lemma next_inv: "sched_inv ch s \<Longrightarrow> (sched_next ch)\<^sup>*\<^sup>* s t \<Longrightarrow> sched_inv ch t"
  by (rotate_tac, induction rule: rtranclp_induct) (auto simp: sched_next_def intro: inv_step)

definition asleep :: "chan \<Rightarrow> nat \<Rightarrow> sched_sys \<Rightarrow> bool" where
  "asleep ch p s \<longleftrightarrow> pstate (procs (ker s) p) = SLEEPING \<and> pchan (procs (ker s) p) = Some ch"

definition woken :: "nat \<Rightarrow> sched_sys \<Rightarrow> bool" where
  "woken p s \<longleftrightarrow> pstate (procs (ker s) p) = RUNNABLE"

text \<open>A CPU that holds the lock of a slot, and not that of the condition, comes nearer to releasing it.\<close>

fun rank :: "sched_pc \<Rightarrow> nat" where
  "rank (CSleep2 p) = 3"
| "rank (CSched p b) = 2"
| "rank (CLook p) = 2"
| "rank _ = 1"

lemma holder_moves:
  assumes i: "sched_inv ch s" and h: "hp (spc s d) = Some k" "\<not> hc (spc s d)" and p: "asleep ch p s"
  obtains t pc' where "sched_step ch d s (Inr t)" "spc t = (spc s)(d := pc')" "asleep ch p t \<or> woken p t"
    "lk_locked (plocks t k) = 0 \<or> (hp pc' = Some k \<and> \<not> hc pc' \<and> rank pc' < rank (spc s d))"
proof -
  note that' = that
  have l: "lk_inv (plocks s) (clock s) (cpus s) (spc s)" and r: "run_inv (ker s) (spc s)" using i by (simp_all add: sched_inv_def)
  have np: "q \<noteq> p" if "on (spc s d) = Some q" "active (spc s d)" for q
    using run_invD(2) [OF r, of p] that p by (auto simp: asleep_def)
  define ul where "ul u cpu = u\<lparr>plocks := (plocks s)(k := \<lparr>lk_locked = 0, lk_cpu = None\<rparr>), cpus := (cpus u)(d := cpu)\<rparr>" for u :: sched_sys and cpu
  have drop: "\<exists>cpu. release_p d k u = Inr (ul u cpu)"
    if "plocks u = plocks s" "noff (cpus u d) = noff (cpus s d)" "sstatus (cpus u d) = sstatus (cpus s d)" for u
    using release_p_result [OF l h(1) that] that(1) by (simp add: ul_def)
  have freed: thesis if st: "sched_step ch d s (Inr (go d pc' (ul u cpu)))" and u: "spc u = spc s" "asleep ch p u \<or> woken p u" for u cpu pc'
    by (rule that' [OF st, of pc']) (use u in \<open>simp_all add: go_def ul_def asleep_def woken_def\<close>)
  note ap = asleep_def woken_def upd_proc_def
  show thesis
  proof (cases "spc s d")
    case (CLook q)
    then have q: "q = k" using h by simp
    show ?thesis
    proof (cases "scheduler_pick d q (ker s)")
      case None
      obtain cpu where "release_p d k s = Inr (ul s cpu)" using drop [of s] by auto
      then show ?thesis using sched_step.pass [OF CLook None, of ch] p q by (intro freed [of CLoop s cpu]) auto
    next
      case (Some kk)
      then show ?thesis using sched_step.pick [OF CLook Some] CLook h p
        by (intro that' [where pc' = "CResumed q"]) (auto simp: go_def ap scheduler_pick_def split: if_splits)
    qed
  next
    case (CResumed q)
    then have q: "q = k" "p \<noteq> q" using h np by auto
    obtain ie kk where e: "sched_exit d q s = Inr (s\<lparr>cpus := (cpus s)(d := (cpus s d)\<lparr>intena := ie\<rparr>), ker := kk\<rparr>)"
        "\<forall>x. x \<noteq> q \<longrightarrow> procs kk x = procs (ker s) x"
      using sched_exit_result [OF r, of d q] CResumed by auto
    let ?u = "s\<lparr>cpus := (cpus s)(d := (cpus s d)\<lparr>intena := ie\<rparr>), ker := kk\<rparr>"
    obtain cpu where "release_p d k ?u = Inr (ul ?u cpu)" using drop [of ?u] by auto
    then show ?thesis using sched_step.resume [OF CResumed, of ch] e p q
      by (intro freed [of "CRunning q" ?u cpu]) (auto simp: asleep_def)
  next
    case (CSleep2 q)
    then show ?thesis using np [of q] kern_result(3) [OF r, of d q s ch] sched_step.sleep3 [OF CSleep2, of ch] h p
      by (intro that' [where pc' = "CSched q True"]) (auto simp: go_def ap)
  next
    case (CSched q b)
    then show ?thesis using sched_enter_result [OF l r] sched_step.swtch [OF CSched, of ch] h p
      by (intro that' [where pc' = "CBack q"]) (auto simp: go_def ap)
  next
    case (CBack q)
    let ?u = "s\<lparr>ker := scheduler_back d (ker s)\<rparr>"
    obtain cpu where "release_p d k ?u = Inr (ul ?u cpu)" using drop [of ?u] by auto
    then show ?thesis using sched_step.scheduler_again [OF CBack, of ch] p CBack h
      by (intro freed [of CLoop ?u cpu]) (auto simp: asleep_def scheduler_back_def)
  next
    case (CWakeAt q hh ch' j)
    let ?u = "s\<lparr>ker := wakeup_slot ch' k (ker s)\<rparr>"
    obtain cpu where "release_p d k ?u = Inr (ul ?u cpu)" using drop [of ?u] by auto
    then show ?thesis using sched_step.wake_slot [OF CWakeAt, of ch] p CWakeAt h
      by (intro freed [of "CWake q hh ch' (Suc k)" ?u cpu]) (auto simp: ap wakeup_slot_def)
  next
    case (CSlot q j)
    let ?u = "s\<lparr>ker := slot_do OpReady k (ker s)\<rparr>"
    obtain cpu where "release_p d k ?u = Inr (ul ?u cpu)" using drop [of ?u] by auto
    then show ?thesis using sched_step.slot_change [OF CSlot, of ch OpReady] p CSlot h
      by (intro freed [of "CRunning q" ?u cpu]) (auto simp: ap slot_do_def)
  qed (use h in auto)
qed

lemma slot_frees:
  assumes "sched_inv ch s" "hp (spc s d) = Some k" "\<not> hc (spc s d)" "asleep ch p s" "d \<noteq> w"
  shows "\<exists>t. (sched_next ch)\<^sup>*\<^sup>* s t \<and> spc t w = spc s w \<and> (woken p t \<or> (asleep ch p t \<and> lk_locked (plocks t k) = 0))"
  using assms
proof (induction "rank (spc s d)" arbitrary: s rule: less_induct)
  case less
  obtain t pc' where t: "sched_step ch d s (Inr t)" "spc t = (spc s)(d := pc')" "asleep ch p t \<or> woken p t"
      "lk_locked (plocks t k) = 0 \<or> (hp pc' = Some k \<and> \<not> hc pc' \<and> rank pc' < rank (spc s d))"
    by (rule holder_moves [OF less.prems(1-4)])
  have n: "(sched_next ch)\<^sup>*\<^sup>* s t" "spc t w = spc s w"
    using t(1,2) less.prems(5) r_into_rtranclp [of "sched_next ch" s t] by (auto simp: sched_next_def)
  show ?case
  proof (cases "woken p t \<or> lk_locked (plocks t k) = 0")
    case True
    then show ?thesis using n t(3) by blast
  next
    case False
    then obtain u where "(sched_next ch)\<^sup>*\<^sup>* t u" "spc u w = spc t w" "woken p u \<or> (asleep ch p u \<and> lk_locked (plocks u k) = 0)"
      using less.hyps [of t] inv_step [OF less.prems(1) t(1)] t less.prems(5) by auto
    then show ?thesis using n by (metis rtranclp_trans)
  qed
qed

lemma wake_passes:
  assumes i: "sched_inv ch s" and w: "spc s w = CWakeAt (Some q) True ch k" and p: "asleep ch p s"
  obtains t where "sched_next ch s t" "spc t w = CWake (Some q) True ch (Suc k)" "if k = p then woken p t else asleep ch p t"
proof -
  let ?u = "s\<lparr>ker := wakeup_slot ch k (ker s)\<rparr>"
  have l: "lk_inv (plocks s) (clock s) (cpus s) (spc s)" using i by (simp add: sched_inv_def)
  obtain cpu where e: "release_p w k ?u = Inr (?u\<lparr>plocks := (plocks ?u)(k := \<lparr>lk_locked = 0, lk_cpu = None\<rparr>), cpus := (cpus ?u)(w := cpu)\<rparr>)"
    using release_p_result [OF l, of w k ?u] w by auto
  let ?t = "go w (CWake (Some q) True ch (Suc k)) (?u\<lparr>plocks := (plocks ?u)(k := \<lparr>lk_locked = 0, lk_cpu = None\<rparr>), cpus := (cpus ?u)(w := cpu)\<rparr>)"
  have "sched_step ch w s (Inr ?t)" using sched_step.wake_slot [OF w, of ch] e by simp
  then show thesis using p
    by (intro that [of ?t]) (auto simp: sched_next_def go_def asleep_def woken_def wakeup_slot_def upd_proc_def)
qed

lemma lock_freed:
  assumes i: "sched_inv ch s" and w: "spc s w = CWake (Some q) True ch k" and p: "asleep ch p s"
  shows "\<exists>t. (sched_next ch)\<^sup>*\<^sup>* s t \<and> spc t w = spc s w \<and> (woken p t \<or> (asleep ch p t \<and> lk_locked (plocks t k) = 0))"
proof (cases "lk_locked (plocks s k) = 0")
  case True
  then show ?thesis using p by blast
next
  case False
  have l: "lk_inv (plocks s) (clock s) (cpus s) (spc s)" using i by (simp add: sched_inv_def)
  obtain d where d: "hp (spc s d) = Some k" using l False unfolding lk_inv_def by metis
  then have "d \<noteq> w" using w by auto
  moreover have "\<not> hc (spc s d)"
    using lk_invD(3) [OF l, of d] lk_invD(3) [OF l, of w] w holding_unique \<open>d \<noteq> w\<close> by fastforce
  ultimately show ?thesis using slot_frees [OF i d _ p] by blast
qed

text \<open>One round of the loop of \<open>wakeup\<close>, with the time other CPUs need to release the slot.\<close>

lemma wake_locks:
  assumes i: "sched_inv ch t" and w: "spc t w = CWake (Some q) True ch k" and k: "k < NPROC" "q \<noteq> k"
    and f: "lk_locked (plocks t k) = 0" and p: "asleep ch p t"
  obtains u where "sched_next ch t u" "spc u w = CWakeAt (Some q) True ch k" "asleep ch p u"
proof -
  define a where "a = t\<lparr>plocks := (plocks t)(k := \<lparr>lk_locked = 1, lk_cpu = Some w\<rparr>), cpus := (cpus t)(w := push_off (cpus t w))\<rparr>"
  have l: "lk_inv (plocks t) (clock t) (cpus t) (spc t)" using i by (simp add: sched_inv_def)
  have "acquire_p w k t = Inr a" using acquire_p_result [OF l, of w k] w f by (simp add: a_def)
  then have "sched_step ch w t (Inr (go w (CWakeAt (Some q) True ch k) a))"
    using sched_step.wake_lock [OF w k(1), of ch] k(2) by simp
  then show thesis using p by (intro that [of "go w (CWakeAt (Some q) True ch k) a"]) (auto simp: sched_next_def asleep_def go_def a_def)
qed

lemma wake_round:
  assumes i: "sched_inv ch s" and w: "spc s w = CWake (Some q) True ch k" and kp: "k \<le> p" and p: "asleep ch p s"
  shows "\<exists>t. (sched_next ch)\<^sup>*\<^sup>* s t \<and> (woken p t \<or> (k \<noteq> p \<and> asleep ch p t \<and> spc t w = CWake (Some q) True ch (Suc k)))"
proof -
  have r: "run_inv (ker s) (spc s)" and wi: "wake_inv ch (ker s) (cond s) (spc s)" using i by (simp_all add: sched_inv_def)
  have kn: "k < NPROC" using wake_invD(1) [OF wi, of p] kp p by (simp add: asleep_def)
  have qp: "q \<noteq> p" using run_invD(2) [OF r, of p] w p by (auto simp: asleep_def dest!: spec [of _ w])
  show ?thesis
  proof (cases "q = k")
    case True
    let ?t = "go w (CWake (Some q) True ch (Suc k)) s"
    have "sched_next ch s ?t" using sched_step.wake_self [OF w kn, of ch] True by (auto simp: sched_next_def)
    moreover have "k \<noteq> p \<and> asleep ch p ?t \<and> spc ?t w = CWake (Some q) True ch (Suc k)" using True qp p by (simp add: go_def asleep_def)
    ultimately show ?thesis by blast
  next
    case False
    obtain t where t: "(sched_next ch)\<^sup>*\<^sup>* s t" "spc t w = spc s w" "woken p t \<or> (asleep ch p t \<and> lk_locked (plocks t k) = 0)"
      using lock_freed [OF i w p] by blast
    show ?thesis
    proof (cases "woken p t")
      case n: False
      have it: "sched_inv ch t" by (rule next_inv [OF i t(1)])
      obtain u where u: "sched_next ch t u" "spc u w = CWakeAt (Some q) True ch k" "asleep ch p u"
        by (rule wake_locks [OF it _ kn False, of w p]) (use t(2,3) w n in auto)
      have iu: "sched_inv ch u" by (rule next_inv [OF it]) (use u(1) in blast)
      obtain v where v: "sched_next ch u v" "spc v w = CWake (Some q) True ch (Suc k)" "if k = p then woken p v else asleep ch p v"
        by (rule wake_passes [OF iu u(2,3)])
      have "(sched_next ch)\<^sup>*\<^sup>* s v" using t(1) u(1) v(1) by (meson rtranclp.rtrancl_into_rtrancl)
      then show ?thesis using v(2,3) by (cases "k = p") auto
    qed (use t in blast)
  qed
qed

lemma wake_progress:
  assumes "sched_inv ch s" "spc s w = CWake (Some q) True ch k" "k \<le> p" "asleep ch p s"
  shows "\<exists>t. (sched_next ch)\<^sup>*\<^sup>* s t \<and> woken p t"
  using assms
proof (induction "p - k" arbitrary: s k rule: less_induct)
  case less
  obtain t where t: "(sched_next ch)\<^sup>*\<^sup>* s t" "woken p t \<or> (k \<noteq> p \<and> asleep ch p t \<and> spc t w = CWake (Some q) True ch (Suc k))"
    using wake_round [OF less.prems] by blast
  show ?case
  proof (cases "woken p t")
    case False
    then have "\<exists>u. (sched_next ch)\<^sup>*\<^sup>* t u \<and> woken p u"
      using t(2) less.prems(3) by (intro less.hyps [of "Suc k" t] next_inv [OF less.prems(1) t(1)]) auto
    then show ?thesis using t(1) by (metis rtranclp_trans)
  qed (use t in blast)
qed

section \<open>Properties\<close>

text \<open>C8. Under every interleaving of the CPUs: a process is on at most one CPU, its \<open>state\<close> is \<open>RUNNING\<close>
  exactly while a CPU executes it outside the switch, and no step breaks the lock discipline. No \<open>acquire\<close>,
  \<open>release\<close>, \<open>pop_off\<close> or check of \<open>sched\<close> panics and no \<open>myproc()\<close> is null where it is used; a step can
  only be delayed, by another CPU that holds the lock it needs.\<close>

theorem scheduling_safe:
  assumes "sched_reach ch s"
  shows "(\<forall>c d p. cpu_proc (ker s) c = Some p \<and> cpu_proc (ker s) d = Some p \<longrightarrow> c = d) \<and>
    (\<forall>p. pstate (procs (ker s) p) = RUNNING \<longleftrightarrow> (\<exists>c. cpu_proc (ker s) c = Some p \<and> spc s c \<noteq> CBack p \<and> (\<forall>b. spc s c \<noteq> CSched p b))) \<and>
    (\<forall>c r. sched_step ch c s r \<longrightarrow> r = Inl Hangs \<or> (\<exists>t. r = Inr t \<and> sched_reach ch t))"
proof -
  have i: "sched_inv ch s" by (rule reach_inv [OF assms])
  then have r: "run_inv (ker s) (spc s)" by (simp add: sched_inv_def)
  have "active pc \<longleftrightarrow> pc \<noteq> CBack p \<and> (\<forall>b. pc \<noteq> CSched p b)" if "on pc = Some p" for pc p using that by (cases pc) auto
  then have "pstate (procs (ker s) p) = RUNNING \<longleftrightarrow> (\<exists>c. cpu_proc (ker s) c = Some p \<and> spc s c \<noteq> CBack p \<and> (\<forall>b. spc s c \<noteq> CSched p b))" for p
    unfolding run_invD(1) [OF r] run_invD(2) [OF r] by blast
  moreover have "\<exists>t. r = Inr t \<and> sched_reach ch t" if "sched_step ch c s r" "r \<noteq> Inl Hangs" for c r
    using step_no_panic [OF i that(1)] that assms sched_reach.step by blast
  moreover have "c = d" if "cpu_proc (ker s) c = Some p" "cpu_proc (ker s) d = Some p" for c d p
    using run_invD(3) [OF r] that by (simp add: run_invD(1) [OF r])
  ultimately show ?thesis by blast
qed

text \<open>C9. No wakeup is lost. If a process sleeps on the channel of a condition and the condition holds, then
  some CPU is inside \<open>wakeup\<close> for that channel and has not yet passed the sleeper; and the machine can
  always go on to a state in which the sleeper is runnable, whatever locks other CPUs hold.\<close>

theorem no_lost_wakeup:
  assumes "sched_reach ch s" and "cond s" and "pstate (procs (ker s) p) = SLEEPING" and "pchan (procs (ker s) p) = Some ch"
  shows "(\<exists>c q k. (spc s c = CWake (Some q) True ch k \<or> spc s c = CWakeAt (Some q) True ch k) \<and> k \<le> p) \<and>
    (\<exists>t. (sched_next ch)\<^sup>*\<^sup>* s t \<and> pstate (procs (ker t) p) = RUNNABLE)"
proof -
  have i: "sched_inv ch s" by (rule reach_inv [OF assms(1)])
  have a: "asleep ch p s" using assms(3,4) by (simp add: asleep_def)
  obtain c where "waker ch p (spc s c)"
    using i wake_invD(2) [of ch "ker s" "cond s" "spc s" p] assms(2-4) by (auto simp: sched_inv_def waits_def)
  then obtain q k where c: "spc s c = CWake (Some q) True ch k \<or> spc s c = CWakeAt (Some q) True ch k" "k \<le> p"
    by (cases "spc s c") auto
  have "\<exists>t. (sched_next ch)\<^sup>*\<^sup>* s t \<and> woken p t"
  proof (cases "spc s c = CWake (Some q) True ch k")
    case True
    then show ?thesis using wake_progress [OF i _ c(2) a] by blast
  next
    case False
    then obtain t where t: "sched_next ch s t" "spc t c = CWake (Some q) True ch (Suc k)" "if k = p then woken p t else asleep ch p t"
      using wake_passes [OF i _ a] c(1) by metis
    show ?thesis
    proof (cases "k = p")
      case True
      then show ?thesis using t r_into_rtranclp [of "sched_next ch" s t] by auto
    next
      case kp: False
      have "sched_inv ch t" using next_inv [OF i] t(1) by blast
      then show ?thesis using wake_progress [OF _ t(2), of p] kp t(1,3) c(2) by (metis Suc_leI converse_rtranclp_into_rtranclp le_neq_implies_less)
    qed
  qed
  then show ?thesis using c by (auto simp: woken_def)
qed

section \<open>A run\<close>

text \<open>Two runnable processes. On CPU 0, process 0 finds the condition false and goes to sleep; then process
  1 on CPU 1 takes the condition's lock and makes it true.\<close>

definition demo_kernel :: kproc where
  "demo_kernel = \<lparr>sym_end = 0, sym_etext = 0, sym_trampoline = 0, mem = (\<lambda>_. 0), freelist = 0,
     procs = (\<lambda>p. zero_proc\<lparr>pstate := (if p < 2 then RUNNABLE else UNUSED)\<rparr>), cpu_proc = Map.empty, hart = 0,
     nextpid = 3, initproc = Some 0, ticks = 0\<rparr>"

abbreviation (input) dcpu :: "int \<Rightarrow> kcpu" where "dcpu n \<equiv> \<lparr>noff = n, intena = False, sstatus = 0\<rparr>"
abbreviation (input) taken :: "nat \<Rightarrow> spinlock" where "taken c \<equiv> \<lparr>lk_locked = 1, lk_cpu = Some c\<rparr>"

definition demo :: sched_sys where
  "demo = \<lparr>ker = demo_kernel, plocks = (\<lambda>_. initlock), clock = initlock, cond = False, cpus = (\<lambda>_. dcpu 0),
     spc = (\<lambda>_. CLoop), frame = Map.empty\<rparr>"

lemma intr_get_zero [simp]: "\<not> intr_get 0" "intr_off 0 = 0"
  using intr_off_id [of 0] by (simp_all add: intr_get_iff)

lemma demo_acquire: "acquire c initlock (dcpu n) = Inr (taken c, dcpu (n + 1))"
  by (simp add: acquire_def acquire_enter_def push_off_def holding_def initlock_def test_and_set_def acquire_record_def Let_def)

lemma demo_release: "1 \<le> n \<Longrightarrow> release c (taken c) (dcpu n) = Inr (initlock, dcpu (n - 1))"
  by (simp add: release_def release_enter_def pop_off_def holding_def initlock_def lock_release_def Let_def)

lemma demo_init: "sched_reach ch demo"
  by (rule sched_reach.start) (simp add: sched_init_def demo_def demo_kernel_def)

text \<open>A free runnable process gets onto an idle CPU, and then takes the condition's lock.\<close>

lemma demo_dispatch:
  assumes "sched_reach ch s" "spc s c = CLoop" "p < NPROC" "plocks s p = initlock" "cpus s c = dcpu 0"
    "pstate (procs (ker s) p) = RUNNABLE" "frame s p = None" "clock s = initlock"
  shows "sched_reach ch (s\<lparr>ker := (upd_proc p (\<lambda>q. q\<lparr>pstate := RUNNING\<rparr>) (ker s))\<lparr>cpu_proc := (cpu_proc (ker s))(c := Some p)\<rparr>,
    clock := taken c, cpus := (cpus s)(c := dcpu 1), spc := (spc s)(c := CHolds p)\<rparr>)"
proof -
  let ?k = "(upd_proc p (\<lambda>q. q\<lparr>pstate := RUNNING\<rparr>) (ker s))\<lparr>cpu_proc := (cpu_proc (ker s))(c := Some p)\<rparr>"
  let ?sa = "s\<lparr>plocks := (plocks s)(p := taken c), cpus := (cpus s)(c := dcpu 1), spc := (spc s)(c := CLook p)\<rparr>"
  let ?sb = "?sa\<lparr>ker := ?k, spc := (spc s)(c := CResumed p)\<rparr>"
  let ?sc = "s\<lparr>ker := ?k, spc := (spc s)(c := CRunning p)\<rparr>"
  have pl: "(plocks s)(p := initlock) = plocks s" "(cpus s)(c := dcpu 0) = cpus s" using assms by (simp_all add: fun_upd_idem)
  have "sched_step ch c s (Inr ?sa)"
    using sched_step.look [OF assms(2,3), of ch] assms by (simp add: sys_defs demo_acquire)
  with assms(1) have 1: "sched_reach ch ?sa" by (rule sched_reach.step)
  have "sched_step ch c ?sa (Inr ?sb)"
    using sched_step.pick [of ?sa c p ?k ch] assms by (simp add: scheduler_pick_def go_def)
  with 1 have 2: "sched_reach ch ?sb" by (rule sched_reach.step)
  have "sched_step ch c ?sb (Inr ?sc)"
    using sched_step.resume [of ?sb c p ch] assms pl by (simp add: sys_defs demo_release)
  with 2 have 3: "sched_reach ch ?sc" by (rule sched_reach.step)
  have "sched_step ch c ?sc (Inr (?sc\<lparr>clock := taken c, cpus := (cpus s)(c := dcpu 1), spc := (spc s)(c := CHolds p)\<rparr>))"
    using sched_step.lock [of ?sc c p ch] assms by (simp add: sys_defs demo_acquire)
  with 3 show ?thesis by (auto dest: sched_reach.step)
qed

lemma demo_sleep:
  assumes "sched_reach ch s" "spc s c = CHolds p" "plocks s p = initlock" "clock s = taken c" "cpus s c = dcpu 1" "\<not> cond s"
    "cpu_proc (ker s) c = Some p"
  shows "sched_reach ch (s\<lparr>plocks := (plocks s)(p := taken c), clock := initlock,
    ker := upd_proc p (\<lambda>q. q\<lparr>pchan := Some ch, pstate := SLEEPING\<rparr>) ((ker s)\<lparr>hart := c\<rparr>), spc := (spc s)(c := CSched p True)\<rparr>)"
proof -
  let ?sa = "s\<lparr>plocks := (plocks s)(p := taken c), cpus := (cpus s)(c := dcpu 2), spc := (spc s)(c := CSleep1 p)\<rparr>"
  let ?sb = "s\<lparr>plocks := (plocks s)(p := taken c), clock := initlock, spc := (spc s)(c := CSleep2 p)\<rparr>"
  have cp: "(cpus s)(c := dcpu 1) = cpus s" using assms by (simp add: fun_upd_idem)
  have "sched_step ch c s (Inr ?sa)"
    using sched_step.sleep1 [OF assms(2), of ch] assms by (simp add: sys_defs demo_acquire)
  with assms(1) have 1: "sched_reach ch ?sa" by (rule sched_reach.step)
  have "sched_step ch c ?sa (Inr ?sb)"
    using sched_step.sleep2 [of ?sa c p ch] assms cp by (simp add: sys_defs demo_release)
  with 1 have 2: "sched_reach ch ?sb" by (rule sched_reach.step)
  have "sched_step ch c ?sb (Inr (?sb\<lparr>ker := upd_proc p (\<lambda>q. q\<lparr>pchan := Some ch, pstate := SLEEPING\<rparr>) ((ker s)\<lparr>hart := c\<rparr>),
      spc := (spc s)(c := CSched p True)\<rparr>))"
    using sched_step.sleep3 [of ?sb c p ch] assms by (simp add: sys_defs sleep_enter_def)
  with 2 show ?thesis by (auto dest: sched_reach.step)
qed

text \<open>The run up to the first call of \<open>wakeup\<close>.\<close>

lemma demo_run:
  obtains s where "sched_reach ch s" "cond s" "pstate (procs (ker s) 0) = SLEEPING" "pchan (procs (ker s) 0) = Some ch"
    "cpu_proc (ker s) 0 = Some 0" "cpu_proc (ker s) 1 = Some 1" "pstate (procs (ker s) 1) = RUNNING"
proof -
  have d: "spc demo c = CLoop" "plocks demo p = initlock" "cpus demo c = dcpu 0" "frame demo p = None" "clock demo = initlock"
      "pstate (procs (ker demo) 0) = RUNNABLE" "pstate (procs (ker demo) (Suc 0)) = RUNNABLE" "\<not> cond demo" for c p
    by (simp_all add: demo_def demo_kernel_def)
  note a = demo_dispatch [OF demo_init [of ch], of 0 0]
  note b = demo_sleep [OF a, of 0 0]
  note c = demo_dispatch [OF b, of 1 1]
  note e = sched_reach.step [OF c sched_step.establish [of _ 1 1]]
  show thesis by (rule that [OF e]) (simp_all add: d go_def upd_proc_def)
qed

theorem scheduling_safe_witness:
  "\<exists>s. sched_reach ChConsR s \<and> cpu_proc (ker s) 1 = Some 1 \<and> cpu_proc (ker s) 0 \<noteq> Some 1 \<and>
     (\<exists>c. cpu_proc (ker s) c = Some 1 \<and> spc s c \<noteq> CBack 1)"
proof -
  obtain s where s: "sched_reach ChConsR s" "cpu_proc (ker s) 0 = Some 0" "cpu_proc (ker s) 1 = Some 1" "pstate (procs (ker s) 1) = RUNNING"
    by (rule demo_run)
  then show ?thesis using scheduling_safe [OF s(1)] by (intro exI [of _ s]) auto
qed

theorem no_lost_wakeup_witness:
  "\<exists>s t. sched_reach ChConsR s \<and> pstate (procs (ker s) 0) = SLEEPING \<and> (sched_next ChConsR)\<^sup>*\<^sup>* s t \<and> pstate (procs (ker t) 0) = RUNNABLE"
proof -
  obtain s where s: "sched_reach ChConsR s" "cond s" "pstate (procs (ker s) 0) = SLEEPING" "pchan (procs (ker s) 0) = Some ChConsR"
    by (rule demo_run)
  then show ?thesis using no_lost_wakeup [OF s] by blast
qed

end
