(* ===== verification/Proc_Alloc.thy ===== *)
theory Proc_Alloc
  imports Boot
begin

text \<open>
  Allocation of a process slot, \<open>allocproc\<close> and \<open>proc_pagetable\<close> of \<open>kernel/proc.c\<close>: what a new process
  starts with, when there are enough free pages, and what \<open>kkill\<close> of process id 0 does to it.
\<close>

section \<open>One page\<close>

lemma mappages_one:
  assumes i: "pt_inv s pt S ps" and va: "page_aligned va" "va < MAXVA" and g: "pt_get 2 (mem s) pt va AND PTE_V = 0" and n: "3 \<le> length ps"
  shows "\<exists>t qs ps'. mappages pt va PGSIZE pa perm s = Inr (0, t) \<and> ps = qs @ ps' \<and> length qs \<le> 2 \<and> mem_only s t \<and>
    pt_inv t pt (S \<union> set qs) ps' \<and>
    (\<forall>v<MAXVA. pt_get 2 (mem t) pt v = (if PGROUNDDOWN v = va then PA2PTE pa OR perm OR PTE_V else pt_get 2 (mem s) pt v))"
proof -
  obtain r t qs ps' where t: "mappages pt va PGSIZE pa perm s = Inr (r, t)" "ps = qs @ ps'" "length qs \<le> 2" "mem_only s t"
      "pt_inv t pt (S \<union> set qs) ps'"
      "if r = 0 then \<forall>v<MAXVA. pt_get 2 (mem t) pt v = (if PGROUNDDOWN v = va then PA2PTE pa OR perm OR PTE_V else pt_get 2 (mem s) pt v)
       else r = - 1 \<and> ps' = [] \<and> (\<forall>v<MAXVA. pt_get 2 (mem t) pt v = pt_get 2 (mem s) pt v)"
    by (rule mappages_single [OF i va g, where q = pa and perm = perm])
  have "r = 0" using t(2,3,6) n by (auto split: if_splits)
  then show ?thesis using t by auto
qed

section \<open>The page table of a new process\<close>

definition fresh_table :: "uint64 \<Rightarrow> addr \<Rightarrow> uint64 \<Rightarrow> uint64" where
  "fresh_table tramp tf v =
     (if PGROUNDDOWN v = TRAMPOLINE then PA2PTE tramp OR (PTE_R OR PTE_X) OR PTE_V
      else if PGROUNDDOWN v = TRAPFRAME then PA2PTE tf OR (PTE_R OR PTE_W) OR PTE_V else 0)"

lemma proc_pagetable_ok:
  assumes k: "kmem_inv s ps" and n: "6 \<le> length ps"
  shows "\<exists>pt t S ps'. proc_pagetable p s = Inr (pt, t) \<and> pt \<noteq> 0 \<and> mem_only s t \<and> pt_inv t pt S ps' \<and> S \<union> set ps' = set ps \<and>
    (\<forall>v<MAXVA. pt_get 2 (mem t) pt v = fresh_table (sym_trampoline s) (ptrapframe (procs s p)) v)"
proof -
  obtain pt qs where ps: "ps = pt # qs" "5 \<le> length qs" using n by (cases ps) auto
  obtain m f s0 where z: "kalloc s = (pt, s0)" "s0\<lparr>mem := memset (mem s0) pt 0 PGSIZE\<rparr> = s\<lparr>freelist := f, mem := m\<rparr>"
      "kmem_inv (s\<lparr>freelist := f, mem := m\<rparr>) qs" "\<forall>a. m a = (if in_range a pt 4096 then 0 else mem s a)" "page_ok s pt" "pt \<noteq> 0" "pt \<notin> set qs"
    using kzalloc_ok [OF k [unfolded ps(1)]] by blast
  let ?s = "s\<lparr>freelist := f, mem := m\<rparr>"
  have c: "uvmcreate s = (pt, ?s)" using z(1,2,6) by (simp add: uvmcreate_def)
  have t0: "pt_tree 2 (mem ?s) pt {pt} \<and> (\<forall>va. pt_get 2 (mem ?s) pt va = 0)" by (rule zero_tree) (simp add: z(4))
  have i0: "pt_inv ?s pt {pt} qs" using t0 z(3,5,7) by (simp add: pt_inv_def page_ok_def)
  have "\<exists>t qs1 ps1. mappages pt TRAMPOLINE PGSIZE (sym_trampoline s) (PTE_R OR PTE_X) ?s = Inr (0, t) \<and> qs = qs1 @ ps1 \<and> length qs1 \<le> 2 \<and>
      mem_only ?s t \<and> pt_inv t pt ({pt} \<union> set qs1) ps1 \<and>
      (\<forall>v<MAXVA. pt_get 2 (mem t) pt v = (if PGROUNDDOWN v = TRAMPOLINE then PA2PTE (sym_trampoline s) OR (PTE_R OR PTE_X) OR PTE_V
        else pt_get 2 (mem ?s) pt v))"
    by (rule mappages_one [OF i0]) (use t0 ps(2) in \<open>simp_all add: page_aligned_def\<close>)
  then obtain t1 qs1 ps1 where t1: "mappages pt TRAMPOLINE PGSIZE (sym_trampoline s) (PTE_R OR PTE_X) ?s = Inr (0, t1)"
      "qs = qs1 @ ps1" "length qs1 \<le> 2" "mem_only ?s t1" "pt_inv t1 pt ({pt} \<union> set qs1) ps1"
      "\<forall>v<MAXVA. pt_get 2 (mem t1) pt v = (if PGROUNDDOWN v = TRAMPOLINE then PA2PTE (sym_trampoline s) OR (PTE_R OR PTE_X) OR PTE_V else 0)"
    using t0 by auto
  have tf: "pt_get 2 (mem t1) pt TRAPFRAME AND PTE_V = 0" using t1(6) by (simp add: PGROUNDDOWN_def)
  have e1: "procs t1 = procs s" using arg_cong [OF t1(4) [unfolded mem_only_def], of procs] by simp
  have "\<exists>t qs2 ps2. mappages pt TRAPFRAME PGSIZE (ptrapframe (procs t1 p)) (PTE_R OR PTE_W) t1 = Inr (0, t) \<and> ps1 = qs2 @ ps2 \<and> length qs2 \<le> 2 \<and>
      mem_only t1 t \<and> pt_inv t pt (({pt} \<union> set qs1) \<union> set qs2) ps2 \<and>
      (\<forall>v<MAXVA. pt_get 2 (mem t) pt v = (if PGROUNDDOWN v = TRAPFRAME then PA2PTE (ptrapframe (procs t1 p)) OR (PTE_R OR PTE_W) OR PTE_V
        else pt_get 2 (mem t1) pt v))"
    by (rule mappages_one [OF t1(5) _ _ tf]) (use ps(2) t1(2,3) in \<open>simp_all add: page_aligned_def\<close>)
  then obtain t2 qs2 ps2 where t2: "mappages pt TRAPFRAME PGSIZE (ptrapframe (procs t1 p)) (PTE_R OR PTE_W) t1 = Inr (0, t2)"
      "ps1 = qs2 @ ps2" "mem_only t1 t2" "pt_inv t2 pt (({pt} \<union> set qs1) \<union> set qs2) ps2"
      "\<forall>v<MAXVA. pt_get 2 (mem t2) pt v = (if PGROUNDDOWN v = TRAPFRAME then PA2PTE (ptrapframe (procs t1 p)) OR (PTE_R OR PTE_W) OR PTE_V
        else pt_get 2 (mem t1) pt v)"
    by blast
  have "proc_pagetable p s = Inr (pt, t2)" using c t1(1) t2(1) z(6) by (simp add: proc_pagetable_def)
  moreover have "mem_only s t2" using mem_only_trans [OF mem_only_trans [OF _ t1(4)] t2(3), of s] by (simp add: mem_only_def)
  moreover have "(({pt} \<union> set qs1) \<union> set qs2) \<union> set ps2 = set ps" using ps(1) t1(2) t2(2) by auto
  moreover have "pt_get 2 (mem t2) pt v = fresh_table (sym_trampoline s) (ptrapframe (procs s p)) v" if "v < MAXVA" for v
    using t1(6) t2(5) that e1 by (simp add: fresh_table_def)
  ultimately show ?thesis using z(6) t2(4) by blast
qed

section \<open>The slot\<close>

lemma find_unused_unused: "find_unused ps xs = Some p \<Longrightarrow> pstate (ps p) = UNUSED"
  by (induction xs) (auto split: if_splits)

lemma mem_only_procs:
  fixes s t :: "'a kproc_scheme"
  assumes "mem_only s t"
  shows "procs t = procs s" "cpu_proc t = cpu_proc s"
  using arg_cong [OF assms [unfolded mem_only_def], of procs] arg_cong [OF assms [unfolded mem_only_def], of cpu_proc] by simp_all

lemma kmem_inv_upd_proc [simp]: "kmem_inv (upd_proc p f s) ps = kmem_inv s ps" "pt_inv (upd_proc p f s) pt S ps = pt_inv s pt S ps"
  by (simp_all add: upd_proc_def kmem_inv_def page_ok_def pt_inv_def)

text \<open>What \<open>allocproc\<close> leaves in slot \<open>p\<close>.\<close>

definition new_proc :: "uint64 \<Rightarrow> int \<Rightarrow> addr \<Rightarrow> addr \<Rightarrow> proc \<Rightarrow> proc" where
  "new_proc fr pid tf pt q = q\<lparr>ppid := pid, pstate := USED, ptrapframe := tf, ppagetable := pt,
     pcontext := zero_context\<lparr>ctx_ra := fr, ctx_sp := pkstack q + PGSIZE\<rparr>\<rparr>"

lemma allocproc_result:
  assumes k: "kmem_inv s ps" and n: "7 \<le> length ps" and u: "find_unused (procs s) [0..<NPROC] = Some p"
  shows "\<exists>t tf pt S ps'. allocproc s = Inr (Some p, t) \<and> procs t = (procs s)(p := new_proc (sym_forkret s) (nextpid s) tf pt (procs s p)) \<and>
    pt_inv t pt S ps' \<and> tf \<in> set ps \<and> tf \<notin> S \<union> set ps' \<and> S \<union> set ps' \<subseteq> set ps \<and> nextpid t = wrap32 (nextpid s + 1) \<and>
    (\<forall>v<MAXVA. pt_get 2 (mem t) pt v = fresh_table (sym_trampoline s) tf v)"
proof -
  obtain tf qs where ps: "ps = tf # qs" "6 \<le> length qs" using n by (cases ps) auto
  let ?s1 = "upd_proc p (\<lambda>q. q\<lparr>ppid := nextpid s, pstate := USED\<rparr>) (s\<lparr>nextpid := wrap32 (nextpid s + 1)\<rparr>)"
  have k1: "kmem_inv ?s1 (tf # qs)" using k ps(1) by (simp add: kmem_inv_def page_ok_def upd_proc_def)
  obtain m f where a: "kalloc ?s1 = (tf, ?s1\<lparr>freelist := f, mem := m\<rparr>)" "kmem_inv (?s1\<lparr>freelist := f, mem := m\<rparr>) qs"
    using kalloc_ok [OF k1] by blast
  let ?s2 = "upd_proc p (\<lambda>q. q\<lparr>ptrapframe := tf\<rparr>) (?s1\<lparr>freelist := f, mem := m\<rparr>)"
  have k2: "kmem_inv ?s2 qs" using a(2) by simp
  have tf: "tf \<noteq> 0" "tf \<notin> set qs" using k1 by (auto simp: kmem_inv_def)
  obtain pt t S ps' where t: "proc_pagetable p ?s2 = Inr (pt, t)" "pt \<noteq> 0" "mem_only ?s2 t" "pt_inv t pt S ps'" "S \<union> set ps' = set qs"
      "\<forall>v<MAXVA. pt_get 2 (mem t) pt v = fresh_table (sym_trampoline ?s2) (ptrapframe (procs ?s2 p)) v"
    using proc_pagetable_ok [OF k2 ps(2), of p] by blast
  have e: "procs t = procs ?s2" "nextpid t = nextpid ?s2" "sym_forkret t = sym_forkret ?s2"
    using arg_cong [OF t(3) [unfolded mem_only_def], of procs] arg_cong [OF t(3) [unfolded mem_only_def], of nextpid]
      arg_cong [OF t(3) [unfolded mem_only_def], of sym_forkret] by simp_all
  let ?t = "upd_proc p (\<lambda>q. q\<lparr>pcontext := zero_context\<lparr>ctx_ra := sym_forkret t, ctx_sp := pkstack q + PGSIZE\<rparr>\<rparr>)
    (upd_proc p (\<lambda>q. q\<lparr>ppagetable := pt\<rparr>) t)"
  have 1: "allocproc s = Inr (Some p, ?t)"
    using u a(1) tf(1) t(1,2) by (simp add: allocproc_def allocpid_def Let_def upd_proc_def)
  have 2: "procs ?t = (procs s)(p := new_proc (sym_forkret s) (nextpid s) tf pt (procs s p))"
    using e by (simp add: upd_proc_def new_proc_def)
  have 3: "pt_inv ?t pt S ps'" using t(4) by simp
  have 4: "nextpid ?t = wrap32 (nextpid s + 1)" "\<forall>v<MAXVA. pt_get 2 (mem ?t) pt v = fresh_table (sym_trampoline s) tf v"
    using e t(6) by (simp_all add: upd_proc_def)
  have 5: "tf \<in> set ps" "tf \<notin> S \<union> set ps'" "S \<union> set ps' \<subseteq> set ps" using t(5) tf(2) ps(1) by auto
  show ?thesis by (intro exI conjI) (rule 1 2 3 5 4)+
qed

section \<open>Free pages at boot\<close>

lemma boot_pages:
  assumes "n \<le> 16"
  shows "\<exists>t. mem_only boot_kernel t \<and> kmem_inv t (map (\<lambda>i. 0x80100000 + of_nat i * 0x1000) (rev [0..<n]))"
  using assms
proof (induction n)
  case 0
  have "kmem_inv boot_kernel []" by (simp add: kmem_inv_def)
  then show ?case by (intro exI [of _ boot_kernel]) simp
next
  case (Suc n)
  define q :: addr where "q = 0x80100000 + of_nat n * 0x1000"
  let ?l = "map (\<lambda>i. 0x80100000 + of_nat i * 0x1000) (rev [0..<n])"
  obtain t where t: "mem_only boot_kernel t" "kmem_inv t ?l" using Suc by auto
  have u: "unat (0x80100000 + of_nat i * 0x1000 :: addr) = 0x80100000 + i * 0x1000" if "i < 16" for i
    using that by (simp add: unat_plus_if' unat_mult_lem [THEN iffD1] unat_of_nat unat_word_ariths)
  have "q \<noteq> 0x80100000 + of_nat i * 0x1000" if "i < n" for i
  proof
    assume "q = 0x80100000 + of_nat i * 0x1000"
    then have "0x80100000 + n * 0x1000 = 0x80100000 + i * (0x1000 :: nat)" using u [of n] u [of i] that Suc.prems by (simp add: q_def)
    then show False using that by simp
  qed
  then have "q \<notin> set ?l" unfolding set_map set_rev set_upt image_iff by (meson atLeastLessThan_iff)
  moreover have "page_ok t q"
    using page_ok_mem_only [OF t(1), of q] u [of n] Suc.prems unfolding q_def
    by (simp add: page_ok_def page_aligned_def word_le_nat_alt word_less_nat_alt word_unat_eq_iff unat_mod)
  ultimately obtain v where "mem_only t v" "kmem_inv v (q # ?l)" using kfree_more [OF t(2)] by blast
  then show ?case using mem_only_trans [OF t(1)] by (auto simp: q_def)
qed

section \<open>Properties\<close>

lemma fresh_table_not_user: "fresh_table tramp tf v AND PTE_U = 0"
proof -
  have "PA2PTE x AND 2 ^ 4 = 0" for x unfolding and_exp_eq_0_iff_not_bit by (simp add: PA2PTE_def bit_push_bit_iff)
  then have "PA2PTE x AND 16 = 0" for x by simp
  then show ?thesis by (simp add: fresh_table_def bit.conj_disj_distrib2)
qed

text \<open>C12. A new process starts isolated. With seven free pages, \<open>allocproc\<close> takes the first unused slot and
  touches no other; the slot gets the next process id, a page of its own for the trap frame, a context
  that starts in \<open>forkret\<close> on the slot's kernel stack, and a page table built of pages taken off the free
  list that maps the trampoline and that trap frame, neither accessible from user mode, and nothing else.\<close>

theorem allocproc_isolated:
  assumes "kmem_inv s ps" and "7 \<le> length ps" and "find_unused (procs s) [0..<NPROC] = Some p"
  shows "\<exists>t tf pt S ps'. allocproc s = Inr (Some p, t) \<and> procs t = (procs s)(p := new_proc (sym_forkret s) (nextpid s) tf pt (procs s p)) \<and>
    pt_inv t pt S ps' \<and> tf \<in> set ps \<and> tf \<notin> S \<and> tf \<notin> set ps' \<and> S \<subseteq> set ps \<and>
    (\<forall>v<MAXVA. pt_get 2 (mem t) pt v = fresh_table (sym_trampoline s) tf v) \<and> (\<forall>v. umem t pt v = None)"
proof -
  obtain t tf pt S ps' where t: "allocproc s = Inr (Some p, t)"
      "procs t = (procs s)(p := new_proc (sym_forkret s) (nextpid s) tf pt (procs s p))" "pt_inv t pt S ps'" "tf \<in> set ps"
      "tf \<notin> S \<union> set ps'" "S \<union> set ps' \<subseteq> set ps" "\<forall>v<MAXVA. pt_get 2 (mem t) pt v = fresh_table (sym_trampoline s) tf v"
    using allocproc_result [OF assms] by blast
  have "umem t pt v = None" for v using t(7) fresh_table_not_user by (simp add: umem_def user_pte_def)
  moreover have "tf \<notin> S" "tf \<notin> set ps'" "S \<subseteq> set ps" using t(5,6) by auto
  ultimately show ?thesis using t(1,2,3,4,7) by (intro exI [of _ t] exI [of _ tf] exI [of _ pt] exI [of _ S] exI [of _ ps']) simp
qed

lemma boot_unused: "find_unused (procs boot_kernel) [0..<NPROC] = Some 1"
  by (simp add: upt_rec zero_proc_def boot_proc_def)

lemma boot_seven:
  obtains t :: ktrap and ps where "kmem_inv t ps" "7 \<le> length ps" "procs t = procs boot_kernel"
proof -
  obtain t where t: "mem_only boot_kernel t" "kmem_inv t (map (\<lambda>i. 0x80100000 + of_nat i * 0x1000) (rev [0..<7]))"
    using boot_pages [of 7] by auto
  have "7 \<le> length (map (\<lambda>i. 0x80100000 + of_nat i * 0x1000 :: addr) (rev [0..<7]))" by simp
  then show thesis using that [OF t(2)] mem_only_procs(1) [OF t(1)] by blast
qed

theorem allocproc_isolated_witness:
  "\<exists>(s :: ktrap) t pt. allocproc s = Inr (Some 1, t) \<and> ppagetable (procs t 1) = pt \<and> umem t pt 0 = None"
proof -
  obtain s :: ktrap and ps where s: "kmem_inv s ps" "7 \<le> length ps" "procs s = procs boot_kernel" by (rule boot_seven)
  obtain t tf pt where "allocproc s = Inr (Some 1, t)" "procs t = (procs s)(1 := new_proc (sym_forkret s) (nextpid s) tf pt (procs s 1))"
      "\<forall>v. umem t pt v = None"
    using allocproc_isolated [OF s(1,2), of 1] boot_unused s(3) by auto
  then show ?thesis by (intro exI [of _ s] exI [of _ t]) (simp add: new_proc_def)
qed

text \<open>C40. Killing process id 0, which no process has, succeeds and dooms the next process: \<open>kkill\<close> finds the
  first slot whose \<open>pid\<close> field is 0, an unused one, and marks it killed; \<open>allocproc\<close> does not clear the mark, so the
  process created next in this slot is killed before it has run.\<close>

theorem kill_zero_dooms_next:
  assumes "kmem_inv s ps" and "7 \<le> length ps" and "find_unused (procs s) [0..<NPROC] = Some p"
    and "find_pid (procs s) 0 [0..<NPROC] = Some p"
  shows "fst (kkill 0 s) = 0 \<and> (\<exists>t. allocproc (snd (kkill 0 s)) = Inr (Some p, t) \<and> killed p t \<and> ppid (procs t p) = nextpid s)"
proof -
  let ?s = "upd_proc p (\<lambda>q. q\<lparr>pkilled := True, pstate := (if pstate q = SLEEPING then RUNNABLE else pstate q)\<rparr>) s"
  have k: "kkill 0 s = (0, ?s)" using assms(4) by (simp add: kkill_def)
  have "find_unused (procs ?s) xs = find_unused (procs s) xs" for xs
    using find_unused_unused [OF assms(3)] by (induction xs) (simp_all add: upd_proc_def)
  then obtain t tf pt where "allocproc ?s = Inr (Some p, t)" "procs t = (procs ?s)(p := new_proc (sym_forkret ?s) (nextpid ?s) tf pt (procs ?s p))"
    using allocproc_result [of ?s ps p] assms(1-3) by auto
  then show ?thesis using k by (simp add: killed_def new_proc_def upd_proc_def)
qed

theorem kill_zero_dooms_next_witness:
  "\<exists>(s :: ktrap) t. fst (kkill 0 s) = 0 \<and> ppid (procs s 0) = 1 \<and> allocproc (snd (kkill 0 s)) = Inr (Some 1, t) \<and> killed 1 t"
proof -
  obtain s :: ktrap and ps where s: "kmem_inv s ps" "7 \<le> length ps" "procs s = procs boot_kernel" by (rule boot_seven)
  have "find_pid (procs s) 0 [0..<NPROC] = Some 1" using s(3) by (simp add: upt_rec zero_proc_def boot_proc_def)
  then show ?thesis using kill_zero_dooms_next [OF s(1,2), of 1] boot_unused s(3) by (auto simp: boot_proc_def)
qed

end
