(* ===== verification/File_Refs.thy ===== *)
theory File_Refs
  imports Boot
begin

text \<open>
  Open files and the descriptors that refer to them, \<open>filedup\<close> of \<open>kernel/file.c\<close> with its callers \<open>sys_dup\<close>
  and \<open>kfork\<close>. The tables are well formed when the \<open>ref\<close> field of every file is the number of
  descriptors, of all processes, that name it.
\<close>

section \<open>References\<close>

definition refs :: "(nat \<Rightarrow> proc) \<Rightarrow> nat \<Rightarrow> (nat \<times> nat) set" where
  "refs ps f = {(p, fd). p < NPROC \<and> fd < NOFILE \<and> pofile (ps p) fd = Some f}"

definition files_ok :: "'a kpipe_scheme \<Rightarrow> bool" where
  "files_ok s \<longleftrightarrow> (\<forall>f. f_ref (ftable s f) = int (card (refs (procs s) f)))"

lemma refs_box: "refs ps f \<subseteq> {..<NPROC} \<times> {..<NOFILE}"
  by (auto simp: refs_def)

lemma finite_refs [simp]: "finite (refs ps f)"
  by (rule finite_subset [OF refs_box]) simp

lemma card_refs: "card (refs ps f) \<le> 1024"
  using card_mono [OF _ refs_box, of ps f] by simp

lemma wrap32_small: "0 \<le> x \<Longrightarrow> x < 2 ^ 31 \<Longrightarrow> wrap32 x = x"
  by (simp add: wrap32_def)

lemma refs_pos:
  assumes "files_ok s" "p < NPROC" "fd < NOFILE" "pofile (procs s p) fd = Some f"
  shows "1 \<le> f_ref (ftable s f)"
proof -
  have "(p, fd) \<in> refs (procs s) f" using assms by (simp add: refs_def)
  then have "0 < card (refs (procs s) f)" by (metis card_gt_0_iff empty_iff finite_refs)
  then show ?thesis using assms(1) by (simp add: files_ok_def)
qed

text \<open>A new descriptor for an open file, with the count of the file raised.\<close>

definition add_ref :: "nat \<Rightarrow> nat \<Rightarrow> nat \<Rightarrow> 'a kpipe_scheme \<Rightarrow> 'a kpipe_scheme" where
  "add_ref p fd f s = upd_proc p (\<lambda>q. q\<lparr>pofile := (pofile q)(fd \<mapsto> f)\<rparr>) (upd_file f (\<lambda>x. x\<lparr>f_ref := wrap32 (f_ref x + 1)\<rparr>) s)"

lemma refs_add:
  assumes "p < NPROC" "fd < NOFILE" "pofile (ps p) fd = None"
  shows "refs (ps(p := (ps p)\<lparr>pofile := (pofile (ps p))(fd \<mapsto> f)\<rparr>)) g = (if g = f then insert (p, fd) (refs ps f) else refs ps g)"
  using assms by (auto simp: refs_def split: if_splits)

lemma add_ref_ok:
  assumes s: "files_ok s" and d: "p < NPROC" "fd < NOFILE" "pofile (procs s p) fd = None"
  shows "files_ok (add_ref p fd f s)"
proof -
  have n: "(p, fd) \<notin> refs (procs s) f" using d(3) by (simp add: refs_def)
  have w: "wrap32 (int (card (refs (procs s) f)) + 1) = int (card (refs (procs s) f)) + 1"
    using card_refs [of "procs s" f] by (intro wrap32_small) simp_all
  have e: "f_ref (ftable s g) = int (card (refs (procs s) g))" for g using s by (simp add: files_ok_def)
  have "f_ref (ftable (add_ref p fd f s) g) = int (card (refs (procs (add_ref p fd f s)) g))" for g
    using n w e by (simp add: add_ref_def upd_proc_def upd_file_def refs_add [of p fd "procs s", OF d])
  then show ?thesis by (simp add: files_ok_def)
qed

lemma add_ref_procs [simp]:
  "procs (add_ref p fd f s) = (procs s)(p := (procs s p)\<lparr>pofile := (pofile (procs s p))(fd \<mapsto> f)\<rparr>)"
  by (simp add: add_ref_def upd_proc_def upd_file_def)

lemma filedup_result:
  assumes "1 \<le> f_ref (ftable s f)"
  shows "filedup f s = Inr (f, upd_file f (\<lambda>x. x\<lparr>f_ref := wrap32 (f_ref x + 1)\<rparr>) s)"
  using assms by (simp add: filedup_def)

section \<open>fork\<close>

lemma dup_files_ok:
  assumes "files_ok s" and "p \<noteq> np" "p < NPROC" "np < NPROC" and "set fds \<subseteq> {..<NOFILE}" "distinct fds"
    and "\<forall>fd\<in>set fds. pofile (procs s np) fd = None"
  shows "\<exists>t. dup_files p np fds s = Inr t \<and> files_ok t \<and> (\<forall>q. q \<noteq> np \<longrightarrow> procs t q = procs s q) \<and>
    procs t np = (procs s np)\<lparr>pofile := (\<lambda>fd. if fd \<in> set fds then pofile (procs s p) fd else pofile (procs s np) fd)\<rparr>"
  using assms
proof (induction fds arbitrary: s)
  case Nil
  then show ?case by simp
next
  case (Cons fd fds)
  show ?case
  proof (cases "pofile (procs s p) fd")
    case None
    then show ?thesis using Cons.IH [of s] Cons.prems by (auto simp: fun_eq_iff)
  next
    case (Some f)
    let ?s = "add_ref np fd f s"
    have r: "1 \<le> f_ref (ftable s f)" using refs_pos [OF Cons.prems(1,3) _ Some] Cons.prems(5) by simp
    have ok: "files_ok ?s" by (rule add_ref_ok) (use Cons.prems in auto)
    have none: "\<forall>x\<in>set fds. pofile (procs ?s np) x = None" using Cons.prems(6,7) by auto
    obtain t where t: "dup_files p np fds ?s = Inr t" "files_ok t" "\<forall>q. q \<noteq> np \<longrightarrow> procs t q = procs ?s q"
        "procs t np = (procs ?s np)\<lparr>pofile := (\<lambda>fd. if fd \<in> set fds then pofile (procs ?s p) fd else pofile (procs ?s np) fd)\<rparr>"
      using Cons.IH [OF ok Cons.prems(2-4) _ _ none] Cons.prems(5,6) by auto
    have "dup_files p np (fd # fds) s = Inr t" using Some r t(1) by (simp add: filedup_result add_ref_def)
    then show ?thesis using t(2-4) Cons.prems(2,6) Some by (auto simp: fun_eq_iff)
  qed
qed

section \<open>dup\<close>

lemma find_fd_Some: "find_fd F fds = Some fd \<Longrightarrow> F fd = None \<and> fd \<in> set fds"
  by (induction fds) (auto split: if_splits)

lemma argfd_result:
  assumes "cur s = Inr p" "argfd 0 s = r"
  obtains "r = Inr None" | fd f where "r = Inr (Some (fd, f))" "fd < NOFILE" "pofile (procs s p) fd = Some f"
proof -
  define n where "n = wrap32 (uint (tf_get p (tf_a0 + 8 * of_nat 0) s))"
  have r: "r = (if n < 0 \<or> n \<ge> int NOFILE then Inr None
      else case pofile (procs s p) (nat n) of None \<Rightarrow> Inr None | Some f \<Rightarrow> Inr (Some (nat n, f)))"
    unfolding assms(2) [symmetric] by (simp add: assms(1) argfd_def argint_def argraw_def n_def split: option.split)
  show thesis
  proof (cases "n < 0 \<or> n \<ge> int NOFILE")
    case False
    then show ?thesis using r that by (cases "pofile (procs s p) (nat n)") auto
  qed (use r that in simp)
qed

lemma sys_dup_ok:
  assumes s: "files_ok s" and p: "cur s = Inr p" "p < NPROC"
  shows "\<exists>r t. sys_dup s = Inr (Ret r, t) \<and> files_ok t \<and> (r = - 1 \<and> t = s \<or>
    (\<exists>fd f. r = int fd \<and> fd < NOFILE \<and> pofile (procs s p) fd = None \<and> f \<in> ran (pofile (procs s p)) \<and>
       procs t = (procs s)(p := (procs s p)\<lparr>pofile := (pofile (procs s p))(fd \<mapsto> f)\<rparr>)))"
  using p(1) refl
proof (rule argfd_result)
  assume "argfd 0 s = Inr None"
  then show ?thesis using s by (simp add: sys_dup_def ret_def)
next
  fix fd f
  assume a: "argfd 0 s = Inr (Some (fd, f))" "fd < NOFILE" "pofile (procs s p) fd = Some f"
  show ?thesis
  proof (cases "find_fd (pofile (procs s p)) [0..<NOFILE]")
    case None
    then show ?thesis using a(1) p s by (simp add: sys_dup_def ret_def fdalloc_def)
  next
    case (Some n)
    have n: "pofile (procs s p) n = None" "n < NOFILE" using find_fd_Some [OF Some] by auto
    have ok: "files_ok (add_ref p n f s)" by (rule add_ref_ok [OF s p(2) n(2,1)])
    have "sys_dup s = Inr (Ret (int n), add_ref p n f s)"
      using a(1) p(1) Some refs_pos [OF s p(2) a(2,3)]
      by (simp add: sys_dup_def ret_def fdalloc_def filedup_def add_ref_def upd_proc_def upd_file_def)
    moreover have "f \<in> ran (pofile (procs s p))" using a(3) by (rule ranI)
    ultimately show ?thesis using ok n by auto
  qed
qed

section \<open>Properties\<close>

text \<open>C17. The tables of open files stay well formed: when the \<open>ref\<close> of every file is the number of descriptors
  that name it, this is so after \<open>dup\<close>, which returns -1 and changes nothing or makes a free descriptor of the process name a file
  the process has open, and after \<open>fork\<close> has given the child, which had none, the descriptors of its
  parent. Neither panics, and no count overflows.\<close>

theorem descriptors_well_typed:
  assumes "files_ok s" and "cur s = Inr p" and "p < NPROC" and "np < NPROC" and "np \<noteq> p"
    and "\<forall>fd<NOFILE. pofile (procs s np) fd = None"
  shows "(\<exists>r t. sys_dup s = Inr (Ret r, t) \<and> files_ok t \<and> (r = - 1 \<and> t = s \<or>
      (\<exists>fd f. r = int fd \<and> fd < NOFILE \<and> pofile (procs s p) fd = None \<and> f \<in> ran (pofile (procs s p)) \<and>
         procs t = (procs s)(p := (procs s p)\<lparr>pofile := (pofile (procs s p))(fd \<mapsto> f)\<rparr>)))) \<and>
    (\<exists>t. dup_files p np [0..<NOFILE] s = Inr t \<and> files_ok t \<and> (\<forall>q. q \<noteq> np \<longrightarrow> procs t q = procs s q) \<and>
      (\<forall>fd<NOFILE. pofile (procs t np) fd = pofile (procs s p) fd))"
proof -
  obtain t where "dup_files p np [0..<NOFILE] s = Inr t" "files_ok t" "\<forall>q. q \<noteq> np \<longrightarrow> procs t q = procs s q"
      "procs t np = (procs s np)\<lparr>pofile := (\<lambda>fd. if fd \<in> set [0..<NOFILE] then pofile (procs s p) fd else pofile (procs s np) fd)\<rparr>"
    using dup_files_ok [OF assms(1) assms(5) [symmetric] assms(3,4), of "[0..<NOFILE]"] assms(6) lessThan_atLeast0 by auto
  then have "\<exists>t. dup_files p np [0..<NOFILE] s = Inr t \<and> files_ok t \<and> (\<forall>q. q \<noteq> np \<longrightarrow> procs t q = procs s q) \<and>
      (\<forall>fd<NOFILE. pofile (procs t np) fd = pofile (procs s p) fd)" by auto
  then show ?thesis using sys_dup_ok [OF assms(1-3)] by blast
qed

text \<open>The first process with the console open as descriptor 0, in the first file.\<close>

definition console_open :: ktrap where
  "console_open = add_ref 0 0 0 boot_kernel"

lemma console_open_ok: "files_ok console_open" "cur console_open = Inr 0" "pofile (procs console_open 0) 0 = Some 0"
    "\<forall>fd<NOFILE. pofile (procs console_open 1) fd = None"
proof -
  have "refs (procs boot_kernel) f = {}" for f by (auto simp: refs_def zero_proc_def boot_proc_def)
  moreover have "ftable boot_kernel = (\<lambda>_. free_file)" by (simp add: boot_kernel_def binit_def)
  ultimately have "files_ok boot_kernel" by (simp add: files_ok_def free_file_def)
  then show "files_ok console_open" unfolding console_open_def
    by (rule add_ref_ok) (simp_all add: boot_proc_def zero_proc_def)
  show "cur console_open = Inr 0" "pofile (procs console_open 0) 0 = Some 0" "\<forall>fd<NOFILE. pofile (procs console_open 1) fd = None"
    by (simp_all add: console_open_def add_ref_def upd_proc_def upd_file_def cur_def myproc_def cpuid_def zero_proc_def)
qed

theorem descriptors_well_typed_witness:
  "\<exists>t. dup_files 0 1 [0..<NOFILE] console_open = Inr t \<and> files_ok t \<and> pofile (procs t 1) 0 = Some 0"
  using descriptors_well_typed [OF console_open_ok(1,2), of 1] console_open_ok(3,4) by fastforce

end
