(* ===== verification/Spec2Isabelle.thy ===== *)
theory Spec2Isabelle
  imports Memory Kalloc Proc_Table Spinlock Sleeplock Log_Crash User_Memory Fs_File Trap Virtio_Disk Console_Line Grep Umalloc Shell Kprintf
    Sched Proc_Alloc File_Refs
begin

text \<open>
  A verification library for the xv6 teaching kernel for RISC-V and its user library, under \<open>src/\<close>.

  \<^bold>\<open>The program.\<close> The kernel manages physical pages (\<open>kernel/kalloc.c\<close>), page tables kept in them
  (\<open>vm.c\<close>), processes (\<open>proc.c\<close>, \<open>exec.c\<close>), locks (\<open>spinlock.c\<close>, \<open>sleeplock.c\<close>), a disk behind a driver
  (\<open>virtio_disk.c\<close>), a buffer cache (\<open>bio.c\<close>), a write-ahead log (\<open>log.c\<close>), a file system (\<open>fs.c\<close>), open
  files, pipes and the console (\<open>file.c\<close>, \<open>pipe.c\<close>, \<open>console.c\<close>, \<open>uart.c\<close>), and serves traps and system calls
  (\<open>trap.c\<close>, \<open>syscall.c\<close>, \<open>sysfile.c\<close>, \<open>sysproc.c\<close>). A system call goes down this list: \<open>write\<close> on a file runs
  \<open>sys_write\<close>, \<open>filewrite\<close>, \<open>writei\<close>, \<open>bmap\<close>, \<open>bread\<close>, \<open>log_write\<close>, and the commit of the log writes the disk.

  \<^bold>\<open>State and results.\<close> The state of the kernel is one record that grows along this order:
  \<open>kmem\<close> (memory and free list), \<open>kproc\<close> (processes), \<open>kbio\<close> (cache and disk), \<open>klog\<close>, \<open>kfs\<close> (superblock, inodes),
  \<open>kpipe\<close> (open files, pipes), \<open>kcons\<close>, \<open>klife\<close>, \<open>kvirtio\<close>, \<open>ktrap\<close> (control registers). A routine is a function on the part it
  needs, polymorphic in the rest, and returns \<open>kfail + 'a\<close>: a panic with its message, a call that would
  sleep, a loop that does not end, or an access that C leaves undefined, or else the result. Where the code
  sleeps in the middle of an operation the result says on which channel and with what progress. A section under a lock is one
  step, except in \<open>Spinlock\<close> and \<open>Sched\<close>, where CPUs are interleaved.

  \<^bold>\<open>Base.\<close> \<open>Prelude\<close>: results, sequencing, contracts. \<open>Memory\<close>: \<open>kernel/string.c\<close> over a byte-addressed
  memory; copies are right for overlapping ranges, strings end inside their bounds. \<open>Riscv\<close>: constants
  and macros of \<open>riscv.h\<close>, \<open>memlayout.h\<close>, \<open>param.h\<close>. \<open>Kalloc\<close>: the page allocator, whose free list is threaded
  through the pages; the locale \<open>page_allocator\<close> states its contract and is interpreted on \<open>kalloc\<close> and \<open>kfree\<close>.
  \<open>Ring\<close>: the locale \<open>byte_queue\<close> for bounded queues with wrapping counters, interpreted on the pipe.

  \<^bold>\<open>Processes.\<close> \<open>Proc_Table\<close>: the table, sleep, wakeup, kill. \<open>Spinlock\<close>, \<open>Sleeplock\<close>: the lock routines and mutual
  exclusion of the spin lock under interleaving. \<open>Sched\<close>: \<open>scheduler\<close>, \<open>sched\<close>, \<open>yield\<close>, \<open>sleep\<close> and \<open>wakeup\<close> of
  any number of CPUs as a step relation over the lock model; a process is never on two CPUs, no lock or
  \<open>sched\<close> check panics, no wakeup is lost. \<open>Proc_Life\<close>, \<open>Exec\<close>: allocation, fork, exit, wait, \<open>kexec\<close>.
  \<open>Proc_Alloc\<close>: what a new process starts with, and the effect of killing process id 0.

  \<^bold>\<open>Memory of processes.\<close> \<open>Vm\<close>: \<open>vm.c\<close>. \<open>Page_Table\<close>, \<open>User_Memory\<close>: the tree behind \<open>walk\<close>, its invariant
  together with the free list, and what mapping, faults, \<open>copyin\<close> and \<open>copyout\<close> do to the memory a
  user sees.

  \<^bold>\<open>Disk and files.\<close> \<open>Bio\<close>, \<open>Bcache\<close>: the cache with its list of buffers, and the contents it presents.
  \<open>Log\<close>, \<open>Log_Commit\<close>, \<open>Log_Crash\<close>: the log; the disk has a trace of writes, a crash keeps a prefix of it, and
  recovery then gives the contents before or after the transaction. \<open>Fs\<close>, \<open>Fs_Dir\<close>, \<open>Fs_Blocks\<close>, \<open>Fs_File\<close>: block
  allocation, inodes, directories, paths; a file as an array of bytes. \<open>Virtio\<close>, \<open>Virtio_Disk\<close>: the driver; the
  device is a parameter with the behaviour of a virtio block device as hypothesis, and a request through it is the
  atomic transfer that \<open>Bio\<close> uses.

  \<^bold>\<open>Files, devices, calls.\<close> \<open>Pipe\<close>, \<open>Console\<close>, \<open>File\<close>: open files, pipes, console, serial line. \<open>Pipe_Io\<close>,
  \<open>Console_Line\<close>: pipes as queues and the console as a line editor, from and to user memory. \<open>File_Refs\<close>: reference
  counts of open files. \<open>Sysfile\<close>, \<open>Syscall\<close>, \<open>Trap\<close>: all system calls and their dispatch, traps,
  interrupts, start-up. \<open>Kprintf\<close>: \<open>printf\<close> and \<open>panic\<close> of the kernel. \<open>Boot\<close>: a concrete kernel state at which
  theorems are instantiated.

  \<^bold>\<open>User programs.\<close> \<open>User_Lib\<close>: \<open>user/ulib.c\<close> and \<open>user/printf.c\<close>. \<open>Umalloc\<close>: \<open>user/umalloc.c\<close>, with \<open>sbrk\<close> as
  a parameter that fails or returns the old end of the memory. \<open>Shell\<close>: the lexer and parser of \<open>user/sh.c\<close>. \<open>Grep\<close>: \<open>user/grep.c\<close>, with \<open>read\<close> as a
  parameter that delivers the file in pieces.

  \<^bold>\<open>Bounds.\<close> Loops over arrays run over the list of indices. Other loops either have a termination proof, are partial functions,
  or carry a bound, and running out of it is \<open>Hangs\<close>. The bounds come from what the loop consumes: pages
  of the range for the loops of \<open>vm.c\<close>, the levels of the tree for \<open>freewalk\<close>, the buffers for the list walks of \<open>bget\<close>, entries
  of the directory, characters typed for \<open>kill_line\<close>, bytes received for \<open>uartintr\<close>, and four calls for each character of the line for
  the shell's parser. The theorems about these routines state that they return, so that the bound is enough there; for the parser it is
  \<open>parse_total\<close>.

  \<^bold>\<open>Not modelled.\<close> The assembly (\<open>entry.S\<close>, \<open>swtch.S\<close>, \<open>kernelvec.S\<close>, \<open>trampoline.S\<close>): it moves registers, and the C code is cut at the
  calls. Access to control registers is assembly too; the registers are fields of the state. Weak memory:
  a step of a CPU is seen by all. \<open>procdump\<close> only prints. Of the user side: \<open>start\<close>, \<open>stat\<close> and the \<open>sbrk\<close> wrappers of the library,
  \<open>runcmd\<close> and \<open>main\<close> of the shell, \<open>main\<close> of \<open>grep\<close>, and the other small programs are sequences of system calls; the test programs
  test the kernel; \<open>mkfs\<close> runs on the host with its library. The message for an
  unknown system call and the other messages of traps are left out of \<open>Syscall\<close> and \<open>Trap\<close>.
\<close>

end
